(* ===== verification/Binary64.thy ===== *)
theory Binary64
  imports Prelude "HOL-Library.Log_Nat"
begin

text \<open>
  The finite values of an IEEE-754 \<^verbatim>\<open>double\<close> and the arithmetic the program does on
  them. A finite double is the rational number it denotes; an operation is the exact rational
  operation followed by \<open>rnd\<close>, rounding to nearest, ties to even, with 53 bits of
  precision and least exponent -1074 (so subnormal results are included). NaN and the infinities
  do not occur as prices: \<^verbatim>\<open>istream >> double\<close> stores neither, and the wire carries
  64-bit integers divided by 10000.0. A product above the largest double is left unrounded by
  overflow here; the program only converts such a product to an integer, out of range either way.
\<close>

type_synonym double = rat

definition pow2 :: "int \<Rightarrow> rat" where
  "pow2 e = (if 0 \<le> e then 2 ^ nat e else 1 / 2 ^ nat (- e))"

lemma pow2_powi: "pow2 e = 2 powi e"
  by (simp add: pow2_def power_int_def field_simps)

lemma pow2_pos [simp]: "0 < pow2 e"
  by (simp add: pow2_def)

lemma pow2_nonzero [simp]: "pow2 e \<noteq> 0"
  by (metis less_irrefl pow2_pos)

lemma pow2_add: "pow2 (a + b) = pow2 a * pow2 b"
  by (simp add: pow2_powi power_int_add)

lemma pow2_diff: "pow2 (a - b) = pow2 a / pow2 b"
  by (simp add: pow2_powi power_int_diff)

lemma pow2_nat: "pow2 (int n) = 2 ^ n"
  by (simp add: pow2_def)

lemma pow2_mono: "a \<le> b \<Longrightarrow> pow2 a \<le> pow2 b"
  by (simp add: pow2_powi power_int_increasing)

lemma abs_pow2 [simp]: "\<bar>pow2 e\<bar> = pow2 e"
  by (simp add: less_imp_le)

lemma pow2_strict_mono: "a < b \<Longrightarrow> pow2 a < pow2 b"
  by (simp add: pow2_powi power_int_strict_increasing)

lemma pow2_less_iff [simp]: "pow2 a < pow2 b \<longleftrightarrow> a < b"
  using pow2_strict_mono pow2_mono by (metis linorder_not_less)

lemma pow2_le_iff [simp]: "pow2 a \<le> pow2 b \<longleftrightarrow> a \<le> b"
  by (metis linorder_not_less pow2_less_iff)

section \<open>The binade of a positive rational\<close>

definition ilog2 :: "rat \<Rightarrow> int" where
  "ilog2 x =
     (let k = bitlen (fst (quotient_of x)) - bitlen (snd (quotient_of x))
      in if pow2 k \<le> x then k else k - 1)"

lemma pow2_bitlen:
  assumes "0 < n" shows "pow2 (bitlen n - 1) \<le> of_int n" and "of_int n < pow2 (bitlen n)"
proof -
  have "0 \<le> \<lfloor>log 2 (real_of_int n)\<rfloor>" using assms by (subst zero_le_floor) simp
  moreover have "bitlen n = \<lfloor>log 2 (real_of_int n)\<rfloor> + 1"
    using assms by (simp add: bitlen_def floorlog_def)
  ultimately have pos: "0 < bitlen n" by linarith
  have b: "2 ^ nat (bitlen n - 1) \<le> n" "n < 2 ^ nat (bitlen n)"
    using bitlen_bounds [OF assms] by simp_all
  have "(2::rat) ^ nat (bitlen n - 1) = of_int (2 ^ nat (bitlen n - 1))" by simp
  also have "\<dots> \<le> of_int n" using b(1) by (simp only: of_int_le_iff)
  finally show "pow2 (bitlen n - 1) \<le> of_int n" using pos by (simp add: pow2_def)
  have "of_int n < (of_int (2 ^ nat (bitlen n)) :: rat)" using b(2) by (simp only: of_int_less_iff)
  then show "of_int n < pow2 (bitlen n)" using pos by (simp add: pow2_def)
qed

lemma ilog2_bounds:
  assumes "0 < x" shows "pow2 (ilog2 x) \<le> x" and "x < pow2 (ilog2 x + 1)"
proof -
  obtain n d where q: "quotient_of x = (n, d)" by (cases "quotient_of x")
  then have x: "x = of_int n / of_int d" and d: "0 < d"
    by (simp_all add: quotient_of_div quotient_of_denom_pos)
  with assms have n: "0 < n"
    by (simp add: zero_less_divide_iff)
  let ?k = "bitlen n - bitlen d"
  have dpos: "0 < (of_int d :: rat)" using d by simp
  have "pow2 (bitlen n - 1) / pow2 (bitlen d) \<le> of_int n / of_int d"
    by (rule frac_le) (use pow2_bitlen [OF n] pow2_bitlen [OF d] dpos n in auto)
  then have lo: "pow2 (?k - 1) \<le> x"
    by (simp add: x flip: pow2_diff) (simp add: algebra_simps)
  have "of_int n / of_int d < pow2 (bitlen n) / pow2 (bitlen d - 1)"
    by (rule frac_less) (use pow2_bitlen [OF n] pow2_bitlen [OF d] dpos n in auto)
  then have hi: "x < pow2 (?k + 1)"
    by (simp add: x flip: pow2_diff) (simp add: algebra_simps)
  have il: "ilog2 x = (if pow2 ?k \<le> x then ?k else ?k - 1)"
    by (simp add: ilog2_def q)
  show "pow2 (ilog2 x) \<le> x" using il lo by auto
  show "x < pow2 (ilog2 x + 1)" using il hi by auto
qed

lemma ilog2_unique: "pow2 k \<le> x \<Longrightarrow> x < pow2 (k + 1) \<Longrightarrow> ilog2 x = k"
proof -
  assume a: "pow2 k \<le> x" "x < pow2 (k + 1)"
  then have "0 < x" using pow2_pos [of k] by linarith
  from a ilog2_bounds [OF this] have "pow2 k < pow2 (ilog2 x + 1)" "pow2 (ilog2 x) < pow2 (k + 1)"
    by linarith+
  then show ?thesis by simp
qed

lemma ilog2_mono: "0 < x \<Longrightarrow> x \<le> y \<Longrightarrow> ilog2 x \<le> ilog2 y"
proof -
  assume a: "0 < x" "x \<le> y"
  then have "0 < y" by linarith
  from ilog2_bounds(1) [OF a(1)] ilog2_bounds(2) [OF this] a(2)
  have "pow2 (ilog2 x) < pow2 (ilog2 y + 1)" by linarith
  then show ?thesis by simp
qed

section \<open>Rounding to nearest, ties to even\<close>

definition rne :: "rat \<Rightarrow> int" where
  "rne y =
     (let f = \<lfloor>y\<rfloor>; r = y - of_int f
      in if r < 1 / 2 \<or> (r = 1 / 2 \<and> even f) then f else f + 1)"

definition ulp_exp :: "rat \<Rightarrow> int" where
  "ulp_exp x = max (ilog2 \<bar>x\<bar> - 52) (- 1074)"

definition rnd :: "rat \<Rightarrow> double" where
  "rnd x = (if x = 0 then 0 else of_int (rne (x / pow2 (ulp_exp x))) * pow2 (ulp_exp x))"

lemma rne_of_int [simp]: "rne (of_int n) = n"
  by (simp add: rne_def Let_def)

lemma rne_error: "\<bar>of_int (rne y) - y\<bar> \<le> 1 / 2"
proof -
  have "0 \<le> y - of_int \<lfloor>y\<rfloor>" and "y - of_int \<lfloor>y\<rfloor> < 1"
    by (simp_all add: floor_le_iff) linarith
  then show ?thesis by (auto simp: rne_def Let_def)
qed

lemma rne_mono:
  assumes "x \<le> y" shows "rne x \<le> rne y"
proof (cases "\<lfloor>x\<rfloor> = \<lfloor>y\<rfloor>")
  case True
  with assms show ?thesis by (auto simp: rne_def Let_def)
next
  case False
  with floor_mono [OF assms] have "\<lfloor>x\<rfloor> + 1 \<le> \<lfloor>y\<rfloor>" by linarith
  then show ?thesis by (auto simp: rne_def Let_def)
qed

lemma rnd_0 [simp]: "rnd 0 = 0"
  by (simp add: rnd_def)

lemma rnd_error: "\<bar>rnd x - x\<bar> \<le> pow2 (ulp_exp x) / 2"
proof (cases "x = 0")
  case False
  let ?p = "pow2 (ulp_exp x)"
  have "rnd x - x = (of_int (rne (x / ?p)) - x / ?p) * ?p"
    using False by (simp add: rnd_def left_diff_distrib)
  then have "\<bar>rnd x - x\<bar> = \<bar>of_int (rne (x / ?p)) - x / ?p\<bar> * ?p"
    by (simp add: abs_mult)
  also have "\<dots> \<le> 1 / 2 * ?p"
    by (rule mult_right_mono [OF rne_error]) (simp add: less_imp_le)
  finally show ?thesis by simp
qed (simp add: less_imp_le)

text \<open>A rational that is a double is not changed by rounding.\<close>

definition representable :: "rat \<Rightarrow> bool" where
  "representable x \<longleftrightarrow> (\<exists>m e. x = of_int m * pow2 e \<and> \<bar>m\<bar> < 2 ^ 53 \<and> - 1074 \<le> e)"

lemma representable_ulp_exp:
  assumes "x = of_int m * pow2 e" and "\<bar>m\<bar> < 2 ^ 53" and "- 1074 \<le> e" and "x \<noteq> 0"
  shows "ulp_exp x \<le> e"
proof -
  have ax: "\<bar>x\<bar> = of_int \<bar>m\<bar> * pow2 e" and x0: "0 < \<bar>x\<bar>"
    using assms by (simp_all add: abs_mult)
  have "(of_int \<bar>m\<bar> :: rat) < of_int (2 ^ 53)" using assms(2) by (simp only: of_int_less_iff)
  then have "\<bar>x\<bar> < pow2 53 * pow2 e"
    unfolding ax by (intro mult_strict_right_mono) (simp_all add: pow2_def)
  then have "pow2 (ilog2 \<bar>x\<bar>) < pow2 (53 + e)"
    using ilog2_bounds(1) [OF x0] by (simp add: pow2_add)
  with assms(3) show ?thesis by (simp add: ulp_exp_def)
qed

lemma rnd_representable:
  assumes "representable x" shows "rnd x = x"
proof (cases "x = 0")
  case False
  from assms obtain m e where r: "x = of_int m * pow2 e" "\<bar>m\<bar> < 2 ^ 53" "- 1074 \<le> e"
    by (auto simp: representable_def)
  have le: "ulp_exp x \<le> e" by (rule representable_ulp_exp [OF r False])
  have "pow2 e / pow2 (ulp_exp x) = pow2 (int (nat (e - ulp_exp x)))"
    using le by (simp flip: pow2_diff)
  also have "\<dots> = of_int (2 ^ nat (e - ulp_exp x))"
    by (simp only: pow2_nat) simp
  finally have "x / pow2 (ulp_exp x) = of_int (m * 2 ^ nat (e - ulp_exp x))"
    by (simp add: r(1)) (metis times_divide_eq_right)
  then have "rne (x / pow2 (ulp_exp x)) = m * 2 ^ nat (e - ulp_exp x)"
    by (simp only: rne_of_int)
  with \<open>x / _ = _\<close> False show ?thesis
    by (simp add: rnd_def) (metis nonzero_eq_divide_eq pow2_nonzero)
qed simp

lemma representable_of_int: "\<bar>m\<bar> < 2 ^ 53 \<Longrightarrow> representable (of_int m)"
  unfolding representable_def by (rule exI [of _ m], rule exI [of _ 0]) (simp add: pow2_def)

lemma rnd_nonneg: "0 \<le> x \<Longrightarrow> 0 \<le> rnd x"
  using rne_mono [of 0 "x / pow2 (ulp_exp x)"] rne_of_int [of 0]
  by (simp add: rnd_def less_imp_le)

text \<open>How far off a rounding is, relative to the magnitude.\<close>

lemma rnd_error_bound:
  assumes "0 \<le> x" and "x < pow2 (int k)" and "- 1022 \<le> int k"
  shows "\<bar>rnd x - x\<bar> \<le> pow2 (int k - 54)"
proof (cases "x = 0")
  case False
  then have x: "0 < x" using assms(1) by simp
  have "pow2 (ilog2 x) < pow2 (int k)" using ilog2_bounds(1) [OF x] assms(2) by linarith
  then have "ulp_exp x \<le> int k - 53" using x by (simp add: ulp_exp_def)
  then have "pow2 (ulp_exp x) / 2 \<le> pow2 (int k - 53) / 2" by simp
  also have "\<dots> = pow2 (int k - 53) / pow2 1" by (simp add: pow2_def)
  also have "\<dots> = pow2 (int k - 54)" by (simp flip: pow2_diff)
  finally show ?thesis using rnd_error [of x] by linarith
qed (simp add: less_imp_le)

section \<open>The operations the program uses\<close>

definition dmul :: "double \<Rightarrow> double \<Rightarrow> double" where
  "dmul a b = rnd (a * b)"

definition ddiv :: "double \<Rightarrow> double \<Rightarrow> double" where
  "ddiv a b = rnd (a / b)"

text \<open>Conversion of an integer to double, and the truncating conversion back.\<close>

definition double_of_int :: "int \<Rightarrow> double" where
  "double_of_int n = rnd (of_int n)"

definition dtrunc :: "double \<Rightarrow> int" where
  "dtrunc x = (if x < 0 then \<lceil>x\<rceil> else \<lfloor>x\<rfloor>)"

lemma dtrunc_of_int [simp]: "dtrunc (of_int n) = n"
  by (simp add: dtrunc_def)

text \<open>
  \<^verbatim>\<open>static_cast<int64_t>(v)\<close>. Out of range the standard leaves it undefined; the x86-64
  conversion instruction delivers the least value of the type, which is what is written here.
\<close>

definition double_to_i64 :: "double \<Rightarrow> int" where
  "double_to_i64 x = (if fits64 (dtrunc x) then dtrunc x else - (2 ^ 63))"

end
