(* ===== verification/Order_Types.thy ===== *)
theory Order_Types
  imports Binary64 "HOL-Library.List_Lexorder" "HOL-Library.Char_ord"
begin

text \<open>
  The data of \<^verbatim>\<open>orderbook/order.h\<close> and \<^verbatim>\<open>orderbook/price_level.h\<close>: sides,
  orders, fills, price levels and snapshots. A \<^verbatim>\<open>std::string\<close> is a byte string
  (\<^typ>\<open>string\<close>), compared byte-wise; a Lamport timestamp is a 64-bit word; quantities are
  signed 64-bit integers.
\<close>

section \<open>Orders\<close>

text \<open>
  \<^verbatim>\<open>enum class Side : uint8_t\<close> has a fixed underlying type, so a byte off the wire
  other than 0 and 1 is a value of it too.
\<close>

datatype side = BUY | SELL | Side_other u8

record order =
  order_id :: string
  node_id :: string
  side :: side
  price :: double
  quantity :: int
  remaining :: int
  timestamp :: u64
  is_cancelled :: bool

text \<open>\<^verbatim>\<open>Order::operator<\<close> and \<^verbatim>\<open>Order::operator==\<close>.\<close>

definition order_less :: "order \<Rightarrow> order \<Rightarrow> bool" where
  "order_less a b =
     (if timestamp a \<noteq> timestamp b then timestamp a < timestamp b
      else if node_id a \<noteq> node_id b then node_id a < node_id b
      else order_id a < order_id b)"

definition order_eq :: "order \<Rightarrow> order \<Rightarrow> bool" where
  "order_eq a b \<longleftrightarrow> order_id a = order_id b"

record fill =
  fill_order_id :: string
  fill_price :: double
  fill_quantity :: int

section \<open>Price levels\<close>

text \<open>
  The deque of a level holds pointers into the book's \<^verbatim>\<open>orders_\<close> map. The map never
  erases an element, and the addresses of its elements are stable, so a pointer is modelled by
  the key of the element it points to; following it is a lookup in the map.
\<close>

record price_level =
  level_price :: double
  total_quantity :: int
  level_orders :: "string list"

record book_snapshot =
  snap_bids :: "price_level list"
  snap_asks :: "price_level list"

section \<open>The order on orders\<close>

lemma order_less_irrefl: "\<not> order_less a a"
  by (simp add: order_less_def)

lemma order_less_trans: "order_less a b \<Longrightarrow> order_less b c \<Longrightarrow> order_less a c"
  by (auto simp: order_less_def split: if_splits)

lemma order_less_total:
  "order_less a b \<or> order_less b a \<or>
   (timestamp a = timestamp b \<and> node_id a = node_id b \<and> order_id a = order_id b)"
  by (auto simp: order_less_def)

end
