(* ===== verification/Std_Map.thy ===== *)
theory Std_Map
  imports Prelude
begin

text \<open>
  The ordered associative container \<^verbatim>\<open>std::map<K, V, Compare>\<close> as the list of its
  entries in iteration order. The operations take the comparator; the locale \<open>strict_compare\<close>
  states what the standard asks of it (a strict total order) and proves once what lookup,
  insertion and erasure do. The book uses it with \<^verbatim>\<open>std::greater\<close> for bids and
  \<^verbatim>\<open>std::less\<close> for asks.
\<close>

fun om_find :: "('k \<Rightarrow> 'k \<Rightarrow> bool) \<Rightarrow> 'k \<Rightarrow> ('k \<times> 'v) list \<Rightarrow> 'v option" where
  "om_find lt k [] = None"
| "om_find lt k ((k', v) # xs) =
     (if lt k' k then om_find lt k xs else if lt k k' then None else Some v)"

text \<open>\<open>auto& v = m[k]; v = f(v)\<close>: a missing key is inserted with the default value first.\<close>

fun om_upsert :: "('k \<Rightarrow> 'k \<Rightarrow> bool) \<Rightarrow> 'k \<Rightarrow> 'v \<Rightarrow> ('v \<Rightarrow> 'v) \<Rightarrow> ('k \<times> 'v) list \<Rightarrow> ('k \<times> 'v) list" where
  "om_upsert lt k d f [] = [(k, f d)]"
| "om_upsert lt k d f ((k', v) # xs) =
     (if lt k' k then (k', v) # om_upsert lt k d f xs
      else if lt k k' then (k, f d) # (k', v) # xs
      else (k', f v) # xs)"

text \<open>\<^verbatim>\<open>m.erase(m.find(k))\<close>.\<close>

fun om_erase :: "('k \<Rightarrow> 'k \<Rightarrow> bool) \<Rightarrow> 'k \<Rightarrow> ('k \<times> 'v) list \<Rightarrow> ('k \<times> 'v) list" where
  "om_erase lt k [] = []"
| "om_erase lt k ((k', v) # xs) =
     (if lt k' k then (k', v) # om_erase lt k xs else if lt k k' then (k', v) # xs else xs)"

abbreviation om_sorted :: "('k \<Rightarrow> 'k \<Rightarrow> bool) \<Rightarrow> ('k \<times> 'v) list \<Rightarrow> bool" where
  "om_sorted lt xs \<equiv> sorted_wrt lt (map fst xs)"

locale strict_compare =
  fixes lt :: "'k \<Rightarrow> 'k \<Rightarrow> bool"
  assumes irrefl: "\<not> lt a a"
    and trans: "lt a b \<Longrightarrow> lt b c \<Longrightarrow> lt a c"
    and total: "lt a b \<or> a = b \<or> lt b a"
begin

lemma asym: "lt a b \<Longrightarrow> \<not> lt b a"
  using irrefl trans by blast

lemma below_head:
  assumes "om_sorted lt ((k', v) # xs)" and "lt k k'" shows "k \<notin> fst ` set xs"
proof
  assume "k \<in> fst ` set xs"
  then have "lt k' k" using assms(1) by auto
  with assms(2) show False using asym by blast
qed

lemma sorted_distinct: "om_sorted lt xs \<Longrightarrow> distinct (map fst xs)"
proof (induction xs)
  case (Cons kv xs)
  then have "fst kv \<notin> set (map fst xs)" using irrefl by auto
  with Cons show ?case by simp
qed simp

lemma find_map_of: "om_sorted lt xs \<Longrightarrow> om_find lt k xs = map_of xs k"
proof (induction xs)
  case (Cons kv xs)
  obtain k' v where kv: "kv = (k', v)" by (cases kv)
  have "map_of xs k = None" if "lt k k'"
    using below_head [OF _ that] Cons.prems kv by (simp add: map_of_eq_None_iff)
  then show ?case
    using Cons total [of k k'] irrefl asym kv by auto
qed simp

lemma keys_upsert: "fst ` set (om_upsert lt k d f xs) = insert k (fst ` set xs)"
proof (induction xs)
  case (Cons kv xs)
  then show ?case using total [of k "fst kv"] by (cases kv) auto
qed simp

lemma sorted_upsert: "om_sorted lt xs \<Longrightarrow> om_sorted lt (om_upsert lt k d f xs)"
proof (induction xs)
  case (Cons kv xs)
  obtain k' v where kv: "kv = (k', v)" by (cases kv)
  have "\<forall>y \<in> fst ` set (om_upsert lt k d f xs). lt k' y" if "lt k' k"
    using Cons.prems kv that by (auto simp: keys_upsert)
  then show ?case
    using Cons kv trans by auto
qed simp

lemma map_of_upsert:
  "om_sorted lt xs \<Longrightarrow>
   map_of (om_upsert lt k d f xs) = (map_of xs)(k \<mapsto> f (case map_of xs k of None \<Rightarrow> d | Some v \<Rightarrow> v))"
proof (induction xs)
  case (Cons kv xs)
  obtain k' v where kv: "kv = (k', v)" by (cases kv)
  have "map_of xs k = None" if "lt k k'"
    using below_head [OF _ that] Cons.prems kv by (simp add: map_of_eq_None_iff)
  then show ?case
    using Cons total [of k k'] irrefl asym kv by (auto simp: fun_eq_iff)
qed simp

lemma keys_erase: "om_sorted lt xs \<Longrightarrow> fst ` set (om_erase lt k xs) = fst ` set xs - {k}"
proof (induction xs)
  case (Cons kv xs)
  obtain k' v where kv: "kv = (k', v)" by (cases kv)
  have "k' \<notin> fst ` set xs"
    using sorted_distinct [OF Cons.prems] kv by simp
  moreover have "k \<notin> fst ` set xs" if "lt k k'"
    using below_head [OF _ that] Cons.prems kv by simp
  ultimately show ?case
    using Cons total [of k k'] irrefl kv by auto
qed simp

lemma sorted_erase: "om_sorted lt xs \<Longrightarrow> om_sorted lt (om_erase lt k xs)"
proof (induction xs)
  case (Cons kv xs)
  obtain k' v where kv: "kv = (k', v)" by (cases kv)
  have "set (map fst (om_erase lt k xs)) = set (map fst xs) - {k}"
    using keys_erase [of xs k] Cons.prems by simp
  then show ?case
    using Cons kv by auto
qed simp

lemma map_of_erase:
  "om_sorted lt xs \<Longrightarrow> map_of (om_erase lt k xs) = (map_of xs)(k := None)"
proof (induction xs)
  case (Cons kv xs)
  obtain k' v where kv: "kv = (k', v)" by (cases kv)
  have "map_of xs k' = None"
    using sorted_distinct [OF Cons.prems] kv by (simp add: map_of_eq_None_iff)
  moreover have "map_of xs k = None" if "lt k k'"
    using below_head [OF _ that] Cons.prems kv by (simp add: map_of_eq_None_iff)
  ultimately show ?case
    using Cons total [of k k'] irrefl kv by (auto simp: fun_eq_iff)
qed simp

lemma sorted_same_keys:
  assumes "om_sorted lt xs" and "om_sorted lt ys" and "fst ` set xs = fst ` set ys"
  shows "map fst xs = map fst ys"
  by (rule sorted_wrt_same_set [OF assms(1,2)]) (use assms(3) irrefl trans in auto)

lemma in_set_iff: "om_sorted lt xs \<Longrightarrow> (k, v) \<in> set xs \<longleftrightarrow> map_of xs k = Some v"
  using sorted_distinct map_of_SomeI map_of_SomeD by metis

text \<open>The shape of the three operations around a key that is present, or absent.\<close>

lemma split_present:
  assumes "om_sorted lt (as @ (k, v) # bs)"
  shows "om_find lt k (as @ (k, v) # bs) = Some v"
    and "om_upsert lt k d f (as @ (k, v) # bs) = as @ (k, f v) # bs"
    and "om_erase lt k (as @ (k, v) # bs) = as @ bs"
  using assms irrefl by (induction as) auto

lemma split_absent:
  assumes "om_sorted lt xs" and "k \<notin> fst ` set xs"
  obtains as bs where "xs = as @ bs" and "om_upsert lt k d f xs = as @ (k, f d) # bs"
  using assms
proof (induction xs arbitrary: thesis)
  case Nil
  then show ?case by simp
next
  case (Cons kv xs)
  obtain k' v where kv: "kv = (k', v)" by (cases kv)
  show ?case
  proof (cases "lt k' k")
    case True
    obtain as bs where "xs = as @ bs" "om_upsert lt k d f xs = as @ (k, f d) # bs"
      using Cons.IH Cons.prems by auto
    with True kv show ?thesis by (intro Cons.prems(1) [of "kv # as" bs]) auto
  next
    case False
    then have "lt k k'" using total [of k k'] Cons.prems(3) kv by auto
    with False kv show ?thesis by (intro Cons.prems(1) [of "[]" "kv # xs"]) auto
  qed
qed

text \<open>Two sorted containers with the same lookups are the same list of entries.\<close>

lemma sorted_same_map:
  assumes "om_sorted lt xs" and "om_sorted lt ys" and "map_of xs = map_of ys"
  shows "xs = ys"
proof -
  have keys: "map fst xs = map fst ys"
    using sorted_same_keys [OF assms(1,2)] assms(3) by (metis dom_map_of_conv_image_fst)
  have "set xs = set ys"
    using map_of_inject_set sorted_distinct assms by blast
  then have "\<forall>i < length xs. xs ! i = ys ! i"
    using keys assms(3) sorted_distinct [OF assms(1)] sorted_distinct [OF assms(2)]
    by (metis length_map map_of_SomeI nth_map nth_mem option.inject prod.collapse)
  with keys show ?thesis
    by (metis length_map nth_equalityI)
qed

end

text \<open>\<^verbatim>\<open>std::less\<close> and \<^verbatim>\<open>std::greater\<close> meet the contract.\<close>

interpretation less_map: strict_compare "(<) :: rat \<Rightarrow> rat \<Rightarrow> bool"
  by unfold_locales auto

interpretation greater_map: strict_compare "(>) :: rat \<Rightarrow> rat \<Rightarrow> bool"
  by unfold_locales auto

end
