(* ===== verification/OrderBook.thy ===== *)
theory OrderBook
  imports Order_Types Std_Map "HOL-Library.Multiset"
begin

text \<open>
  The limit order book of \<^verbatim>\<open>orderbook/orderbook.cpp\<close>. Every public operation runs
  under the book's mutex, so it is one function on the state.
\<close>

section \<open>State\<close>

record order_book =
  bids :: "(double \<times> price_level) list"
  asks :: "(double \<times> price_level) list"
  orders :: "(string \<times> order) list"

definition empty_book :: order_book where
  "empty_book = \<lparr>bids = [], asks = [], orders = []\<rparr>"

text \<open>Following an \<^verbatim>\<open>Order*\<close> of a deque. The invariant shows it never dangles.\<close>

definition deref :: "(string \<times> order) list \<Rightarrow> string \<Rightarrow> order" where
  "deref os p = the (map_of os p)"

section \<open>Adding and removing\<close>

definition default_level :: price_level where
  "default_level = \<lparr>level_price = 0, total_quantity = 0, level_orders = []\<rparr>"

definition enqueue :: "order \<Rightarrow> price_level \<Rightarrow> price_level" where
  "enqueue ord l =
     l\<lparr>level_price := price ord,
       total_quantity := wrap64 (total_quantity l + remaining ord),
       level_orders := level_orders l @ [order_id ord]\<rparr>"

definition place_order :: "order_book \<Rightarrow> order \<Rightarrow> order_book" where
  "place_order b ord =
     (let b1 = b\<lparr>orders := AList.update (order_id ord) ord (orders b)\<rparr>
      in if side ord = BUY
         then b1\<lparr>bids := om_upsert (>) (price ord) default_level (enqueue ord) (bids b1)\<rparr>
         else b1\<lparr>asks := om_upsert (<) (price ord) default_level (enqueue ord) (asks b1)\<rparr>)"

definition add_order :: "order_book \<Rightarrow> order \<Rightarrow> order_book \<times> string" where
  "add_order b ord = (place_order b ord, order_id ord)"

text \<open>
  \<^verbatim>\<open>find_if\<close> and \<^verbatim>\<open>erase\<close> on the deque: the first pointer to an order with the
  id. An emptied level is erased, found or not.
\<close>

definition remove_from_deque :: "(string \<times> order) list \<Rightarrow> string \<Rightarrow> price_level \<Rightarrow> price_level" where
  "remove_from_deque os oid l =
     (case find (\<lambda>p. order_id (deref os p) = oid) (level_orders l) of
        None \<Rightarrow> l
      | Some p \<Rightarrow> l\<lparr>total_quantity := wrap64 (total_quantity l - remaining (deref os p)),
                    level_orders := remove1 p (level_orders l)\<rparr>)"

definition remove_from_side ::
  "(double \<Rightarrow> double \<Rightarrow> bool) \<Rightarrow> (string \<times> order) list \<Rightarrow> string \<Rightarrow> double
    \<Rightarrow> (double \<times> price_level) list \<Rightarrow> (double \<times> price_level) list" where
  "remove_from_side lt os oid pr lv =
     (case om_find lt pr lv of
        None \<Rightarrow> lv
      | Some l \<Rightarrow>
          (let l' = remove_from_deque os oid l
           in if level_orders l' = [] then om_erase lt pr lv
              else om_upsert lt pr l' (\<lambda>_. l') lv))"

definition remove_order_from_level :: "order_book \<Rightarrow> string \<Rightarrow> side \<Rightarrow> double \<Rightarrow> order_book" where
  "remove_order_from_level b oid sd pr =
     (if sd = BUY then b\<lparr>bids := remove_from_side (>) (orders b) oid pr (bids b)\<rparr>
      else b\<lparr>asks := remove_from_side (<) (orders b) oid pr (asks b)\<rparr>)"

definition cancel_order :: "order_book \<Rightarrow> string \<Rightarrow> order_book \<times> bool" where
  "cancel_order b oid =
     (case map_of (orders b) oid of
        None \<Rightarrow> (b, False)
      | Some ord \<Rightarrow>
          if is_cancelled ord then (b, False)
          else (let b1 = b\<lparr>orders := AList.update oid (ord\<lparr>is_cancelled := True\<rparr>) (orders b)\<rparr>
                in (remove_order_from_level b1 oid (side ord) (price ord), True)))"

section \<open>Matching a market order\<close>

text \<open>
  The inner loop over one level's deque: state is the orders map, the deque, the quantity still
  wanted, the level's total and the fills so far. An iteration either pops the front order or
  brings the wanted quantity to 0.
\<close>

function match_deque ::
  "(string \<times> order) list \<Rightarrow> string list \<Rightarrow> int \<Rightarrow> int \<Rightarrow> fill list
    \<Rightarrow> (string \<times> order) list \<times> string list \<times> int \<times> int \<times> fill list" where
  "match_deque os [] rem tot fs = (os, [], rem, tot, fs)"
| "match_deque os (p # ps) rem tot fs =
     (if \<not> rem > 0 then (os, p # ps, rem, tot, fs)
      else
        let ord = deref os p
        in if is_cancelled ord then match_deque os ps rem tot fs
           else
             let fill_qty = min rem (remaining ord);
                 fs' = fs @ [\<lparr>fill_order_id = order_id ord, fill_price = price ord,
                              fill_quantity = fill_qty\<rparr>];
                 ord' = ord\<lparr>remaining := wrap64 (remaining ord - fill_qty)\<rparr>;
                 tot' = wrap64 (tot - fill_qty);
                 rem' = wrap64 (rem - fill_qty)
             in if remaining ord' = 0
                then match_deque (AList.update p (ord'\<lparr>is_cancelled := True\<rparr>) os) ps rem' tot' fs'
                else match_deque (AList.update p ord' os) (p # ps) rem' tot' fs')"
  by pat_completeness auto

termination
  by (relation "measures [\<lambda>(os, ps, rem, tot, fs). length ps, \<lambda>(os, ps, rem, tot, fs). nat rem]")
     (auto simp: min_def split: if_splits)

text \<open>The outer loop over the levels of one side, from its best price.\<close>

fun match_levels ::
  "(string \<times> order) list \<Rightarrow> (double \<times> price_level) list \<Rightarrow> int \<Rightarrow> fill list
    \<Rightarrow> (string \<times> order) list \<times> (double \<times> price_level) list \<times> fill list" where
  "match_levels os [] rem fs = (os, [], fs)"
| "match_levels os ((k, l) # lv) rem fs =
     (if \<not> rem > 0 then (os, (k, l) # lv, fs)
      else
        let (os1, ps, rem1, tot, fs1) = match_deque os (level_orders l) rem (total_quantity l) fs;
            (os2, lv2, fs2) = match_levels os1 lv rem1 fs1
        in if ps = [] then (os2, lv2, fs2)
           else (os2, (k, l\<lparr>total_quantity := tot, level_orders := ps\<rparr>) # lv2, fs2))"

definition match_market_order :: "order_book \<Rightarrow> side \<Rightarrow> int \<Rightarrow> order_book \<times> fill list" where
  "match_market_order b aggressor_side qty =
     (if aggressor_side = BUY
      then let (os, lv, fs) = match_levels (orders b) (asks b) qty []
           in (b\<lparr>orders := os, asks := lv\<rparr>, fs)
      else let (os, lv, fs) = match_levels (orders b) (bids b) qty []
           in (b\<lparr>orders := os, bids := lv\<rparr>, fs))"

section \<open>Queries\<close>

definition get_best_bid :: "order_book \<Rightarrow> price_level option" where
  "get_best_bid b = (case bids b of [] \<Rightarrow> None | (k, l) # _ \<Rightarrow> Some l)"

definition get_best_ask :: "order_book \<Rightarrow> price_level option" where
  "get_best_ask b = (case asks b of [] \<Rightarrow> None | (k, l) # _ \<Rightarrow> Some l)"

text \<open>The bounded loop \<^verbatim>\<open>for (level : side) { if (count >= depth) break; ... }\<close>.\<close>

fun snapshot_side :: "int \<Rightarrow> int \<Rightarrow> (double \<times> price_level) list \<Rightarrow> price_level list" where
  "snapshot_side cnt depth [] = []"
| "snapshot_side cnt depth ((k, l) # lv) =
     (if cnt \<ge> depth then [] else l # snapshot_side (cnt + 1) depth lv)"

definition get_snapshot :: "order_book \<Rightarrow> int \<Rightarrow> book_snapshot" where
  "get_snapshot b depth =
     \<lparr>snap_bids = snapshot_side 0 depth (bids b), snap_asks = snapshot_side 0 depth (asks b)\<rparr>"

definition get_all_orders :: "order_book \<Rightarrow> order list" where
  "get_all_orders b =
     filter (\<lambda>ord. \<not> is_cancelled ord \<and> remaining ord > 0) (map snd (orders b))"

definition has_order :: "order_book \<Rightarrow> string \<Rightarrow> bool" where
  "has_order b oid = (map_of (orders b) oid \<noteq> None)"

section \<open>Replication\<close>

definition insert_replicated_order :: "order_book \<Rightarrow> order \<Rightarrow> order_book" where
  "insert_replicated_order b ord =
     (if map_of (orders b) (order_id ord) \<noteq> None then b else place_order b ord)"

definition apply_replicated_cancel :: "order_book \<Rightarrow> string \<Rightarrow> order_book" where
  "apply_replicated_cancel b oid =
     (case map_of (orders b) oid of
        None \<Rightarrow> b
      | Some ord \<Rightarrow>
          if is_cancelled ord then b
          else (let b1 = b\<lparr>orders := AList.update oid (ord\<lparr>is_cancelled := True\<rparr>) (orders b)\<rparr>
                in remove_order_from_level b1 oid (side ord) (price ord)))"

end
