(* ===== verification/OrderBook_Inv.thy ===== *)
theory OrderBook_Inv
  imports OrderBook
begin

text \<open>
  The representation invariant of the book and its preservation by adding, cancelling and the
  replicated operations. It says that the pointers in the deques never dangle, that a side's
  deques hold exactly the live orders of that side, each once and at its own price, that no level
  is empty, that the levels are in price order, and that a level's running total is the sum of
  what its orders have remaining (modulo the wrap-around of the 64-bit total).
\<close>

section \<open>The invariant\<close>

definition order_ok :: "order \<Rightarrow> bool" where
  "order_ok ord \<longleftrightarrow> \<not> is_cancelled ord \<and> 0 < remaining ord \<and> remaining ord < 2 ^ 63"

definition orders_inv :: "(string \<times> order) list \<Rightarrow> bool" where
  "orders_inv os \<longleftrightarrow>
     distinct (map fst os) \<and>
     (\<forall>(p, ord) \<in> set os. order_id ord = p \<and> (is_cancelled ord \<or> order_ok ord))"

definition queued :: "(double \<times> price_level) list \<Rightarrow> string list" where
  "queued lv = concat (map (\<lambda>(k, l). level_orders l) lv)"

definition live_ids :: "(string \<times> order) list \<Rightarrow> bool \<Rightarrow> string set" where
  "live_ids os buy = fst ` {(p, ord) \<in> set os. \<not> is_cancelled ord \<and> (side ord = BUY) = buy}"

definition level_inv :: "(string \<times> order) list \<Rightarrow> double \<Rightarrow> price_level \<Rightarrow> bool" where
  "level_inv os k l \<longleftrightarrow>
     level_price l = k \<and> level_orders l \<noteq> [] \<and>
     total_quantity l = wrap64 (\<Sum>p\<leftarrow>level_orders l. remaining (deref os p)) \<and>
     (\<forall>p \<in> set (level_orders l). price (deref os p) = k)"

definition side_inv ::
  "(double \<Rightarrow> double \<Rightarrow> bool) \<Rightarrow> bool \<Rightarrow> (string \<times> order) list \<Rightarrow> (double \<times> price_level) list \<Rightarrow> bool" where
  "side_inv lt buy os lv \<longleftrightarrow>
     om_sorted lt lv \<and> distinct (queued lv) \<and> set (queued lv) = live_ids os buy \<and>
     (\<forall>(k, l) \<in> set lv. level_inv os k l)"

definition book_inv :: "order_book \<Rightarrow> bool" where
  "book_inv b \<longleftrightarrow>
     orders_inv (orders b) \<and> side_inv (>) True (orders b) (bids b) \<and>
     side_inv (<) False (orders b) (asks b)"

section \<open>Reading the orders map\<close>

lemma orders_inv_lookup:
  assumes "orders_inv os" and "map_of os p = Some ord"
  shows "order_id ord = p" and "is_cancelled ord \<or> order_ok ord"
  using assms map_of_SomeD [OF assms(2)] by (auto simp: orders_inv_def)

lemma orders_inv_update:
  assumes "orders_inv os" and "order_id ord = p" and "is_cancelled ord \<or> order_ok ord"
  shows "orders_inv (AList.update p ord os)"
proof -
  have d: "distinct (map fst os)" using assms(1) by (simp add: orders_inv_def)
  have "order_id r = q \<and> (is_cancelled r \<or> order_ok r)" if "(q, r) \<in> set (AList.update p ord os)" for q r
  proof -
    from that d have "map_of (AList.update p ord os) q = Some r"
      by (metis distinct_alist_update map_of_SomeI)
    then show ?thesis
      using assms(2,3) orders_inv_lookup [OF assms(1)] by (auto split: if_splits)
  qed
  with d show ?thesis by (auto simp: orders_inv_def)
qed

lemma in_live_ids:
  "distinct (map fst os) \<Longrightarrow>
   p \<in> live_ids os buy \<longleftrightarrow>
     (\<exists>ord. map_of os p = Some ord \<and> \<not> is_cancelled ord \<and> (side ord = BUY) = buy)"
  by (force simp: live_ids_def dest: map_of_SomeD map_of_SomeI)

lemma live_deref:
  assumes "orders_inv os" and "p \<in> live_ids os buy"
  shows "map_of os p = Some (deref os p)" and "order_id (deref os p) = p"
    and "order_ok (deref os p)" and "(side (deref os p) = BUY) = buy"
proof -
  obtain ord where ord: "map_of os p = Some ord" "\<not> is_cancelled ord" "(side ord = BUY) = buy"
    using assms by (auto simp: in_live_ids orders_inv_def)
  then have d: "deref os p = ord" by (simp add: deref_def)
  show "map_of os p = Some (deref os p)" "(side (deref os p) = BUY) = buy"
    using ord d by simp_all
  show "order_id (deref os p) = p" "order_ok (deref os p)"
    using orders_inv_lookup [OF assms(1) ord(1)] ord(2) d by auto
qed

lemma deref_update: "deref (AList.update p ord os) q = (if q = p then ord else deref os q)"
  by (simp add: deref_def)

lemma live_ids_update:
  assumes "distinct (map fst os)"
  shows "live_ids (AList.update p ord os) buy =
    (if \<not> is_cancelled ord \<and> (side ord = BUY) = buy then insert p (live_ids os buy)
     else live_ids os buy - {p})"
proof -
  have "q \<in> live_ids (AList.update p ord os) buy \<longleftrightarrow>
      (if q = p then \<not> is_cancelled ord \<and> (side ord = BUY) = buy else q \<in> live_ids os buy)" for q
    using assms by (auto simp: in_live_ids)
  then show ?thesis by (simp add: set_eq_iff)
qed

lemma queued_simps [simp]:
  "queued [] = []"
  "queued ((k, l) # lv) = level_orders l @ queued lv"
  "queued (lv @ lv') = queued lv @ queued lv'"
  by (simp_all add: queued_def)

lemma level_inv_cong:
  assumes "\<And>p. p \<in> set (level_orders l) \<Longrightarrow>
      remaining (deref os' p) = remaining (deref os p) \<and> price (deref os' p) = price (deref os p)"
  shows "level_inv os' k l = level_inv os k l"
proof -
  have "(\<Sum>p\<leftarrow>level_orders l. remaining (deref os' p)) = (\<Sum>p\<leftarrow>level_orders l. remaining (deref os p))"
    by (rule sum_list_map_cong) (use assms in blast)
  with assms show ?thesis by (auto simp: level_inv_def)
qed

lemma in_queued: "p \<in> set (queued lv) \<longleftrightarrow> (\<exists>(k, l) \<in> set lv. p \<in> set (level_orders l))"
  by (auto simp: queued_def)

lemma queuedE:
  assumes "p \<in> set (queued lv)"
  obtains k l where "(k, l) \<in> set lv" and "p \<in> set (level_orders l)"
  using assms by (auto simp: in_queued)

lemma queuedI: "(k, l) \<in> set lv \<Longrightarrow> p \<in> set (level_orders l) \<Longrightarrow> p \<in> set (queued lv)"
  by (auto simp: in_queued)

text \<open>A change of the orders map that leaves one side's live orders alone keeps that side.\<close>

lemma side_inv_frame:
  assumes "side_inv lt buy os lv" and "live_ids os' buy = live_ids os buy"
    and "\<And>p. p \<in> live_ids os buy \<Longrightarrow> deref os' p = deref os p"
  shows "side_inv lt buy os' lv"
proof -
  have "level_inv os' k l" if "(k, l) \<in> set lv" for k l
  proof -
    have "deref os' p = deref os p" if "p \<in> set (level_orders l)" for p
      using that \<open>(k, l) \<in> set lv\<close> assms(1,3) in_queued [of p lv] by (auto simp: side_inv_def)
    then show ?thesis
      using assms(1) that level_inv_cong [of l os' os k] by (auto simp: side_inv_def)
  qed
  with assms show ?thesis by (auto simp: side_inv_def)
qed

section \<open>Adding an order\<close>

lemma level_inv_enqueue:
  assumes "level_inv os (price ord) l" and "order_id ord \<notin> set (level_orders l)"
  shows "level_inv (AList.update (order_id ord) ord os) (price ord) (enqueue ord l)"
proof -
  let ?os = "AList.update (order_id ord) ord os"
  have "(\<Sum>p\<leftarrow>level_orders l. remaining (deref ?os p)) = (\<Sum>p\<leftarrow>level_orders l. remaining (deref os p))"
    by (rule sum_list_map_cong) (use assms(2) in \<open>auto simp: deref_update\<close>)
  with assms show ?thesis
    by (auto simp: level_inv_def enqueue_def deref_update wrap_simps)
qed

lemma level_inv_first:
  "level_inv (AList.update (order_id ord) ord os) (price ord) (enqueue ord default_level)"
  by (simp add: level_inv_def enqueue_def default_level_def deref_update)


section \<open>One side of the book\<close>

text \<open>
  Bids and asks run the same code over containers that differ in their comparator. The locale
  proves the effect of that code on a side once; both sides interpret it.
\<close>

locale book_side = strict_compare lt
  for lt :: "double \<Rightarrow> double \<Rightarrow> bool" +
  fixes buy :: bool
begin

lemma insert_shape:
  assumes "side_inv lt buy os lv" and "order_id ord \<notin> set (queued lv)"
  obtains as bs l' old where "queued lv = queued as @ old @ queued bs"
    and "om_upsert lt (price ord) default_level (enqueue ord) lv = as @ (price ord, l') # bs"
    and "level_orders l' = old @ [order_id ord]"
    and "level_inv (AList.update (order_id ord) ord os) (price ord) l'"
    and "set as \<union> set bs \<subseteq> set lv"
proof (cases "price ord \<in> fst ` set lv")
  case True
  then obtain l as bs where lv: "lv = as @ (price ord, l) # bs"
    by (metis imageE prod.collapse split_list)
  have "level_inv os (price ord) l" "order_id ord \<notin> set (level_orders l)"
    using assms lv by (auto simp: side_inv_def)
  note l = level_inv_enqueue [OF this]
  have srt: "om_sorted lt (as @ (price ord, l) # bs)"
    using assms(1) lv by (simp add: side_inv_def)
  show ?thesis
    by (rule that [of as "level_orders l" bs "enqueue ord l"])
       (use lv l split_present(2) [OF srt, of default_level "enqueue ord"] in \<open>auto simp: enqueue_def\<close>)
next
  case False
  have "om_sorted lt lv" using assms(1) by (simp add: side_inv_def)
  from split_absent [OF this False, of default_level "enqueue ord"]
  obtain as bs where s: "lv = as @ bs"
      "om_upsert lt (price ord) default_level (enqueue ord) lv
        = as @ (price ord, enqueue ord default_level) # bs"
    by blast
  show ?thesis
    by (rule that [of as "[]" bs "enqueue ord default_level"])
       (use s level_inv_first in \<open>auto simp: enqueue_def default_level_def\<close>)
qed

lemma insert_order:
  assumes side: "side_inv lt buy os lv" and os: "orders_inv os"
    and fresh: "map_of os (order_id ord) = None"
    and ok: "order_ok ord" and here: "(side ord = BUY) = buy"
  shows "side_inv lt buy (AList.update (order_id ord) ord os)
           (om_upsert lt (price ord) default_level (enqueue ord) lv)"
proof -
  let ?os = "AList.update (order_id ord) ord os"
  have d: "distinct (map fst os)" using os by (simp add: orders_inv_def)
  have notin: "order_id ord \<notin> set (queued lv)"
    using side fresh d by (auto simp: side_inv_def in_live_ids)
  obtain as bs l' old where sh: "queued lv = queued as @ old @ queued bs"
    "om_upsert lt (price ord) default_level (enqueue ord) lv = as @ (price ord, l') # bs"
    "level_orders l' = old @ [order_id ord]" "level_inv ?os (price ord) l'"
    "set as \<union> set bs \<subseteq> set lv"
    using insert_shape [OF side notin] by metis
  have rest: "level_inv ?os k l" if "(k, l) \<in> set as \<union> set bs" for k l
  proof -
    have "(k, l) \<in> set lv" using that sh(5) by auto
    then have "level_inv os k l" "order_id ord \<notin> set (level_orders l)"
      using side notin [unfolded in_queued] by (auto simp: side_inv_def)
    moreover from this(2) have "level_inv ?os k l = level_inv os k l"
      by (intro level_inv_cong) (auto simp: deref_update)
    ultimately show ?thesis by simp
  qed
  have "live_ids ?os buy = insert (order_id ord) (live_ids os buy)"
    using ok here by (simp add: live_ids_update [OF d] order_ok_def)
  then have ids: "set (queued (as @ (price ord, l') # bs)) = live_ids ?os buy"
    using side sh(1,3) by (auto simp: side_inv_def)
  have "om_sorted lt (as @ (price ord, l') # bs)"
    using sorted_upsert side sh(2) by (metis side_inv_def)
  moreover have "distinct (queued (as @ (price ord, l') # bs))"
    using side notin sh(1,3) by (auto simp: side_inv_def)
  ultimately show ?thesis
    using ids rest sh(4) by (auto simp: side_inv_def sh(2))
qed

text \<open>An order placed on the other side leaves this one alone.\<close>

lemma insert_other:
  assumes side: "side_inv lt buy os lv" and os: "orders_inv os"
    and fresh: "map_of os (order_id ord) = None" and there: "(side ord = BUY) \<noteq> buy"
  shows "side_inv lt buy (AList.update (order_id ord) ord os) lv"
proof (rule side_inv_frame [OF side])
  have d: "distinct (map fst os)" using os by (simp add: orders_inv_def)
  then have "order_id ord \<notin> live_ids os buy" using fresh by (simp add: in_live_ids)
  with d there show "live_ids (AList.update (order_id ord) ord os) buy = live_ids os buy"
    and "\<And>p. p \<in> live_ids os buy \<Longrightarrow> deref (AList.update (order_id ord) ord os) p = deref os p"
    by (auto simp: live_ids_update deref_update)
qed

lemma find_self:
  assumes "\<And>q. q \<in> set ps \<Longrightarrow> order_id (deref os q) = q"
  shows "find (\<lambda>q. order_id (deref os q) = p) ps = (if p \<in> set ps then Some p else None)"
  using assms by (induction ps) auto

lemma locate:
  assumes side: "side_inv lt buy os lv" and p: "p \<in> live_ids os buy"
  obtains as l bs where "lv = as @ (price (deref os p), l) # bs" and "p \<in> set (level_orders l)"
    and "level_inv os (price (deref os p)) l"
proof -
  have "p \<in> set (queued lv)" using side p by (simp add: side_inv_def)
  then obtain k l where kl: "(k, l) \<in> set lv" "p \<in> set (level_orders l)"
    by (rule queuedE)
  then have "level_inv os k l" using side by (auto simp: side_inv_def)
  with kl(2) have "k = price (deref os p)" by (simp add: level_inv_def)
  with kl \<open>level_inv os k l\<close> that show ?thesis by (metis split_list)
qed

text \<open>Taking a live order out of its level, after its flag has been set.\<close>

lemma remove_order:
  assumes side: "side_inv lt buy os lv" and os: "orders_inv os" and p: "p \<in> live_ids os buy"
  defines "ord \<equiv> deref os p"
  defines "os' \<equiv> AList.update p (ord\<lparr>is_cancelled := True\<rparr>) os"
  shows "side_inv lt buy os' (remove_from_side lt os' p (price ord) lv)"
    and "queued (remove_from_side lt os' p (price ord) lv) = remove1 p (queued lv)"
proof -
  have d: "distinct (map fst os)" using os by (simp add: orders_inv_def)
  obtain as l bs where lv: "lv = as @ (price ord, l) # bs"
    and pl: "p \<in> set (level_orders l)" and li: "level_inv os (price ord) l"
    using locate [OF side p] ord_def by metis
  have dq: "distinct (queued lv)" and qs: "set (queued lv) = live_ids os buy"
    and srt: "om_sorted lt (as @ (price ord, l) # bs)"
    using side lv by (auto simp: side_inv_def)
  have same: "remaining (deref os' q) = remaining (deref os q) \<and> price (deref os' q) = price (deref os q)
      \<and> order_id (deref os' q) = order_id (deref os q)" for q
    by (simp add: os'_def deref_update ord_def)
  have ids: "order_id (deref os' q) = q" if "q \<in> set (level_orders l)" for q
    using that lv qs live_deref(2) [OF os, of q buy] same by auto
  let ?l = "l\<lparr>total_quantity := wrap64 (total_quantity l - remaining (deref os' p)),
              level_orders := remove1 p (level_orders l)\<rparr>"
  have rd: "remove_from_deque os' p l = ?l"
    using find_self [of "level_orders l" os' p] ids pl by (simp add: remove_from_deque_def)
  have new: "remove_from_side lt os' p (price ord) lv =
      (if remove1 p (level_orders l) = [] then as @ bs else as @ (price ord, ?l) # bs)"
    unfolding remove_from_side_def lv
    by (simp add: split_present [OF srt] rd Let_def)
  have p_as: "p \<notin> set (queued as)" using dq lv pl by auto
  then show q: "queued (remove_from_side lt os' p (price ord) lv) = remove1 p (queued lv)"
    using pl unfolding new by (auto simp: lv remove1_append)
  have "level_inv os' (price ord) ?l" if "remove1 p (level_orders l) \<noteq> []"
    using li that pl set_remove1_subset [of p "level_orders l"]
      sum_list_remove1 [OF pl, of "\<lambda>q. remaining (deref os q)"]
    by (auto simp: level_inv_def same wrap_simps)
  moreover have "level_inv os' k m" if "(k, m) \<in> set as \<union> set bs" for k m
  proof -
    have "level_inv os' k m = level_inv os k m" by (rule level_inv_cong) (simp add: same)
    then show ?thesis using that side lv by (auto simp: side_inv_def)
  qed
  ultimately have levels: "\<forall>(k, m) \<in> set (remove_from_side lt os' p (price ord) lv). level_inv os' k m"
    by (auto simp: new)
  have "live_ids os' buy = live_ids os buy - {p}"
    by (simp add: os'_def live_ids_update [OF d])
  then have "set (queued (remove_from_side lt os' p (price ord) lv)) = live_ids os' buy"
    using dq qs q by simp
  moreover have "om_sorted lt (remove_from_side lt os' p (price ord) lv)"
    using srt by (auto simp: new sorted_wrt_append)
  ultimately show "side_inv lt buy os' (remove_from_side lt os' p (price ord) lv)"
    using levels q dq by (simp add: side_inv_def)
qed

lemma remove_other:
  assumes side: "side_inv lt buy os lv" and os: "orders_inv os" and p: "p \<in> live_ids os (\<not> buy)"
  shows "side_inv lt buy (AList.update p ((deref os p)\<lparr>is_cancelled := True\<rparr>) os) lv"
proof (rule side_inv_frame [OF side])
  have d: "distinct (map fst os)" using os by (simp add: orders_inv_def)
  have "p \<notin> live_ids os buy"
    using p live_deref(4) [OF os] by blast
  with d show "live_ids (AList.update p ((deref os p)\<lparr>is_cancelled := True\<rparr>) os) buy = live_ids os buy"
    and "\<And>q. q \<in> live_ids os buy \<Longrightarrow>
        deref (AList.update p ((deref os p)\<lparr>is_cancelled := True\<rparr>) os) q = deref os q"
    by (auto simp: live_ids_update deref_update)
qed

end

interpretation bid_side: book_side "(>)" True
  by unfold_locales

interpretation ask_side: book_side "(<)" False
  by unfold_locales

section \<open>The operations keep the invariant\<close>

named_theorems book_fields \<open>what an operation does to each field of the book\<close>

lemma place_order_fields [book_fields]:
  "orders (place_order b ord) = AList.update (order_id ord) ord (orders b)"
  "bids (place_order b ord) =
     (if side ord = BUY then om_upsert (>) (price ord) default_level (enqueue ord) (bids b) else bids b)"
  "asks (place_order b ord) =
     (if side ord = BUY then asks b else om_upsert (<) (price ord) default_level (enqueue ord) (asks b))"
  by (simp_all add: place_order_def Let_def)

lemma remove_order_from_level_fields [book_fields]:
  "orders (remove_order_from_level b oid sd pr) = orders b"
  "bids (remove_order_from_level b oid sd pr) =
     (if sd = BUY then remove_from_side (>) (orders b) oid pr (bids b) else bids b)"
  "asks (remove_order_from_level b oid sd pr) =
     (if sd = BUY then asks b else remove_from_side (<) (orders b) oid pr (asks b))"
  by (simp_all add: remove_order_from_level_def)

lemma book_invD:
  assumes "book_inv b"
  shows "orders_inv (orders b)" and "side_inv (>) True (orders b) (bids b)"
    and "side_inv (<) False (orders b) (asks b)" and "distinct (map fst (orders b))"
  using assms by (simp_all add: book_inv_def orders_inv_def)

lemma book_inv_empty: "book_inv empty_book"
  by (simp add: book_inv_def empty_book_def orders_inv_def side_inv_def live_ids_def)

lemma place_order_inv:
  assumes "book_inv b" and "\<not> has_order b (order_id ord)" and "order_ok ord"
  shows "book_inv (place_order b ord)"
proof -
  note I = book_invD [OF assms(1)]
  have fresh: "map_of (orders b) (order_id ord) = None"
    using assms(2) by (simp add: has_order_def)
  have "orders_inv (orders (place_order b ord))"
    by (simp add: book_fields orders_inv_update [OF I(1)] assms(3))
  moreover have "side_inv (>) True (orders (place_order b ord)) (bids (place_order b ord))"
    using bid_side.insert_order [OF I(2,1) fresh assms(3)] bid_side.insert_other [OF I(2,1) fresh]
    by (simp add: book_fields)
  moreover have "side_inv (<) False (orders (place_order b ord)) (asks (place_order b ord))"
    using ask_side.insert_order [OF I(3,1) fresh assms(3)] ask_side.insert_other [OF I(3,1) fresh]
    by (simp add: book_fields)
  ultimately show ?thesis by (simp add: book_inv_def)
qed

lemma apply_replicated_cancel_live:
  assumes "map_of (orders b) oid = Some ord" and "\<not> is_cancelled ord"
  defines "os' \<equiv> AList.update oid (ord\<lparr>is_cancelled := True\<rparr>) (orders b)"
  shows "orders (apply_replicated_cancel b oid) = os'"
    and "bids (apply_replicated_cancel b oid) =
      (if side ord = BUY then remove_from_side (>) os' oid (price ord) (bids b) else bids b)"
    and "asks (apply_replicated_cancel b oid) =
      (if side ord = BUY then asks b else remove_from_side (<) os' oid (price ord) (asks b))"
  using assms by (simp_all add: apply_replicated_cancel_def Let_def book_fields)

lemma apply_replicated_cancel_none:
  assumes "\<And>ord. map_of (orders b) oid = Some ord \<Longrightarrow> is_cancelled ord"
  shows "apply_replicated_cancel b oid = b"
  using assms by (simp add: apply_replicated_cancel_def split: option.splits)

lemma apply_replicated_cancel_inv:
  assumes "book_inv b" shows "book_inv (apply_replicated_cancel b oid)"
proof (cases "\<exists>ord. map_of (orders b) oid = Some ord \<and> \<not> is_cancelled ord")
  case True
  then obtain ord where ord: "map_of (orders b) oid = Some ord" "\<not> is_cancelled ord" by blast
  note I = book_invD [OF assms]
  have d: "deref (orders b) oid = ord" using ord(1) by (simp add: deref_def)
  have live: "oid \<in> live_ids (orders b) (side ord = BUY)"
    using ord I(4) by (simp add: in_live_ids)
  note F = apply_replicated_cancel_live [OF ord]
  have "order_id ord = oid" by (rule orders_inv_lookup [OF I(1) ord(1)])
  then have "orders_inv (orders (apply_replicated_cancel b oid))"
    by (simp add: F orders_inv_update [OF I(1)])
  moreover have "side_inv (>) True (orders (apply_replicated_cancel b oid)) (bids (apply_replicated_cancel b oid))"
    using bid_side.remove_order(1) [OF I(2,1), of oid] bid_side.remove_other [OF I(2,1), of oid] live
    by (auto simp: F d)
  moreover have "side_inv (<) False (orders (apply_replicated_cancel b oid)) (asks (apply_replicated_cancel b oid))"
    using ask_side.remove_order(1) [OF I(3,1), of oid] ask_side.remove_other [OF I(3,1), of oid] live
    by (auto simp: F d)
  ultimately show ?thesis by (simp add: book_inv_def)
next
  case False
  then show ?thesis using assms apply_replicated_cancel_none by metis
qed

lemma cancel_order_eq:
  "cancel_order b oid =
     (apply_replicated_cancel b oid, \<exists>ord. map_of (orders b) oid = Some ord \<and> \<not> is_cancelled ord)"
  by (simp add: cancel_order_def apply_replicated_cancel_def split: option.splits)

lemma insert_replicated_order_inv:
  assumes "book_inv b" and "order_ok ord" shows "book_inv (insert_replicated_order b ord)"
  using assms place_order_inv [of b ord] by (simp add: insert_replicated_order_def has_order_def)

text \<open>What the two replicated operations do to a lookup in the orders map.\<close>

lemma lookup_insert_replicated:
  "map_of (orders (insert_replicated_order b ord)) =
     (if has_order b (order_id ord) then map_of (orders b)
      else (map_of (orders b))(order_id ord \<mapsto> ord))"
  by (simp add: insert_replicated_order_def has_order_def book_fields)

lemma lookup_apply_cancel:
  "map_of (orders (apply_replicated_cancel b oid)) p =
     (if p = oid then map_option (\<lambda>ord. ord\<lparr>is_cancelled := True\<rparr>) (map_of (orders b) p)
      else map_of (orders b) p)"
  by (auto simp: apply_replicated_cancel_def Let_def book_fields split: option.splits)

end
