(* ===== verification/OrderBook_Match.thy ===== *)
theory OrderBook_Match
  imports OrderBook_Inv
begin

text \<open>
  Market orders against an abstract matching engine. The resting side of the book is read as one
  queue, best price first and first come first served within a price; the specification
  \<open>consume\<close> eats a quantity off the front of such a queue. The two nested loops of
  \<^verbatim>\<open>match_market_order\<close> are shown to do exactly that, and to keep the book's invariant.
\<close>

section \<open>The specification: eating off the front of a queue\<close>

type_synonym resting_order = "string \<times> double \<times> int"

fun consume :: "int \<Rightarrow> resting_order list \<Rightarrow> fill list \<times> resting_order list" where
  "consume rem [] = ([], [])"
| "consume rem ((i, p, q) # xs) =
     (if \<not> rem > 0 then ([], (i, p, q) # xs)
      else if rem < q then ([\<lparr>fill_order_id = i, fill_price = p, fill_quantity = rem\<rparr>], (i, p, q - rem) # xs)
      else let (fs, ys) = consume (rem - q) xs
           in (\<lparr>fill_order_id = i, fill_price = p, fill_quantity = q\<rparr> # fs, ys))"

definition resting :: "(string \<times> order) list \<Rightarrow> string list \<Rightarrow> resting_order list" where
  "resting os ps = map (\<lambda>p. (p, price (deref os p), remaining (deref os p))) ps"

definition resting_bids :: "order_book \<Rightarrow> resting_order list" where
  "resting_bids b = resting (orders b) (queued (bids b))"

definition resting_asks :: "order_book \<Rightarrow> resting_order list" where
  "resting_asks b = resting (orders b) (queued (asks b))"

definition volume :: "resting_order list \<Rightarrow> int" where
  "volume xs = (\<Sum>(i, p, q)\<leftarrow>xs. q)"

definition filled :: "fill list \<Rightarrow> int" where
  "filled fs = (\<Sum>f\<leftarrow>fs. fill_quantity f)"

definition all_positive :: "resting_order list \<Rightarrow> bool" where
  "all_positive xs \<longleftrightarrow> (\<forall>(i, p, q) \<in> set xs. 0 < q)"

lemma volume_simps [simp]:
  "volume [] = 0" "volume ((i, p, q) # xs) = q + volume xs" "volume (xs @ ys) = volume xs + volume ys"
  by (simp_all add: volume_def)

lemma filled_simps [simp]:
  "filled [] = 0" "filled (f # fs) = fill_quantity f + filled fs"
  "filled (fs @ gs) = filled fs + filled gs"
  by (simp_all add: filled_def)

lemma all_positive_simps [simp]:
  "all_positive []" "all_positive ((i, p, q) # xs) \<longleftrightarrow> 0 < q \<and> all_positive xs"
  "all_positive (xs @ ys) \<longleftrightarrow> all_positive xs \<and> all_positive ys"
  by (simp_all add: all_positive_def ball_Un)

lemma resting_simps [simp]:
  "resting os [] = []"
  "resting os (p # ps) = (p, price (deref os p), remaining (deref os p)) # resting os ps"
  "resting os (ps @ qs) = resting os ps @ resting os qs"
  by (simp_all add: resting_def)

lemma resting_cong:
  "(\<And>p. p \<in> set ps \<Longrightarrow> deref os' p = deref os p) \<Longrightarrow> resting os' ps = resting os ps"
  by (simp add: resting_def)

lemma volume_resting: "volume (resting os ps) = (\<Sum>p\<leftarrow>ps. remaining (deref os p))"
  by (simp add: volume_def resting_def comp_def)

lemma volume_nonneg: "all_positive xs \<Longrightarrow> 0 \<le> volume xs"
  by (induction xs) auto

lemma consume_done [simp]: "\<not> rem > 0 \<Longrightarrow> consume rem xs = ([], xs)"
  by (cases xs) auto

lemma consume_volume:
  "consume rem xs = (fs, ys) \<Longrightarrow> filled fs + volume ys = volume xs"
  by (induction rem xs arbitrary: fs ys rule: consume.induct) (auto split: if_splits prod.splits)

lemma consume_filled:
  "all_positive xs \<Longrightarrow> 0 \<le> rem \<Longrightarrow> consume rem xs = (fs, ys) \<Longrightarrow>
   filled fs = min rem (volume xs)"
proof (induction rem xs arbitrary: fs ys rule: consume.induct)
  case (2 rem i p q xs)
  then show ?case using volume_nonneg [of xs]
    by (auto split: if_splits prod.splits)
qed simp

lemma consume_positive:
  "all_positive xs \<Longrightarrow> consume rem xs = (fs, ys) \<Longrightarrow>
   all_positive ys \<and> (\<forall>f \<in> set fs. 0 < fill_quantity f)"
  by (induction rem xs arbitrary: fs ys rule: consume.induct) (auto split: if_splits prod.splits)

text \<open>Eating off a queue in two goes.\<close>

lemma consume_append:
  assumes "all_positive xs" and "0 \<le> rem"
  shows "consume rem (xs @ zs) =
    (let (fs, ys) = consume rem xs
     in if ys = [] then let (gs, ws) = consume (rem - filled fs) zs in (fs @ gs, ws)
        else (fs, ys @ zs))"
  using assms
proof (induction rem xs rule: consume.induct)
  case (2 rem i p q xs)
  then show ?case by (auto simp: diff_diff_eq split: prod.splits)
qed simp

section \<open>One level\<close>

text \<open>
  What matching does to the map: a front part \<open>zs\<close> of the queue is filled and flagged, the
  rest stays live with a positive remainder, and no other order changes.
\<close>

definition drained :: "(string \<times> order) list \<Rightarrow> string list \<Rightarrow> (string \<times> order) list \<Rightarrow> string list \<Rightarrow> bool" where
  "drained os ps os' ps' \<longleftrightarrow>
     orders_inv os' \<and>
     (\<exists>zs. ps = zs @ ps' \<and>
       (\<forall>p. p \<notin> set ps \<longrightarrow> map_of os' p = map_of os p) \<and>
       (\<forall>p \<in> set zs. map_of os' p = Some ((deref os p)\<lparr>remaining := 0, is_cancelled := True\<rparr>)) \<and>
       (\<forall>p \<in> set ps'. \<exists>q > 0. map_of os' p = Some ((deref os p)\<lparr>remaining := q\<rparr>)))"

definition all_live :: "(string \<times> order) list \<Rightarrow> string list \<Rightarrow> bool" where
  "all_live os ps \<longleftrightarrow>
     distinct ps \<and> (\<forall>p \<in> set ps. map_of os p = Some (deref os p) \<and> order_ok (deref os p) \<and>
       order_id (deref os p) = p)"

lemma all_live_simps [simp]:
  "all_live os []"
  "all_live os (p # ps) \<longleftrightarrow>
     p \<notin> set ps \<and> map_of os p = Some (deref os p) \<and> order_ok (deref os p) \<and>
     order_id (deref os p) = p \<and> all_live os ps"
  by (auto simp: all_live_def)

lemma all_live_cong:
  assumes "\<And>p. p \<in> set ps \<Longrightarrow> map_of os' p = map_of os p"
  shows "all_live os' ps = all_live os ps"
  using assms by (auto simp: all_live_def deref_def)

lemma all_live_positive: "all_live os ps \<Longrightarrow> all_positive (resting os ps)"
  by (induction ps) (auto simp: order_ok_def)

lemma drained_refl:
  assumes "orders_inv os" and "all_live os ps" shows "drained os ps os ps"
proof -
  have "\<exists>q > 0. map_of os p = Some ((deref os p)\<lparr>remaining := q\<rparr>)" if "p \<in> set ps" for p
    using that assms(2)
    by (intro exI [of _ "remaining (deref os p)"]) (auto simp: all_live_def order_ok_def)
  with assms(1) show ?thesis by (auto simp: drained_def)
qed

lemma match_deque_stop [simp]: "\<not> rem > 0 \<Longrightarrow> match_deque os ps rem tot fs = (os, ps, rem, tot, fs)"
  by (cases ps) simp_all

lemma fits_small: "0 \<le> x \<Longrightarrow> x < 2 ^ 63 \<Longrightarrow> fits64 x"
  by (simp add: fits64_def)

text \<open>The two ways one iteration can go on a live front order.\<close>

lemma match_deque_partial:
  assumes "all_live os (p # ps)" and "0 < rem" and "rem < remaining (deref os p)"
  shows "match_deque os (p # ps) rem tot fs =
    (AList.update p ((deref os p)\<lparr>remaining := remaining (deref os p) - rem\<rparr>) os, p # ps, 0,
     wrap64 (tot - rem),
     fs @ [\<lparr>fill_order_id = p, fill_price = price (deref os p), fill_quantity = rem\<rparr>])"
proof -
  have "wrap64 (remaining (deref os p) - rem) = remaining (deref os p) - rem"
    using assms by (intro wrap64_id fits_small) (auto simp: order_ok_def)
  with assms show ?thesis by (simp add: order_ok_def Let_def)
qed

lemma match_deque_full:
  assumes "all_live os (p # ps)" and "remaining (deref os p) \<le> rem" and "rem < 2 ^ 63"
  shows "match_deque os (p # ps) rem tot fs =
    match_deque (AList.update p ((deref os p)\<lparr>remaining := 0, is_cancelled := True\<rparr>) os) ps
      (rem - remaining (deref os p)) (wrap64 (tot - remaining (deref os p)))
      (fs @ [\<lparr>fill_order_id = p, fill_price = price (deref os p),
              fill_quantity = remaining (deref os p)\<rparr>])"
proof -
  have "wrap64 (rem - remaining (deref os p)) = rem - remaining (deref os p)"
    using assms by (intro wrap64_id fits_small) (auto simp: order_ok_def)
  with assms show ?thesis by (simp add: order_ok_def Let_def)
qed

lemma match_deque_spec:
  assumes "orders_inv os" and "all_live os ps" and "0 \<le> rem" and "rem < 2 ^ 63" and "fits64 tot"
    and "match_deque os ps rem tot fs = (os', ps', rem', tot', fs')"
    and "consume rem (resting os ps) = (cf, rest)"
  shows "fs' = fs @ cf \<and> resting os' ps' = rest \<and> rem' = rem - filled cf \<and> 0 \<le> rem' \<and>
    tot' = wrap64 (tot - filled cf) \<and> drained os ps os' ps' \<and> (0 < rem' \<longrightarrow> ps' = [])"
  using assms
proof (induction ps arbitrary: os rem tot fs cf rest)
  case Nil
  then show ?case by (auto simp: drained_def wrap64_id)
next
  case (Cons p ps)
  let ?o = "deref os p"
  have ok: "order_ok ?o" "map_of os p = Some ?o" "order_id ?o = p" "p \<notin> set ps" "all_live os ps"
    using Cons.prems(2) by simp_all
  consider "\<not> rem > 0" | "0 < rem" "rem < remaining ?o" | "0 < rem" "remaining ?o \<le> rem" by linarith
  then show ?case
  proof cases
    case 1
    with Cons.prems drained_refl show ?thesis by (auto simp: wrap64_id)
  next
    case 2
    let ?n = "?o\<lparr>remaining := remaining ?o - rem\<rparr>"
    have os': "os' = AList.update p ?n os" "ps' = p # ps" "rem' = 0" "tot' = wrap64 (tot - rem)"
      "fs' = fs @ [\<lparr>fill_order_id = p, fill_price = price ?o, fill_quantity = rem\<rparr>]"
      using match_deque_partial [OF Cons.prems(2) 2] Cons.prems(6) by simp_all
    have "orders_inv os'"
      using ok 2 by (simp add: os'(1) orders_inv_update [OF Cons.prems(1)] order_ok_def)
    moreover have "\<exists>q > 0. map_of os' r = Some ((deref os r)\<lparr>remaining := q\<rparr>)" if "r \<in> set ps" for r
      using that ok(4,5) unfolding os'(1)
      by (intro exI [of _ "remaining (deref os r)"]) (auto simp: all_live_def order_ok_def)
    moreover have "\<exists>q > 0. map_of os' p = Some (?o\<lparr>remaining := q\<rparr>)"
      using 2 by (intro exI [of _ "remaining ?o - rem"]) (simp add: os'(1))
    ultimately have "drained os (p # ps) os' ps'"
      by (auto simp: drained_def os'(2)) (simp add: os'(1))
    moreover have "resting os' ps = resting os ps"
      by (rule resting_cong) (use ok(4) os'(1) in \<open>auto simp: deref_update\<close>)
    ultimately show ?thesis
      using Cons.prems(7) 2 os' by (auto simp: deref_update wrap_simps)
  next
    case 3
    let ?n = "?o\<lparr>remaining := 0, is_cancelled := True\<rparr>"
    let ?os = "AList.update p ?n os"
    obtain cf2 rest2 where c2: "consume (rem - remaining ?o) (resting os ps) = (cf2, rest2)"
      by fastforce
    have cf: "cf = \<lparr>fill_order_id = p, fill_price = price ?o, fill_quantity = remaining ?o\<rparr> # cf2"
      "rest = rest2"
      using Cons.prems(7) 3 c2 by simp_all
    have same: "resting ?os ps = resting os ps"
      by (rule resting_cong) (use ok(4) in \<open>auto simp: deref_update\<close>)
    have inv: "orders_inv ?os"
      using ok by (simp add: orders_inv_update [OF Cons.prems(1)])
    have "all_live ?os ps = all_live os ps"
      by (rule all_live_cong) (use ok(4) in auto)
    then have al: "all_live ?os ps" using ok(5) by simp
    have run: "match_deque ?os ps (rem - remaining ?o) (wrap64 (tot - remaining ?o))
        (fs @ [\<lparr>fill_order_id = p, fill_price = price ?o, fill_quantity = remaining ?o\<rparr>])
        = (os', ps', rem', tot', fs')"
      using match_deque_full [OF Cons.prems(2) 3(2) Cons.prems(4)] Cons.prems(6) by simp
    have bounds: "0 \<le> rem - remaining ?o" "rem - remaining ?o < 2 ^ 63"
      using 3 ok(1) Cons.prems(4) by (auto simp: order_ok_def)
    have IH: "fs' = fs @ cf \<and> resting os' ps' = rest \<and>
        rem' = rem - filled cf \<and> 0 \<le> rem' \<and>
        tot' = wrap64 (wrap64 (tot - remaining ?o) - filled cf2) \<and>
        drained ?os ps os' ps' \<and> (0 < rem' \<longrightarrow> ps' = [])"
      using Cons.IH [OF inv al bounds fits64_wrap64 run c2 [folded same]] cf by simp
    then obtain zs where zs: "ps = zs @ ps'" "orders_inv os'"
      "\<And>r. r \<notin> set ps \<Longrightarrow> map_of os' r = map_of ?os r"
      "\<And>r. r \<in> set zs \<Longrightarrow> map_of os' r = Some ((deref ?os r)\<lparr>remaining := 0, is_cancelled := True\<rparr>)"
      "\<And>r. r \<in> set ps' \<Longrightarrow> \<exists>q > 0. map_of os' r = Some ((deref ?os r)\<lparr>remaining := q\<rparr>)"
      unfolding drained_def by blast
    have dr: "deref ?os r = deref os r" if "r \<in> set ps" for r
      using that ok(4) by (auto simp: deref_update)
    have "drained os (p # ps) os' ps'"
      unfolding drained_def
    proof (intro conjI exI [of _ "p # zs"])
      show "\<forall>r \<in> set (p # zs). map_of os' r = Some ((deref os r)\<lparr>remaining := 0, is_cancelled := True\<rparr>)"
        using zs(1,3,4) dr ok(4) by auto
      show "\<forall>r \<in> set ps'. \<exists>q > 0. map_of os' r = Some ((deref os r)\<lparr>remaining := q\<rparr>)"
        using zs(1,5) dr by auto
    qed (use zs(1,2,3) in auto)
    with IH cf show ?thesis by (simp add: wrap_simps algebra_simps)
  qed
qed

lemma match_levels_stop [simp]: "\<not> rem > 0 \<Longrightarrow> match_levels os lv rem fs = (os, lv, fs)"
  by (cases lv) auto

section \<open>One side\<close>

lemma drained_set:
  assumes "drained os ps os' ps'" and "all_live os ps" and "distinct (map fst os)"
    and "set ps = live_ids os buy"
  shows "set ps' = live_ids os' buy" and "distinct ps'"
    and "\<And>p. p \<in> set ps' \<Longrightarrow> price (deref os' p) = price (deref os p)"
    and "\<And>p. p \<notin> set ps \<Longrightarrow> map_of os' p = map_of os p"
proof -
  obtain zs where zs: "ps = zs @ ps'" "orders_inv os'"
    "\<And>p. p \<notin> set ps \<Longrightarrow> map_of os' p = map_of os p"
    "\<And>p. p \<in> set zs \<Longrightarrow> map_of os' p = Some ((deref os p)\<lparr>remaining := 0, is_cancelled := True\<rparr>)"
    "\<And>p. p \<in> set ps' \<Longrightarrow> \<exists>q > 0. map_of os' p = Some ((deref os p)\<lparr>remaining := q\<rparr>)"
    using assms(1) unfolding drained_def by blast
  show "\<And>p. p \<notin> set ps \<Longrightarrow> map_of os' p = map_of os p" by (rule zs(3))
  show "distinct ps'" using assms(2) zs(1) by (simp add: all_live_def)
  show "\<And>p. p \<in> set ps' \<Longrightarrow> price (deref os' p) = price (deref os p)"
    using zs(5) by (fastforce simp: deref_def)
  have "p \<in> set ps' \<longleftrightarrow> p \<in> live_ids os' buy" for p
  proof -
    have live: "p \<in> live_ids os' buy \<longleftrightarrow>
        (\<exists>r. map_of os' p = Some r \<and> \<not> is_cancelled r \<and> (side r = BUY) = buy)"
      using zs(2) by (simp add: in_live_ids orders_inv_def)
    have old: "p \<in> set ps \<longleftrightarrow>
        (\<exists>r. map_of os p = Some r \<and> \<not> is_cancelled r \<and> (side r = BUY) = buy)"
      using assms(3,4) by (simp add: in_live_ids)
    consider "p \<in> set zs" | "p \<in> set ps'" | "p \<notin> set ps" using zs(1) by auto
    then show ?thesis
    proof cases
      case 1
      then have "p \<notin> set ps'" using assms(2) zs(1) by (auto simp: all_live_def)
      with zs(4) [OF 1] live show ?thesis by simp
    next
      case 2
      then have "p \<in> set ps" using zs(1) by simp
      with old have "\<not> is_cancelled (deref os p)" "(side (deref os p) = BUY) = buy"
        by (auto simp: deref_def)
      with zs(5) [OF 2] live 2 show ?thesis by auto
    next
      case 3
      with zs(1,3) live old show ?thesis by auto
    qed
  qed
  then show "set ps' = live_ids os' buy" by blast
qed

lemma drained_append:
  assumes "drained os ps os1 []" and "drained os1 qs os2 qs'" and "all_live os (ps @ qs)"
  shows "drained os (ps @ qs) os2 qs'"
proof -
  obtain zs where z: "qs = zs @ qs'" "orders_inv os2"
    "\<And>p. p \<notin> set qs \<Longrightarrow> map_of os2 p = map_of os1 p"
    "\<And>p. p \<in> set zs \<Longrightarrow> map_of os2 p = Some ((deref os1 p)\<lparr>remaining := 0, is_cancelled := True\<rparr>)"
    "\<And>p. p \<in> set qs' \<Longrightarrow> \<exists>q > 0. map_of os2 p = Some ((deref os1 p)\<lparr>remaining := q\<rparr>)"
    using assms(2) unfolding drained_def by blast
  have y: "\<And>p. p \<notin> set ps \<Longrightarrow> map_of os1 p = map_of os p"
    "\<And>p. p \<in> set ps \<Longrightarrow> map_of os1 p = Some ((deref os p)\<lparr>remaining := 0, is_cancelled := True\<rparr>)"
    using assms(1) unfolding drained_def by auto
  have disj: "set ps \<inter> set qs = {}" using assms(3) by (auto simp: all_live_def)
  have d: "deref os1 p = deref os p" if "p \<in> set qs" for p
  proof -
    have "p \<notin> set ps" using that disj by blast
    then show ?thesis using y(1) by (simp add: deref_def)
  qed
  have yz: "map_of os2 p = Some ((deref os p)\<lparr>remaining := 0, is_cancelled := True\<rparr>)"
    if "p \<in> set ps" for p
  proof -
    have "p \<notin> set qs" using that disj by blast
    with z(3) y(2) [OF that] show ?thesis by simp
  qed
  show ?thesis
    unfolding drained_def
  proof (intro conjI exI [of _ "ps @ zs"])
    show "\<forall>p \<in> set (ps @ zs). map_of os2 p = Some ((deref os p)\<lparr>remaining := 0, is_cancelled := True\<rparr>)"
      using yz z(1,4) d by auto
    show "\<forall>p \<in> set qs'. \<exists>q > 0. map_of os2 p = Some ((deref os p)\<lparr>remaining := q\<rparr>)"
      using z(1,5) d by auto
  qed (use y(1) z(1,2,3) in auto)
qed

lemma drained_prefix_only:
  assumes "drained os ps os1 ps'" and "all_live os (ps @ qs)"
  shows "drained os (ps @ qs) os1 (ps' @ qs)"
proof -
  obtain zs where z: "ps = zs @ ps'" "orders_inv os1"
    "\<And>p. p \<notin> set ps \<Longrightarrow> map_of os1 p = map_of os p"
    "\<And>p. p \<in> set zs \<Longrightarrow> map_of os1 p = Some ((deref os p)\<lparr>remaining := 0, is_cancelled := True\<rparr>)"
    "\<And>p. p \<in> set ps' \<Longrightarrow> \<exists>q > 0. map_of os1 p = Some ((deref os p)\<lparr>remaining := q\<rparr>)"
    using assms(1) unfolding drained_def by blast
  have "\<exists>q > 0. map_of os1 p = Some ((deref os p)\<lparr>remaining := q\<rparr>)" if "p \<in> set qs" for p
    using that assms(2) z(3) [of p]
    by (intro exI [of _ "remaining (deref os p)"]) (auto simp: all_live_def order_ok_def)
  with z show ?thesis unfolding drained_def by (intro conjI exI [of _ zs]) auto
qed

definition levels_ok :: "(string \<times> order) list \<Rightarrow> (double \<times> price_level) list \<Rightarrow> bool" where
  "levels_ok os lv \<longleftrightarrow> (\<forall>(k, l) \<in> set lv. level_inv os k l)"

lemma levels_ok_simps [simp]:
  "levels_ok os []" "levels_ok os ((k, l) # lv) \<longleftrightarrow> level_inv os k l \<and> levels_ok os lv"
  by (auto simp: levels_ok_def)

lemma levels_ok_frame:
  assumes "levels_ok os lv" and "\<And>p. p \<in> set (queued lv) \<Longrightarrow> deref os' p = deref os p"
  shows "levels_ok os' lv"
proof -
  have "level_inv os' k l" if "(k, l) \<in> set lv" for k l
  proof -
    have "level_inv os' k l = level_inv os k l"
      by (rule level_inv_cong) (use assms(2) that in_queued in \<open>force simp: in_queued\<close>)
    with assms(1) that show ?thesis by (auto simp: levels_ok_def)
  qed
  then show ?thesis by (auto simp: levels_ok_def)
qed

lemma all_live_appendD: "all_live os (ps @ qs) \<Longrightarrow> all_live os ps \<and> all_live os qs"
  by (auto simp: all_live_def)

lemma drained_others: "drained os ps os' ps' \<Longrightarrow> p \<notin> set ps \<Longrightarrow> map_of os' p = map_of os p"
  by (auto simp: drained_def)

lemma drained_others_deref: "drained os ps os' ps' \<Longrightarrow> p \<notin> set ps \<Longrightarrow> deref os' p = deref os p"
  by (simp add: deref_def drained_others)

lemma drained_price:
  assumes "drained os ps os' ps'" and "p \<in> set ps'"
  shows "price (deref os' p) = price (deref os p)"
proof -
  obtain q where "map_of os' p = Some ((deref os p)\<lparr>remaining := q\<rparr>)"
    using assms unfolding drained_def by blast
  then show ?thesis by (simp add: deref_def [of os' p])
qed

lemma drained_side:
  assumes "drained os ps os' ps'" and "p \<in> set ps"
  obtains r where "map_of os' p = Some r" and "side r = side (deref os p)"
proof -
  obtain zs where "ps = zs @ ps'"
    "p \<in> set zs \<Longrightarrow> map_of os' p = Some ((deref os p)\<lparr>remaining := 0, is_cancelled := True\<rparr>)"
    "p \<in> set ps' \<Longrightarrow> \<exists>q > 0. map_of os' p = Some ((deref os p)\<lparr>remaining := q\<rparr>)"
    using assms(1) unfolding drained_def by blast
  with assms(2) that show ?thesis by force
qed

lemma drained_subset: "drained os ps os' ps' \<Longrightarrow> set ps' \<subseteq> set ps"
  by (auto simp: drained_def)

text \<open>The level that is left partly filled keeps its invariant with the new total.\<close>

lemma level_inv_partial:
  assumes "level_inv os k l" and "drained os (level_orders l) os1 ps" and "ps \<noteq> []"
    and "filled cf + volume (resting os1 ps) = volume (resting os (level_orders l))"
  shows "level_inv os1 k (l\<lparr>total_quantity := wrap64 (total_quantity l - filled cf), level_orders := ps\<rparr>)"
proof -
  have "(\<Sum>p\<leftarrow>level_orders l. remaining (deref os p)) - filled cf = (\<Sum>p\<leftarrow>ps. remaining (deref os1 p))"
    using assms(4) by (simp add: volume_resting)
  moreover have "\<forall>p \<in> set ps. price (deref os1 p) = k"
    using assms(1) drained_price [OF assms(2)] drained_subset [OF assms(2)] by (auto simp: level_inv_def)
  ultimately show ?thesis
    using assms(1,3) by (simp add: level_inv_def wrap_simps)
qed

text \<open>Facts after the inner loop has run on the first level of a side.\<close>

lemma first_level:
  assumes inv: "orders_inv os" and live: "all_live os (queued ((k, l) # lv))"
    and lvs: "levels_ok os ((k, l) # lv)" and rem: "0 \<le> rem" "rem < 2 ^ 63"
    and d: "match_deque os (level_orders l) rem (total_quantity l) fs = (os1, ps, rem1, tot, fs1)"
    and c: "consume rem (resting os (level_orders l)) = (cf1, rest1)"
  shows "fs1 = fs @ cf1" and "resting os1 ps = rest1" and "rem1 = rem - filled cf1"
    and "0 \<le> rem1" and "rem1 < 2 ^ 63" and "0 < rem1 \<Longrightarrow> ps = []"
    and "drained os (level_orders l) os1 ps" and "orders_inv os1" and "all_live os1 (queued lv)"
    and "levels_ok os1 lv" and "resting os1 (queued lv) = resting os (queued lv)"
    and "ps \<noteq> [] \<Longrightarrow> level_inv os1 k (l\<lparr>total_quantity := tot, level_orders := ps\<rparr>)"
proof -
  have live3: "all_live os (level_orders l @ queued lv)" using live by simp
  note lv = conjunct1 [OF all_live_appendD [OF live3]] conjunct2 [OF all_live_appendD [OF live3]]
  have lvl: "level_inv os k l" "levels_ok os lv" using lvs by auto
  then have ft: "fits64 (total_quantity l)" by (simp add: level_inv_def)
  note D = match_deque_spec [OF inv lv(1) rem ft d c]
  show "fs1 = fs @ cf1" "resting os1 ps = rest1" "rem1 = rem - filled cf1" "0 \<le> rem1"
    "0 < rem1 \<Longrightarrow> ps = []" and dr: "drained os (level_orders l) os1 ps" and "orders_inv os1"
    using D by (simp_all add: drained_def)
  have vol: "filled cf1 + volume (resting os1 ps) = volume (resting os (level_orders l))"
    using consume_volume [OF c] D by simp
  have "0 \<le> filled cf1"
    using consume_filled [OF all_live_positive [OF lv(1)] rem(1) c]
      volume_nonneg [OF all_live_positive [OF lv(1)]] rem(1) by simp
  then show "rem1 < 2 ^ 63" using D rem(2) by simp
  have disj: "p \<notin> set (level_orders l)" if "p \<in> set (queued lv)" for p
    using that live3 by (auto simp: all_live_def)
  have dr1: "deref os1 p = deref os p" "map_of os1 p = map_of os p" if "p \<in> set (queued lv)" for p
    using dr disj [OF that] drained_others_deref drained_others by blast+
  show "resting os1 (queued lv) = resting os (queued lv)"
    by (rule resting_cong) (rule dr1)
  show "levels_ok os1 lv" by (rule levels_ok_frame [OF lvl(2)]) (rule dr1)
  have "all_live os1 (queued lv) = all_live os (queued lv)" by (rule all_live_cong) (rule dr1)
  then show "all_live os1 (queued lv)" using lv(2) by simp
  show "level_inv os1 k (l\<lparr>total_quantity := tot, level_orders := ps\<rparr>)" if "ps \<noteq> []"
    using level_inv_partial [OF lvl(1) dr that vol] D by simp
qed

lemma match_levels_spec:
  assumes "orders_inv os" and "all_live os (queued lv)" and "levels_ok os lv"
    and "0 \<le> rem" and "rem < 2 ^ 63"
    and "match_levels os lv rem fs = (os', lv', fs')"
    and "consume rem (resting os (queued lv)) = (cf, rest)"
  shows "fs' = fs @ cf \<and> resting os' (queued lv') = rest \<and> drained os (queued lv) os' (queued lv') \<and>
    levels_ok os' lv' \<and> (\<exists>as. map fst lv = as @ map fst lv')"
  using assms
proof (induction lv arbitrary: os rem fs cf rest os' lv' fs')
  case Nil
  then show ?case by (auto simp: drained_def)
next
  case (Cons kl lv)
  obtain k l where kl: "kl = (k, l)" by (cases kl)
  show ?case
  proof (cases "rem > 0")
    case False
    with Cons.prems drained_refl kl show ?thesis by auto
  next
    case True
    obtain os1 ps rem1 tot fs1 where
      d: "match_deque os (level_orders l) rem (total_quantity l) fs = (os1, ps, rem1, tot, fs1)"
      by (metis prod_cases5)
    obtain cf1 rest1 where c1: "consume rem (resting os (level_orders l)) = (cf1, rest1)"
      by fastforce
    note F = first_level [OF Cons.prems(1) Cons.prems(2,3) [unfolded kl] Cons.prems(4,5) d c1]
    have live: "all_live os (level_orders l @ queued lv)" using Cons.prems(2) kl by simp
    have "all_positive (resting os (level_orders l))"
      using all_live_positive all_live_appendD [OF live] by blast
    from consume_append [OF this Cons.prems(4)]
    have app: "(cf, rest) = (if rest1 = [] then
        let (gs, ws) = consume (rem - filled cf1) (resting os (queued lv)) in (cf1 @ gs, ws)
        else (cf1, rest1 @ resting os (queued lv)))"
      using Cons.prems(7) c1 kl by simp
    show ?thesis
    proof (cases "ps = []")
      case False
      with F(4,6) have r1: "rem1 = 0" by (cases "0 < rem1") auto
      have "os' = os1" "lv' = (k, l\<lparr>total_quantity := tot, level_orders := ps\<rparr>) # lv" "fs' = fs1"
        using Cons.prems(6) True d False by (simp_all add: kl r1 Let_def)
      moreover have "drained os (queued (kl # lv)) os1 (ps @ queued lv)"
        using drained_prefix_only [OF F(7) live] kl by simp
      moreover have "rest1 \<noteq> []" using False F(2) by (auto simp: resting_def)
      then have "cf = cf1" "rest = resting os1 ps @ resting os1 (queued lv)"
        using app F(2,11) by simp_all
      ultimately show ?thesis using F(1,10) F(12) [OF False] kl by simp
    next
      case True2: True
      obtain os2 lv2 fs2 where m: "match_levels os1 lv rem1 fs1 = (os2, lv2, fs2)"
        by (metis prod_cases3)
      obtain cf2 rest2 where c2: "consume rem1 (resting os1 (queued lv)) = (cf2, rest2)" by fastforce
      have res: "os' = os2" "lv' = lv2" "fs' = fs2"
        using Cons.prems(6) True d m True2 kl by (simp_all add: Let_def)
      note IH = Cons.IH [OF F(8,9,10,4,5) m c2]
      have "rest1 = []" using True2 F(2) by (auto simp: resting_def)
      then have cf: "cf = cf1 @ cf2" "rest = rest2" using app c2 F(3,11) by auto
      have "drained os (level_orders l) os1 []" using F(7) True2 by simp
      then have "drained os (queued (kl # lv)) os2 (queued lv2)"
        using drained_append [OF _ _ live] IH kl by simp
      moreover obtain as where "map fst lv = as @ map fst lv2" using IH by blast
      then have "map fst (kl # lv) = (k # as) @ map fst lv2" using kl by simp
      then have "\<exists>as. map fst (kl # lv) = as @ map fst lv2" by blast
      ultimately show ?thesis using IH F(1) by (simp add: res cf)
    qed
  qed
qed

section \<open>The whole book\<close>

context book_side
begin

lemma side_all_live:
  assumes "orders_inv os" and "side_inv lt buy os lv" shows "all_live os (queued lv)"
  using assms(2) live_deref [OF assms(1), of _ buy] by (auto simp: side_inv_def all_live_def)

lemma match_side:
  assumes os: "orders_inv os" and side: "side_inv lt buy os lv" and rem: "fits64 rem"
    and m: "match_levels os lv rem [] = (os', lv', fs)"
  shows "orders_inv os'" and "side_inv lt buy os' lv'"
    and "(fs, resting os' (queued lv')) = consume rem (resting os (queued lv))"
    and "\<And>p. p \<notin> live_ids os buy \<Longrightarrow> map_of os' p = map_of os p"
    and "drained os (queued lv) os' (queued lv')"
    and "\<And>p. p \<in> live_ids os buy \<Longrightarrow> p \<notin> live_ids os' (\<not> buy)"
proof -
  have d: "distinct (map fst os)" using os by (simp add: orders_inv_def)
  have live: "all_live os (queued lv)" by (rule side_all_live [OF os side])
  have lvs: "levels_ok os lv" using side by (auto simp: side_inv_def levels_ok_def)
  obtain cf rest where c: "consume rem (resting os (queued lv)) = (cf, rest)" by fastforce
  have M: "fs = cf \<and> resting os' (queued lv') = rest \<and> drained os (queued lv) os' (queued lv') \<and>
    levels_ok os' lv' \<and> (\<exists>as. map fst lv = as @ map fst lv')"
  proof (cases "0 \<le> rem")
    case True
    then show ?thesis
      using match_levels_spec [OF os live lvs True _ m c] rem by (simp add: fits64_def)
  next
    case False
    then show ?thesis using m c drained_refl [OF os live] lvs by auto
  qed
  then show "(fs, resting os' (queued lv')) = consume rem (resting os (queued lv))"
    using c by simp
  show dr: "drained os (queued lv) os' (queued lv')" using M by simp
  then show os': "orders_inv os'" by (simp add: drained_def)
  have q: "set (queued lv) = live_ids os buy" using side by (simp add: side_inv_def)
  note S = drained_set [OF dr live d q]
  show "\<And>p. p \<notin> live_ids os buy \<Longrightarrow> map_of os' p = map_of os p" using S(4) q by simp
  show "p \<notin> live_ids os' (\<not> buy)" if "p \<in> live_ids os buy" for p
  proof -
    have "p \<in> set (queued lv)" using that q by simp
    then obtain r where "map_of os' p = Some r" "side r = side (deref os p)"
      using drained_side [OF dr] by metis
    moreover have "(side (deref os p) = BUY) = buy" using live_deref(4) [OF os that] .
    ultimately show ?thesis using os' by (auto simp: in_live_ids orders_inv_def)
  qed
  obtain as where "map fst lv = as @ map fst lv'" using M by blast
  then have "om_sorted lt lv'" using side by (simp add: side_inv_def sorted_wrt_append)
  with S M show "side_inv lt buy os' lv'" by (simp add: side_inv_def levels_ok_def)
qed

text \<open>Matching one side leaves the other side's live orders alone.\<close>

lemma match_other:
  assumes "orders_inv os" and "side_inv lt buy os lv" and "orders_inv os'"
    and old: "\<And>p. p \<notin> live_ids os (\<not> buy) \<Longrightarrow> map_of os' p = map_of os p"
    and fl: "\<And>p. p \<in> live_ids os (\<not> buy) \<Longrightarrow> p \<notin> live_ids os' buy"
  shows "side_inv lt buy os' lv" and "resting os' (queued lv) = resting os (queued lv)"
proof -
  have d: "distinct (map fst os)" "distinct (map fst os')"
    using assms(1,3) by (simp_all add: orders_inv_def)
  have notin: "p \<notin> live_ids os (\<not> buy)" if "p \<in> live_ids os buy" for p
    using that live_deref(4) [OF assms(1)] by blast
  have "p \<in> live_ids os' buy \<longleftrightarrow> p \<in> live_ids os buy" for p
    using old [of p] fl [of p] notin [of p] d by (cases "p \<in> live_ids os (\<not> buy)") (auto simp: in_live_ids)
  then have ids: "live_ids os' buy = live_ids os buy" by blast
  have dr: "deref os' p = deref os p" if "p \<in> live_ids os buy" for p
    using old notin [OF that] by (simp add: deref_def)
  show "side_inv lt buy os' lv" by (rule side_inv_frame [OF assms(2) ids dr])
  show "resting os' (queued lv) = resting os (queued lv)"
    by (rule resting_cong) (use dr assms(2) in \<open>simp add: side_inv_def\<close>)
qed

end

theorem match_buy:
  assumes "book_inv b" and "fits64 qty" and m: "match_market_order b BUY qty = (b', fs)"
  shows "book_inv b'" and "(fs, resting_asks b') = consume qty (resting_asks b)"
    and "resting_bids b' = resting_bids b" and "bids b' = bids b"
proof -
  note I = book_invD [OF assms(1)]
  obtain os' lv' where lv': "match_levels (orders b) (asks b) qty [] = (os', lv', fs)"
    and b': "b' = b\<lparr>orders := os', asks := lv'\<rparr>"
    using m by (auto simp: match_market_order_def split: prod.splits)
  note S = ask_side.match_side [OF I(1,3) assms(2) lv']
  have O: "side_inv (>) True os' (bids b)" "resting os' (queued (bids b)) = resting (orders b) (queued (bids b))"
    using bid_side.match_other [OF I(1,2) S(1)] S(4,6) by auto
  show "book_inv b'" using S(1,2) O(1) by (simp add: book_inv_def b')
  show "(fs, resting_asks b') = consume qty (resting_asks b)"
    using S(3) by (simp add: resting_asks_def b')
  show "resting_bids b' = resting_bids b" "bids b' = bids b"
    using O(2) by (simp_all add: resting_bids_def b')
qed

theorem match_sell:
  assumes "book_inv b" and "fits64 qty" and "sd \<noteq> BUY" and m: "match_market_order b sd qty = (b', fs)"
  shows "book_inv b'" and "(fs, resting_bids b') = consume qty (resting_bids b)"
    and "resting_asks b' = resting_asks b" and "asks b' = asks b"
proof -
  note I = book_invD [OF assms(1)]
  obtain os' lv' where lv': "match_levels (orders b) (bids b) qty [] = (os', lv', fs)"
    and b': "b' = b\<lparr>orders := os', bids := lv'\<rparr>"
    using m assms(3) by (auto simp: match_market_order_def split: prod.splits)
  note S = bid_side.match_side [OF I(1,2) assms(2) lv']
  have O: "side_inv (<) False os' (asks b)" "resting os' (queued (asks b)) = resting (orders b) (queued (asks b))"
    using ask_side.match_other [OF I(1,3) S(1)] S(4,6) by auto
  show "book_inv b'" using S(1,2) O(1) by (simp add: book_inv_def b')
  show "(fs, resting_bids b') = consume qty (resting_bids b)"
    using S(3) by (simp add: resting_bids_def b')
  show "resting_asks b' = resting_asks b" "asks b' = asks b"
    using O(2) by (simp_all add: resting_asks_def b')
qed

end
