(* ===== verification/OrderBook_Spec.thy ===== *)
theory OrderBook_Spec
  imports OrderBook_Match
begin

text \<open>
  What the order book promises, stated against an abstract book: each side is one queue of resting
  orders in price-time order, adding inserts behind the last order of the same or a better price,
  cancelling filters, a market order eats off the front, and the depth shown to a client is a
  function of the set of live orders alone.
\<close>

section \<open>The abstract book\<close>

definition a_insert :: "(double \<Rightarrow> double \<Rightarrow> bool) \<Rightarrow> resting_order \<Rightarrow> resting_order list \<Rightarrow> resting_order list" where
  "a_insert lt x xs =
     takeWhile (\<lambda>y. \<not> lt (fst (snd x)) (fst (snd y))) xs @ x #
     dropWhile (\<lambda>y. \<not> lt (fst (snd x)) (fst (snd y))) xs"

definition a_remove :: "string \<Rightarrow> resting_order list \<Rightarrow> resting_order list" where
  "a_remove i xs = filter (\<lambda>y. fst y \<noteq> i) xs"

definition resting_of :: "order \<Rightarrow> resting_order" where
  "resting_of ord = (order_id ord, price ord, remaining ord)"

definition opposite :: "order_book \<Rightarrow> side \<Rightarrow> resting_order list" where
  "opposite b sd = (if sd = BUY then resting_asks b else resting_bids b)"

definition own :: "order_book \<Rightarrow> side \<Rightarrow> resting_order list" where
  "own b sd = (if sd = BUY then resting_bids b else resting_asks b)"

text \<open>What is on offer at a price: the sum of what the live orders there have remaining.\<close>

definition liquidity :: "(string \<times> order) list \<Rightarrow> bool \<Rightarrow> double \<Rightarrow> int" where
  "liquidity os buy k = (\<Sum>p \<in> {p \<in> live_ids os buy. price (deref os p) = k}. remaining (deref os p))"

text \<open>The level at a price, read off the abstract queue.\<close>

definition level_at :: "double \<Rightarrow> resting_order list \<Rightarrow> price_level" where
  "level_at k xs =
     (let ys = filter (\<lambda>y. fst (snd y) = k) xs
      in \<lparr>level_price = k, total_quantity = wrap64 (volume ys), level_orders = map fst ys\<rparr>)"

text \<open>The price and total of each level: what the BOOK command prints.\<close>

definition side_depth :: "(double \<times> price_level) list \<Rightarrow> (double \<times> int) list" where
  "side_depth lv = map (\<lambda>(k, l). (level_price l, total_quantity l)) lv"

section \<open>Lemmas on one side\<close>

lemma takeWhile_split:
  "(\<And>y. y \<in> set xs \<Longrightarrow> P y) \<Longrightarrow> (\<And>y. y \<in> set ys \<Longrightarrow> \<not> P y) \<Longrightarrow>
   takeWhile P (xs @ ys) = xs \<and> dropWhile P (xs @ ys) = ys"
  by (cases ys) (auto simp: takeWhile_tail dropWhile_append)

lemma resting_in: "y \<in> set (resting os ps) \<longleftrightarrow> (\<exists>p \<in> set ps. y = (p, price (deref os p), remaining (deref os p)))"
  by (auto simp: resting_def)

lemma a_remove_resting: "a_remove i (resting os ps) = resting os (removeAll i ps)"
  by (induction ps) (auto simp: a_remove_def)

context book_side
begin

lemma insert_resting:
  assumes side: "side_inv lt buy os lv" and os: "orders_inv os"
    and fresh: "map_of os (order_id ord) = None"
    and ok: "order_ok ord" and here: "(side ord = BUY) = buy"
  shows "resting (AList.update (order_id ord) ord os)
           (queued (om_upsert lt (price ord) default_level (enqueue ord) lv)) =
         a_insert lt (resting_of ord) (resting os (queued lv))"
proof -
  let ?os = "AList.update (order_id ord) ord os"
  let ?new = "om_upsert lt (price ord) default_level (enqueue ord) lv"
  have d: "distinct (map fst os)" using os by (simp add: orders_inv_def)
  have notin: "order_id ord \<notin> set (queued lv)"
    using side fresh d by (auto simp: side_inv_def in_live_ids)
  obtain as bs l' old where sh: "queued lv = queued as @ old @ queued bs"
    "?new = as @ (price ord, l') # bs" "level_orders l' = old @ [order_id ord]"
    "level_inv ?os (price ord) l'" "set as \<union> set bs \<subseteq> set lv"
    using insert_shape [OF side notin] by metis
  have srt: "om_sorted lt (as @ (price ord, l') # bs)"
    using insert_order [OF side os fresh ok here] sh(2) by (simp add: side_inv_def)
  have same: "deref ?os p = deref os p" if "p \<in> set (queued lv)" for p
    using that notin by (auto simp: deref_update)
  have at: "price (deref os p) = k" if "(k, l) \<in> set lv" "p \<in> set (level_orders l)" for k l p
    using that side by (auto simp: side_inv_def level_inv_def)
  have before: "\<not> lt (price ord) (price (deref os p))" if "p \<in> set (queued as @ old)" for p
  proof (cases "p \<in> set old")
    case True
    then have "price (deref ?os p) = price ord" using sh(3,4) by (auto simp: level_inv_def)
    moreover have "p \<in> set (queued lv)" using sh(1) True by auto
    ultimately show ?thesis using same irrefl by simp
  next
    case False
    with that have "p \<in> set (queued as)" by simp
    then obtain k l where "(k, l) \<in> set as" "p \<in> set (level_orders l)"
      by (rule queuedE)
    then have "lt k (price ord)" "price (deref os p) = k" using srt at sh(5) by (auto simp: sorted_wrt_append)
    then show ?thesis using asym by blast
  qed
  have after: "lt (price ord) (price (deref os p))" if "p \<in> set (queued bs)" for p
  proof -
    from that obtain k l where kl: "(k, l) \<in> set bs" "p \<in> set (level_orders l)"
      by (rule queuedE)
    then have "lt (price ord) k" using srt by (auto simp: sorted_wrt_append)
    moreover have "price (deref os p) = k" using at [of k l p] kl sh(5) by auto
    ultimately show ?thesis by simp
  qed
  let ?P = "\<lambda>y. \<not> lt (price ord) (fst (snd y))"
  have "takeWhile ?P (resting os (queued as @ old) @ resting os (queued bs)) = resting os (queued as @ old) \<and>
      dropWhile ?P (resting os (queued as @ old) @ resting os (queued bs)) = resting os (queued bs)"
    by (rule takeWhile_split) (use before after in \<open>auto simp: resting_in\<close>)
  moreover have "resting ?os (queued as @ old) = resting os (queued as @ old)"
    by (rule resting_cong) (use same sh(1) in auto)
  moreover have "resting ?os (queued bs) = resting os (queued bs)"
    by (rule resting_cong) (use same sh(1) in auto)
  ultimately show ?thesis
    unfolding sh(2) a_insert_def resting_of_def using sh(1,3) by (simp add: deref_update)
qed

lemma level_ids:
  assumes side: "side_inv lt buy os lv" and kl: "(k, l) \<in> set lv"
  shows "set (level_orders l) = {p \<in> live_ids os buy. price (deref os p) = k}"
proof -
  have q: "set (queued lv) = live_ids os buy" and srt: "om_sorted lt lv"
    and lvl: "\<And>k l. (k, l) \<in> set lv \<Longrightarrow> level_inv os k l"
    using side by (auto simp: side_inv_def)
  have "p \<in> set (level_orders l)" if "p \<in> live_ids os buy" "price (deref os p) = k" for p
  proof -
    have "p \<in> set (queued lv)" using that(1) q by simp
    then obtain k' l' where k': "(k', l') \<in> set lv" "p \<in> set (level_orders l')"
      by (rule queuedE)
    with that(2) lvl have "k' = k" by (auto simp: level_inv_def)
    with k' kl srt show ?thesis using in_set_iff by force
  qed
  moreover have "p \<in> live_ids os buy" if "p \<in> set (level_orders l)" for p
    using queuedI [OF kl that] q by simp
  ultimately show ?thesis using lvl [OF kl] by (auto simp: level_inv_def)
qed

lemma level_total:
  assumes side: "side_inv lt buy os lv" and kl: "(k, l) \<in> set lv"
  shows "level_price l = k" and "total_quantity l = wrap64 (liquidity os buy k)"
proof -
  have li: "level_inv os k l" using side kl by (auto simp: side_inv_def)
  then show "level_price l = k" by (simp add: level_inv_def)
  obtain as bs where "lv = as @ (k, l) # bs" using split_list [OF kl] by blast
  then have "distinct (level_orders l)" using side by (auto simp: side_inv_def)
  then have "(\<Sum>p\<leftarrow>level_orders l. remaining (deref os p)) = liquidity os buy k"
    by (simp add: liquidity_def sum_list_distinct_conv_sum_set flip: level_ids [OF side kl])
  with li show "total_quantity l = wrap64 (liquidity os buy k)" by (simp add: level_inv_def)
qed

lemma level_keys:
  assumes side: "side_inv lt buy os lv"
  shows "fst ` set lv = (\<lambda>p. price (deref os p)) ` live_ids os buy"
proof -
  have q: "set (queued lv) = live_ids os buy" using side by (simp add: side_inv_def)
  have lvl: "level_inv os k l" if "(k, l) \<in> set lv" for k l
    using side that by (auto simp: side_inv_def)
  show ?thesis
  proof (intro equalityI subsetI)
    fix k assume "k \<in> fst ` set lv"
    then obtain l where kl: "(k, l) \<in> set lv" by auto
    then obtain p where "p \<in> set (level_orders l)" "price (deref os p) = k"
      using lvl by (cases "level_orders l") (auto simp: level_inv_def)
    then show "k \<in> (\<lambda>p. price (deref os p)) ` live_ids os buy"
      using level_ids [OF side kl] by auto
  next
    fix k assume "k \<in> (\<lambda>p. price (deref os p)) ` live_ids os buy"
    then obtain p where "p \<in> live_ids os buy" "k = price (deref os p)" by blast
    then have "p \<in> set (queued lv)" using q by simp
    then obtain k' l where "(k', l) \<in> set lv" "p \<in> set (level_orders l)"
      by (rule queuedE)
    then show "k \<in> fst ` set lv" using lvl \<open>k = _\<close> by (force simp: level_inv_def)
  qed
qed

text \<open>The first level holds the best price of the side.\<close>

lemma first_level_best:
  assumes side: "side_inv lt buy os ((k, l) # lv)"
  shows "level_price l = k" and "total_quantity l = wrap64 (liquidity os buy k)"
    and "\<exists>p \<in> live_ids os buy. price (deref os p) = k"
    and "p \<in> live_ids os buy \<Longrightarrow> \<not> lt (price (deref os p)) k"
proof -
  note keys = level_keys [OF side]
  show "level_price l = k" "total_quantity l = wrap64 (liquidity os buy k)"
    using level_total [OF side, of k l] by simp_all
  have "k \<in> (\<lambda>p. price (deref os p)) ` live_ids os buy"
    unfolding keys [symmetric] by simp
  then show "\<exists>p \<in> live_ids os buy. price (deref os p) = k" by auto
  assume "p \<in> live_ids os buy"
  then have "price (deref os p) \<in> fst ` set ((k, l) # lv)" unfolding keys by blast
  then show "\<not> lt (price (deref os p)) k"
    using side asym irrefl by (auto simp: side_inv_def)
qed

lemma no_level: assumes "side_inv lt buy os []" shows "live_ids os buy = {}"
  using level_keys [OF assms] by simp

lemma depth_eq:
  assumes "side_inv lt buy os lv"
  shows "side_depth lv = map (\<lambda>k. (k, wrap64 (liquidity os buy k))) (map fst lv)"
  using level_total [OF assms] by (auto simp: side_depth_def)

text \<open>Two containers that hold the same live orders show the same depth.\<close>

lemma depth_determined:
  assumes "side_inv lt buy os lv" and "side_inv lt buy os' lv'" and "map_of os = map_of os'"
    and "distinct (map fst os)" and "distinct (map fst os')"
  shows "side_depth lv = side_depth lv'"
proof -
  have ids: "live_ids os buy = live_ids os' buy"
    using assms(3-5) by (auto simp: in_live_ids set_eq_iff)
  have dr: "deref os = deref os'" using assms(3) by (simp add: deref_def fun_eq_iff)
  have "fst ` set lv = fst ` set lv'"
    using level_keys [OF assms(1)] level_keys [OF assms(2)] ids dr by simp
  then have "map fst lv = map fst lv'"
    using sorted_same_keys [of lv lv'] assms(1,2) unfolding side_inv_def by blast
  then show ?thesis
    using depth_eq [OF assms(1)] depth_eq [OF assms(2)] ids dr by (simp add: liquidity_def)
qed

text \<open>
  The levels are a function of the abstract queue: at each price, the orders queued there in
  queue order, with the wrapped sum of their quantities.
\<close>

lemma level_canonical:
  assumes side: "side_inv lt buy os lv" and kl: "(k, l) \<in> set lv"
  shows "l = level_at k (resting os (queued lv))"
proof -
  have lvl: "level_inv os k' l'" if "(k', l') \<in> set lv" for k' l'
    using side that by (auto simp: side_inv_def)
  obtain as bs where lv: "lv = as @ (k, l) # bs" using split_list [OF kl] by blast
  have srt: "om_sorted lt (as @ (k, l) # bs)" using side lv by (simp add: side_inv_def)
  have away: "filter (\<lambda>p. price (deref os p) = k) (queued xs) = []"
    if "set xs \<subseteq> set lv" "k \<notin> fst ` set xs" for xs
  proof -
    have "price (deref os p) \<noteq> k" if pq: "p \<in> set (queued xs)" for p
    proof -
      from pq obtain k' l' where "(k', l') \<in> set xs" "p \<in> set (level_orders l')" by (rule queuedE)
      then show ?thesis
        using lvl [of k' l'] \<open>set xs \<subseteq> set lv\<close> \<open>k \<notin> fst ` set xs\<close> by (force simp: level_inv_def)
    qed
    then show ?thesis by (simp add: filter_empty_conv)
  qed
  have "k \<notin> fst ` set as" "k \<notin> fst ` set bs"
    using sorted_distinct [OF srt] by auto
  moreover have "set as \<subseteq> set lv" "set bs \<subseteq> set lv" by (auto simp: lv)
  ultimately have "filter (\<lambda>p. price (deref os p) = k) (queued as) = []"
    "filter (\<lambda>p. price (deref os p) = k) (queued bs) = []"
    using away by blast+
  then have "filter (\<lambda>p. price (deref os p) = k) (queued lv) = level_orders l"
    using lvl [OF kl] lv by (auto simp: level_inv_def)
  then have "filter (\<lambda>y. fst (snd y) = k) (resting os (queued lv)) = resting os (level_orders l)"
    by (simp add: resting_def filter_map comp_def)
  moreover have "map fst (resting os (level_orders l)) = level_orders l"
    by (simp add: resting_def comp_def)
  ultimately show ?thesis
    using lvl [OF kl] by (simp add: level_at_def level_inv_def volume_resting)
qed

lemma levels_same_queue:
  assumes "side_inv lt buy os lv" and "side_inv lt buy os' lv'"
    and "resting os (queued lv) = resting os' (queued lv')"
  shows "lv = lv'"
proof -
  have keys: "fst ` set l = (fst \<circ> snd) ` set (resting r (queued l))" if "side_inv lt buy r l" for r l
    using level_keys [OF that] that by (auto simp: side_inv_def resting_def image_image)
  have "fst ` set lv = fst ` set lv'"
    using keys [OF assms(1)] keys [OF assms(2)] assms(3) by simp
  then have "map fst lv = map fst lv'"
    using sorted_same_keys [of lv lv'] assms(1,2) unfolding side_inv_def by blast
  moreover have canon: "l = map (\<lambda>k. (k, level_at k (resting r (queued l)))) (map fst l)"
    if "side_inv lt buy r l" for r l
  proof -
    have "map ((\<lambda>k. (k, level_at k (resting r (queued l)))) \<circ> fst) l = l"
      by (rule map_idI) (use level_canonical [OF that] in auto)
    then show ?thesis by simp
  qed
  note canon [OF assms(1)] canon [OF assms(2)]
  ultimately show ?thesis using assms(3) by metis
qed

lemma queue_sorted:
  assumes side: "side_inv lt buy os lv"
  shows "sorted_wrt (\<lambda>x y. \<not> lt (fst (snd y)) (fst (snd x))) (resting os (queued lv))"
  using side
proof -
  have "om_sorted lt lv \<Longrightarrow> levels_ok os lv \<Longrightarrow>
      sorted_wrt (\<lambda>x y. \<not> lt (fst (snd y)) (fst (snd x))) (resting os (queued lv))"
  proof (induction lv)
    case (Cons kl lv)
    obtain k l where kl: "kl = (k, l)" by (cases kl)
    have at: "price (deref os p) = k" if "p \<in> set (level_orders l)" for p
      using that Cons.prems(2) kl by (auto simp: level_inv_def)
    have later: "lt k (price (deref os p))" if "p \<in> set (queued lv)" for p
    proof -
      from that obtain k' l' where "(k', l') \<in> set lv" "p \<in> set (level_orders l')"
        by (rule queuedE)
      then show ?thesis using Cons.prems kl by (force simp: levels_ok_def level_inv_def)
    qed
    have "sorted_wrt (\<lambda>x y. \<not> lt (fst (snd y)) (fst (snd x))) (resting os (level_orders l))"
      by (rule sorted_wrt_mono_rel [of _ "\<lambda>_ _. True"])
         (use at irrefl in \<open>auto simp: resting_in sorted_wrt_iff_nth_less\<close>)
    moreover have "\<forall>x \<in> set (resting os (level_orders l)). \<forall>y \<in> set (resting os (queued lv)).
        \<not> lt (fst (snd y)) (fst (snd x))"
      using at later asym by (force simp: resting_in)
    ultimately show ?case using Cons kl by (simp add: sorted_wrt_append)
  qed simp
  with side show ?thesis by (simp add: side_inv_def levels_ok_def)
qed

end

section \<open>The abstraction of each operation\<close>

lemma place_order_resting:
  assumes "book_inv b" and "\<not> has_order b (order_id ord)" and "order_ok ord"
  shows "resting_bids (place_order b ord) =
      (if side ord = BUY then a_insert (>) (resting_of ord) (resting_bids b) else resting_bids b)"
    and "resting_asks (place_order b ord) =
      (if side ord = BUY then resting_asks b else a_insert (<) (resting_of ord) (resting_asks b))"
proof -
  note I = book_invD [OF assms(1)]
  have fresh: "map_of (orders b) (order_id ord) = None" using assms(2) by (simp add: has_order_def)
  have "order_id ord \<notin> set (queued (bids b)) \<union> set (queued (asks b))"
    using I fresh by (auto simp: side_inv_def in_live_ids)
  then have same: "resting (AList.update (order_id ord) ord (orders b)) (queued (bids b)) = resting_bids b"
    "resting (AList.update (order_id ord) ord (orders b)) (queued (asks b)) = resting_asks b"
    unfolding resting_bids_def resting_asks_def
    by (auto intro!: resting_cong simp: deref_update)
  show "resting_bids (place_order b ord) =
      (if side ord = BUY then a_insert (>) (resting_of ord) (resting_bids b) else resting_bids b)"
    using bid_side.insert_resting [OF I(2,1) fresh assms(3)] same(1)
    by (simp add: resting_bids_def book_fields)
  show "resting_asks (place_order b ord) =
      (if side ord = BUY then resting_asks b else a_insert (<) (resting_of ord) (resting_asks b))"
    using ask_side.insert_resting [OF I(3,1) fresh assms(3)] same(2)
    by (simp add: resting_asks_def book_fields)
qed

lemma resting_cancelled:
  "resting (AList.update p ((deref os p)\<lparr>is_cancelled := True\<rparr>) os) ps = resting os ps"
  by (induction ps) (auto simp: deref_update)

lemma apply_replicated_cancel_resting:
  assumes "book_inv b"
  shows "resting_bids (apply_replicated_cancel b oid) = a_remove oid (resting_bids b)"
    and "resting_asks (apply_replicated_cancel b oid) = a_remove oid (resting_asks b)"
proof -
  note I = book_invD [OF assms]
  have sets: "set (queued (bids b)) = live_ids (orders b) True" "distinct (queued (bids b))"
    "set (queued (asks b)) = live_ids (orders b) False" "distinct (queued (asks b))"
    using I by (simp_all add: side_inv_def)
  have "resting_bids (apply_replicated_cancel b oid) = a_remove oid (resting_bids b) \<and>
      resting_asks (apply_replicated_cancel b oid) = a_remove oid (resting_asks b)"
  proof (cases "\<exists>ord. map_of (orders b) oid = Some ord \<and> \<not> is_cancelled ord")
    case True
    then obtain ord where ord: "map_of (orders b) oid = Some ord" "\<not> is_cancelled ord" by blast
    then have d: "deref (orders b) oid = ord" by (simp add: deref_def)
    have live: "oid \<in> live_ids (orders b) (side ord = BUY)"
      using ord I(4) by (simp add: in_live_ids)
    then have other: "oid \<notin> live_ids (orders b) (side ord \<noteq> BUY)"
      using live_deref(4) [OF I(1)] by blast
    show ?thesis
      using bid_side.remove_order(2) [OF I(2,1), of oid] ask_side.remove_order(2) [OF I(3,1), of oid]
        live other sets resting_cancelled [of oid "orders b"] d
      by (auto simp: resting_bids_def resting_asks_def apply_replicated_cancel_live [OF ord]
          a_remove_resting distinct_remove1_removeAll split: if_splits)
  next
    case False
    then have "oid \<notin> live_ids (orders b) buy" for buy using I(4) by (auto simp: in_live_ids)
    moreover have "apply_replicated_cancel b oid = b"
      using False by (intro apply_replicated_cancel_none) auto
    ultimately show ?thesis
      using sets by (simp add: resting_bids_def resting_asks_def a_remove_resting)
  qed
  then show "resting_bids (apply_replicated_cancel b oid) = a_remove oid (resting_bids b)"
    and "resting_asks (apply_replicated_cancel b oid) = a_remove oid (resting_asks b)"
    by simp_all
qed

lemma match_market_order_resting:
  assumes "book_inv b" and "fits64 qty" and "match_market_order b sd qty = (b', fs)"
  shows "book_inv b'" and "(fs, opposite b' sd) = consume qty (opposite b sd)"
    and "own b' sd = own b sd"
proof -
  have "book_inv b' \<and> (fs, opposite b' sd) = consume qty (opposite b sd) \<and> own b' sd = own b sd"
  proof (cases "sd = BUY")
    case True
    note M = match_buy [OF assms(1,2) assms(3) [unfolded True]]
    from M True show ?thesis by (simp add: opposite_def own_def)
  next
    case False
    then show ?thesis
      using match_sell [OF assms(1,2) False assms(3)] by (simp add: opposite_def own_def)
  qed
  then show "book_inv b'" and "(fs, opposite b' sd) = consume qty (opposite b sd)"
    and "own b' sd = own b sd"
    by simp_all
qed

lemma consume_prefix:
  "consume rem xs = (fs, ys) \<Longrightarrow>
   prefix (map (\<lambda>f. (fill_order_id f, fill_price f)) fs) (map (\<lambda>(i, p, q). (i, p)) xs)"
  by (induction rem xs arbitrary: fs ys rule: consume.induct) (auto split: if_splits prod.splits)

text \<open>Matching never drops an order from the map, and the orders it fills are in it.\<close>

lemma match_deque_keys: "fst ` set os \<subseteq> fst ` set (fst (match_deque os ps rem tot fs))"
proof (induction os ps rem tot fs rule: match_deque.induct)
  case (2 os p ps rem tot fs)
  show ?case
    using 2(1) [OF _ refl] 2(2,3) [OF _ refl _ refl refl refl refl refl]
    by (subst match_deque.simps) (simp add: Let_def dom_update del: match_deque.simps)
qed simp

lemma match_levels_keys: "fst ` set os \<subseteq> fst ` set (fst (match_levels os lv rem fs))"
proof (induction os lv rem fs rule: match_levels.induct)
  case (2 os k l lv rem fs)
  then show ?case
    using match_deque_keys [of os "level_orders l" rem "total_quantity l" fs]
    by (force simp: Let_def split: prod.splits)
qed simp

lemma match_market_order_keys: "has_order b i \<Longrightarrow> has_order (fst (match_market_order b sd qty)) i"
  using match_levels_keys [of "orders b" "asks b" qty "[]", THEN subsetD, of i]
    match_levels_keys [of "orders b" "bids b" qty "[]", THEN subsetD, of i]
  by (auto simp: match_market_order_def has_order_def map_of_eq_None_iff [of _ i] image_iff
      split: prod.splits if_splits simp flip: map_of_eq_None_iff)

text \<open>Nor does it add one: it only touches queued orders.\<close>

lemma match_deque_no_new:
  "fst ` set os \<subseteq> S \<Longrightarrow> set ps \<subseteq> S \<Longrightarrow> fst ` set (fst (match_deque os ps rem tot fs)) \<subseteq> S"
proof (induction os ps rem tot fs rule: match_deque.induct)
  case (2 os p ps rem tot fs)
  show ?case
    using 2(1) [OF _ refl] 2(2,3) [OF _ refl _ refl refl refl refl refl] 2(4,5)
    by (subst match_deque.simps) (simp add: Let_def dom_update del: match_deque.simps)
qed simp

lemma match_levels_no_new:
  "fst ` set os \<subseteq> S \<Longrightarrow> set (queued lv) \<subseteq> S \<Longrightarrow> fst ` set (fst (match_levels os lv rem fs)) \<subseteq> S"
proof (induction os lv rem fs rule: match_levels.induct)
  case (2 os k l lv rem fs)
  obtain os1 ps rem1 tot fs1 where d: "match_deque os (level_orders l) rem (total_quantity l) fs = (os1, ps, rem1, tot, fs1)"
    by (cases "match_deque os (level_orders l) rem (total_quantity l) fs")
  have S: "set (level_orders l) \<subseteq> S" "set (queued lv) \<subseteq> S" using 2(3) by (simp_all add: queued_def)
  have "fst ` set os1 \<subseteq> S" using match_deque_no_new [OF 2(2) S(1), of rem "total_quantity l" fs] d by simp
  moreover obtain os2 lv2 fs2 where "match_levels os1 lv rem1 fs1 = (os2, lv2, fs2)"
    by (cases "match_levels os1 lv rem1 fs1")
  ultimately show ?case using 2(1) [OF _ d [symmetric] refl refl refl refl _ S(2)] 2(2) d by simp
qed simp

lemma has_order_keys: "has_order b i \<longleftrightarrow> i \<in> fst ` set (orders b)"
  by (simp add: has_order_def map_of_eq_None_iff)

lemma match_market_order_no_new:
  assumes "book_inv b" and "has_order (fst (match_market_order b sd qty)) i" shows "has_order b i"
proof -
  note I = book_invD [OF assms(1)]
  have "set (queued (bids b)) \<subseteq> fst ` set (orders b)" "set (queued (asks b)) \<subseteq> fst ` set (orders b)"
    using I(2,3) by (auto simp: side_inv_def live_ids_def)
  then show ?thesis
    using assms(2) match_levels_no_new [of "orders b" "fst ` set (orders b)" "asks b" qty "[]"]
      match_levels_no_new [of "orders b" "fst ` set (orders b)" "bids b" qty "[]"]
    by (cases "sd = BUY") (auto simp: match_market_order_def has_order_keys case_prod_beta)
qed

lemma opposite_positive:
  assumes "book_inv b" shows "all_positive (opposite b sd)"
proof -
  note I = book_invD [OF assms]
  have "all_live (orders b) (queued (bids b))" "all_live (orders b) (queued (asks b))"
    using bid_side.side_all_live [OF I(1,2)] ask_side.side_all_live [OF I(1,3)] by simp_all
  then show ?thesis
    using all_live_positive by (simp add: opposite_def resting_bids_def resting_asks_def)
qed

end
