(* ===== verification/OrderBook_Props.thy ===== *)
theory OrderBook_Props
  imports OrderBook_Spec
begin

text \<open>
  The properties of the order book: the invariant of every reachable book, the refinement of the
  three mutating operations, and the queries.
\<close>

section \<open>The books a sequence of calls can reach\<close>

text \<open>
  A fresh id is what \<^verbatim>\<open>generate_uuid\<close> gives a local order; a positive quantity is what
  the client handler lets through.
\<close>

inductive book_step :: "order_book \<Rightarrow> order_book \<Rightarrow> bool" where
  add: "\<not> has_order b (order_id ord) \<Longrightarrow> order_ok ord \<Longrightarrow> book_step b (fst (add_order b ord))"
| cancel: "book_step b (fst (cancel_order b oid))"
| market: "fits64 qty \<Longrightarrow> book_step b (fst (match_market_order b sd qty))"
| replicated_insert: "order_ok ord \<Longrightarrow> book_step b (insert_replicated_order b ord)"
| replicated_cancel: "book_step b (apply_replicated_cancel b oid)"

inductive_cases book_stepE: "book_step b b'"

inductive book_reachable :: "order_book \<Rightarrow> bool" where
  start: "book_reachable empty_book"
| step: "book_reachable b \<Longrightarrow> book_step b b' \<Longrightarrow> book_reachable b'"

lemma book_step_inv: "book_step b b' \<Longrightarrow> book_inv b \<Longrightarrow> book_inv b'"
proof (induction rule: book_step.induct)
  case (market qty b sd)
  then show ?case
    using match_market_order_resting(1) [of b qty sd] by (metis prod.collapse)
qed (auto simp: add_order_def cancel_order_eq place_order_inv apply_replicated_cancel_inv
       insert_replicated_order_inv)

lemma empty_has_no_order [simp]: "\<not> has_order empty_book oid"
  by (simp add: has_order_def empty_book_def)

text \<open>A concrete book for the witnesses: two asks at different prices and a bid.\<close>

definition sample_order :: "string \<Rightarrow> side \<Rightarrow> double \<Rightarrow> int \<Rightarrow> order" where
  "sample_order i sd p q =
     \<lparr>order_id = i, node_id = ''node-a'', side = sd, price = p, quantity = q, remaining = q,
      timestamp = 1, is_cancelled = False\<rparr>"

definition sample_book :: order_book where
  "sample_book =
     fst (add_order (fst (add_order (fst (add_order empty_book
       (sample_order ''a1'' SELL 100 50))) (sample_order ''a2'' SELL 101 50)))
       (sample_order ''b1'' BUY 99 30))"

lemma sample_book_reachable: "book_reachable sample_book"
proof -
  let ?b1 = "fst (add_order empty_book (sample_order ''a1'' SELL 100 50))"
  let ?b2 = "fst (add_order ?b1 (sample_order ''a2'' SELL 101 50))"
  have ok: "order_ok (sample_order i sd p q)" if "0 < q" "q < 2 ^ 63" for i sd p q
    using that by (simp add: order_ok_def sample_order_def)
  have "\<not> has_order empty_book ''a1''" "\<not> has_order ?b1 ''a2''" "\<not> has_order ?b2 ''b1''"
    by code_simp+
  moreover have "order_id (sample_order i sd p q) = i" for i sd p q
    by (simp add: sample_order_def)
  ultimately show ?thesis
    unfolding sample_book_def
    by (intro book_reachable.step [OF _ book_step.add] book_reachable.start ok) simp_all
qed

lemma sample_book_inv: "book_inv sample_book"
  using sample_book_reachable by (induction rule: book_reachable.induct)
    (auto intro: book_inv_empty book_step_inv)

text \<open>C6: every book that a sequence of calls on an empty book reaches, where \<^verbatim>\<open>add_order\<close> is only called with
  an id the book has never held and orders come in live, with something remaining, keeps its
  representation invariant: no dangling pointer in a deque, each live order queued exactly once on
  its side and at its price, no empty level, levels in price order, totals equal to the sums.\<close>
theorem reachable_book_inv: "book_reachable b \<Longrightarrow> book_inv b"
  by (induction rule: book_reachable.induct) (auto intro: book_inv_empty book_step_inv)

theorem reachable_book_inv_witness: "book_reachable sample_book \<and> book_inv sample_book"
  using sample_book_reachable reachable_book_inv [OF sample_book_reachable] by simp

section \<open>Market orders\<close>

text \<open>C1: matching a market order is eating the wanted quantity off the front of the opposite
  side's price-time queue: the fills are the eaten pieces, what is left is the queue without them,
  and the aggressor's own side is untouched.\<close>
theorem market_order_refines:
  assumes "book_inv b" and "fits64 qty" and "match_market_order b sd qty = (b', fs)"
  shows "(fs, opposite b' sd) = consume qty (opposite b sd) \<and> own b' sd = own b sd"
  using match_market_order_resting [OF assms] by simp

theorem market_order_refines_witness:
  "(snd (match_market_order sample_book BUY 70), opposite (fst (match_market_order sample_book BUY 70)) BUY)
     = consume 70 (opposite sample_book BUY) \<and>
   snd (match_market_order sample_book BUY 70) =
     [\<lparr>fill_order_id = ''a1'', fill_price = 100, fill_quantity = 50\<rparr>,
      \<lparr>fill_order_id = ''a2'', fill_price = 101, fill_quantity = 20\<rparr>]"
proof -
  have "fits64 70" by (simp add: fits64_def)
  note R = market_order_refines [OF sample_book_inv this surjective_pairing, of BUY]
  have "snd (match_market_order sample_book BUY 70) =
     [\<lparr>fill_order_id = ''a1'', fill_price = 100, fill_quantity = 50\<rparr>,
      \<lparr>fill_order_id = ''a2'', fill_price = 101, fill_quantity = 20\<rparr>]"
    by code_simp
  with R show ?thesis by blast
qed

lemma sample_asks:
  "opposite sample_book BUY = [(''a1'', 100, 50), (''a2'', 101, 50)]"
  "opposite sample_book SELL = [(''b1'', 99, 30)]"
  by code_simp+

text \<open>C16: a market order fills exactly the wanted quantity or, when less is on offer, everything
  on offer; every fill is positive, and nothing is created or lost between the fills and what
  stays on the book.\<close>
theorem market_order_volume:
  assumes "book_inv b" and "fits64 qty" and "match_market_order b sd qty = (b', fs)"
  shows "filled fs = min (max 0 qty) (volume (opposite b sd)) \<and>
    filled fs + volume (opposite b' sd) = volume (opposite b sd) \<and>
    (\<forall>f \<in> set fs. 0 < fill_quantity f)"
proof -
  have c: "consume qty (opposite b sd) = (fs, opposite b' sd)"
    using match_market_order_resting(2) [OF assms] by simp
  note pos = opposite_positive [OF assms(1), of sd]
  have "filled fs = min (max 0 qty) (volume (opposite b sd))"
    using consume_filled [OF pos _ c] c volume_nonneg [OF pos] by (cases "0 \<le> qty") auto
  with consume_volume [OF c] consume_positive [OF pos c] show ?thesis by blast
qed

theorem market_order_volume_witness:
  "filled (snd (match_market_order sample_book BUY 70)) = 70 \<and>
   filled (snd (match_market_order sample_book BUY 170)) = 100"
proof -
  have f: "fits64 70" "fits64 170" by (simp_all add: fits64_def)
  show ?thesis
    using market_order_volume [OF sample_book_inv f(1) surjective_pairing, of BUY]
      market_order_volume [OF sample_book_inv f(2) surjective_pairing, of BUY]
    by (simp add: sample_asks)
qed

lemma opposite_sorted:
  assumes "book_inv b"
  shows "sorted_wrt (\<lambda>x y. if sd = BUY then fst (snd x) \<le> fst (snd y) else fst (snd y) \<le> fst (snd x))
    (opposite b sd)"
  using bid_side.queue_sorted ask_side.queue_sorted book_invD [OF assms]
  by (simp add: opposite_def resting_asks_def resting_bids_def not_less)

text \<open>Price-time priority: the orders a market order hits are the first ones of the
  opposite queue, in that order and at their own prices, so no order is hit before a better-priced
  or earlier one, and the prices of the fills never improve along the list.\<close>
theorem market_order_priority:
  assumes "book_inv b" and "fits64 qty" and "match_market_order b sd qty = (b', fs)"
  shows "prefix (map (\<lambda>f. (fill_order_id f, fill_price f)) fs)
      (map (\<lambda>(i, p, q). (i, p)) (opposite b sd)) \<and>
    sorted_wrt (\<lambda>p p'. if sd = BUY then p \<le> p' else p' \<le> p) (map fill_price fs)"
proof -
  have c: "consume qty (opposite b sd) = (fs, opposite b' sd)"
    using match_market_order_resting(2) [OF assms] by simp
  note pre = consume_prefix [OF c]
  then have "prefix (map snd (map (\<lambda>f. (fill_order_id f, fill_price f)) fs))
      (map snd (map (\<lambda>(i, p, q). (i, p)) (opposite b sd)))"
    by (rule map_mono_prefix)
  then obtain zs where "map (fst \<circ> snd) (opposite b sd) = map fill_price fs @ zs"
    by (auto simp: prefix_def comp_def case_prod_beta)
  moreover have "sorted_wrt (\<lambda>p p'. if sd = BUY then p \<le> p' else p' \<le> p)
      (map (fst \<circ> snd) (opposite b sd))"
    using opposite_sorted [OF assms(1), of sd] by (simp only: sorted_wrt_map o_apply)
  ultimately show ?thesis using pre by (simp add: sorted_wrt_append)
qed

theorem market_order_priority_witness:
  "prefix (map (\<lambda>f. (fill_order_id f, fill_price f)) (snd (match_market_order sample_book BUY 70)))
     [(''a1'', 100), (''a2'', 101)] \<and>
   sorted_wrt (\<le>) (map fill_price (snd (match_market_order sample_book BUY 70)))"
proof -
  have "fits64 70" by (simp add: fits64_def)
  from market_order_priority [OF sample_book_inv this surjective_pairing, of BUY]
  show ?thesis by (simp add: sample_asks)
qed

section \<open>Adding and cancelling\<close>

text \<open>C23: adding an order queues it behind every order of the same side at the same or a better
  price and ahead of every worse one, and leaves the other side alone; the call returns the
  order's id.\<close>
theorem add_order_refines:
  assumes "book_inv b" and "\<not> has_order b (order_id ord)" and "order_ok ord"
    and "add_order b ord = (b', oid)"
  shows "oid = order_id ord \<and> has_order b' oid \<and>
    resting_bids b' = (if side ord = BUY then a_insert (>) (resting_of ord) (resting_bids b)
                       else resting_bids b) \<and>
    resting_asks b' = (if side ord = BUY then resting_asks b
                       else a_insert (<) (resting_of ord) (resting_asks b))"
  using place_order_resting [OF assms(1-3)] assms(4)
  by (auto simp: add_order_def has_order_def book_fields)

theorem add_order_refines_witness:
  "resting_asks (fst (add_order sample_book (sample_order ''a3'' SELL 100 7))) =
     [(''a1'', 100, 50), (''a3'', 100, 7), (''a2'', 101, 50)]"
proof -
  let ?o = "sample_order ''a3'' SELL 100 7"
  have h: "\<not> has_order sample_book (order_id ?o)" "order_ok ?o" "side ?o \<noteq> BUY"
    by code_simp+
  have "a_insert (<) (resting_of ?o) (resting_asks sample_book) =
      [(''a1'', 100, 50), (''a3'', 100, 7), (''a2'', 101, 50)]"
    by code_simp
  then show ?thesis
    using add_order_refines [OF sample_book_inv h(1,2) surjective_pairing] h(3) by simp
qed

text \<open>C24: cancelling succeeds exactly when the order rests on the book; it then leaves both
  queues without that order and otherwise unchanged, and a failed cancel changes nothing.\<close>
theorem cancel_order_refines:
  assumes "book_inv b" and "cancel_order b oid = (b', ok)"
  shows "(ok \<longleftrightarrow> oid \<in> fst ` set (resting_bids b @ resting_asks b)) \<and>
    resting_bids b' = a_remove oid (resting_bids b) \<and>
    resting_asks b' = a_remove oid (resting_asks b) \<and> (\<not> ok \<longrightarrow> b' = b)"
proof -
  note I = book_invD [OF assms(1)]
  have ids: "fst ` set (resting_bids b @ resting_asks b) =
      live_ids (orders b) True \<union> live_ids (orders b) False"
    using I by (simp add: resting_bids_def resting_asks_def resting_def side_inv_def image_Un image_image)
  have b': "b' = apply_replicated_cancel b oid"
    and ok: "ok = (\<exists>ord. map_of (orders b) oid = Some ord \<and> \<not> is_cancelled ord)"
    using assms(2) by (simp_all add: cancel_order_eq)
  then have "ok \<longleftrightarrow> oid \<in> fst ` set (resting_bids b @ resting_asks b)"
    unfolding ids using in_live_ids [OF I(4)] by auto
  moreover have "\<not> ok \<longrightarrow> b' = b"
    using ok b' apply_replicated_cancel_none by metis
  ultimately show ?thesis
    using apply_replicated_cancel_resting [OF assms(1)] b' by simp
qed

theorem cancel_order_refines_witness:
  "snd (cancel_order sample_book ''a1'') \<and>
   resting_asks (fst (cancel_order sample_book ''a1'')) = [(''a2'', 101, 50)] \<and>
   fst (cancel_order sample_book ''zz'') = sample_book"
proof -
  note R = cancel_order_refines [OF sample_book_inv surjective_pairing]
  have "''a1'' \<in> fst ` set (resting_bids sample_book @ resting_asks sample_book)"
    "''zz'' \<notin> fst ` set (resting_bids sample_book @ resting_asks sample_book)"
    "a_remove ''a1'' (resting_asks sample_book) = [(''a2'', 101, 50)]"
    by code_simp+
  with R [of "''a1''"] R [of "''zz''"] show ?thesis by metis
qed

lemma a_remove_insert:
  assumes "fst x \<notin> fst ` set xs" shows "a_remove (fst x) (a_insert lt x xs) = xs"
proof -
  have id: "filter (\<lambda>y. fst y \<noteq> fst x) zs = zs" if "set zs \<subseteq> set xs" for zs
    using assms that by (intro filter_True ballI) (metis image_eqI subsetD)
  let ?P = "\<lambda>y. \<not> lt (fst (snd x)) (fst (snd y))"
  have "filter (\<lambda>y. fst y \<noteq> fst x) (takeWhile ?P xs) = takeWhile ?P xs"
    by (rule id) (auto dest: set_takeWhileD)
  moreover have "filter (\<lambda>y. fst y \<noteq> fst x) (dropWhile ?P xs) = dropWhile ?P xs"
    by (rule id) (auto dest: set_dropWhileD)
  ultimately show ?thesis
    by (simp add: a_remove_def a_insert_def)
qed

text \<open>Adding a fresh order and cancelling it again restores both sides of the book to
  exactly the levels, totals and queues they had.\<close>
theorem add_cancel_roundtrip:
  assumes inv: "book_inv b" and fresh: "\<not> has_order b (order_id ord)" and ok: "order_ok ord"
    and b': "b' = fst (cancel_order (fst (add_order b ord)) (order_id ord))"
  shows "bids b' = bids b \<and> asks b' = asks b"
proof -
  let ?b1 = "place_order b ord"
  have i1: "book_inv ?b1" by (rule place_order_inv [OF inv fresh ok])
  have b'_eq: "b' = apply_replicated_cancel ?b1 (order_id ord)"
    using b' by (simp add: add_order_def cancel_order_eq)
  then have i2: "book_inv b'" using apply_replicated_cancel_inv [OF i1] by simp
  note I = book_invD [OF inv] and J = book_invD [OF i2]
  have "order_id ord \<notin> fst ` set (resting_bids b)" "order_id ord \<notin> fst ` set (resting_asks b)"
    using I fresh in_live_ids [OF I(4)]
    by (auto simp: has_order_def resting_bids_def resting_asks_def resting_def side_inv_def)
  then have absent: "fst (resting_of ord) \<notin> fst ` set (resting_bids b)"
    "fst (resting_of ord) \<notin> fst ` set (resting_asks b)"
    by (simp_all add: resting_of_def)
  have gone: "a_remove (order_id ord) xs = xs" if "order_id ord \<notin> fst ` set xs" for xs
    using that unfolding a_remove_def by (intro filter_True) force
  have "resting_bids b' = resting_bids b" "resting_asks b' = resting_asks b"
    using apply_replicated_cancel_resting [OF i1, of "order_id ord"]
      place_order_resting [OF inv fresh ok] absent gone a_remove_insert [of "resting_of ord"]
    by (simp_all add: b'_eq resting_of_def split: if_splits)
  then show ?thesis
    using bid_side.levels_same_queue [OF J(2) I(2)] ask_side.levels_same_queue [OF J(3) I(3)]
    by (simp add: resting_bids_def resting_asks_def)
qed

theorem add_cancel_roundtrip_witness:
  "asks (fst (cancel_order (fst (add_order sample_book (sample_order ''a3'' SELL 100 7))) ''a3''))
     = asks sample_book"
proof -
  let ?o = "sample_order ''a3'' SELL 100 7"
  have h: "\<not> has_order sample_book (order_id ?o)" "order_ok ?o" "order_id ?o = ''a3''"
    by code_simp+
  show ?thesis using add_cancel_roundtrip [OF sample_book_inv h(1,2) refl] h(3) by simp
qed

section \<open>Queries\<close>

text \<open>The best bid is the highest price among the live buy orders and the best ask the
  lowest among the live sell orders, each with the (64-bit) sum of what is on offer there; there is
  none exactly when the side has no live order.\<close>
theorem best_quotes_correct:
  assumes "book_inv b"
  shows "(case get_best_bid b of
      None \<Rightarrow> live_ids (orders b) True = {}
    | Some l \<Rightarrow> (\<exists>p \<in> live_ids (orders b) True. price (deref (orders b) p) = level_price l) \<and>
        (\<forall>p \<in> live_ids (orders b) True. price (deref (orders b) p) \<le> level_price l) \<and>
        total_quantity l = wrap64 (liquidity (orders b) True (level_price l))) \<and>
    (case get_best_ask b of
      None \<Rightarrow> live_ids (orders b) False = {}
    | Some l \<Rightarrow> (\<exists>p \<in> live_ids (orders b) False. price (deref (orders b) p) = level_price l) \<and>
        (\<forall>p \<in> live_ids (orders b) False. level_price l \<le> price (deref (orders b) p)) \<and>
        total_quantity l = wrap64 (liquidity (orders b) False (level_price l)))"
proof -
  note I = book_invD [OF assms]
  have "case get_best_bid b of
      None \<Rightarrow> live_ids (orders b) True = {}
    | Some l \<Rightarrow> (\<exists>p \<in> live_ids (orders b) True. price (deref (orders b) p) = level_price l) \<and>
        (\<forall>p \<in> live_ids (orders b) True. price (deref (orders b) p) \<le> level_price l) \<and>
        total_quantity l = wrap64 (liquidity (orders b) True (level_price l))"
  proof (cases "bids b")
    case (Cons kl lv)
    then have "side_inv (>) True (orders b) ((fst kl, snd kl) # lv)" using I(2) by simp
    from bid_side.first_level_best [OF this] Cons show ?thesis
      by (auto simp: get_best_bid_def case_prod_beta not_less)
  qed (use I(2) bid_side.no_level in \<open>simp add: get_best_bid_def\<close>)
  moreover have "case get_best_ask b of
      None \<Rightarrow> live_ids (orders b) False = {}
    | Some l \<Rightarrow> (\<exists>p \<in> live_ids (orders b) False. price (deref (orders b) p) = level_price l) \<and>
        (\<forall>p \<in> live_ids (orders b) False. level_price l \<le> price (deref (orders b) p)) \<and>
        total_quantity l = wrap64 (liquidity (orders b) False (level_price l))"
  proof (cases "asks b")
    case (Cons kl lv)
    then have "side_inv (<) False (orders b) ((fst kl, snd kl) # lv)" using I(3) by simp
    from ask_side.first_level_best [OF this] Cons show ?thesis
      by (auto simp: get_best_ask_def case_prod_beta not_less)
  qed (use I(3) ask_side.no_level in \<open>simp add: get_best_ask_def\<close>)
  ultimately show ?thesis by blast
qed

theorem best_quotes_correct_witness:
  "map_option level_price (get_best_ask sample_book) = Some 100 \<and>
   100 \<le> price (deref (orders sample_book) ''a2'')"
proof -
  have "get_best_ask sample_book =
      Some \<lparr>level_price = 100, total_quantity = 50, level_orders = [''a1'']\<rparr>"
    by code_simp
  moreover have "''a2'' \<in> live_ids (orders sample_book) False" by code_simp
  ultimately show ?thesis using best_quotes_correct [OF sample_book_inv] by auto
qed

lemma snapshot_side_take: "snapshot_side c d lv = map snd (take (nat (d - c)) lv)"
proof (induction c d lv rule: snapshot_side.induct)
  case (2 c d k l lv)
  have "nat (d - c) = Suc (nat (d - (c + 1)))" if "\<not> d \<le> c" using that by simp
  with 2 show ?case by (auto simp del: Suc_nat_eq_nat_zadd1)
qed simp

text \<open>The prices of a side, best first, read off its abstract queue.\<close>

definition price_ladder :: "bool \<Rightarrow> resting_order list \<Rightarrow> double list" where
  "price_ladder buy xs =
     (let ps = sorted_list_of_set ((\<lambda>y. fst (snd y)) ` set xs) in if buy then rev ps else ps)"

lemma keys_of_queue:
  "side_inv (>) True os lv \<Longrightarrow> map fst lv = price_ladder True (resting os (queued lv))"
  "side_inv (<) False os lv \<Longrightarrow> map fst lv = price_ladder False (resting os (queued lv))"
proof -
  assume side: "side_inv (>) True os lv"
  have "fst ` set lv = (\<lambda>y. fst (snd y)) ` set (resting os (queued lv))"
    using bid_side.level_keys [OF side] side by (simp add: side_inv_def resting_def image_image)
  moreover have "sorted_wrt (>) (map fst lv)" using side by (simp add: side_inv_def)
  ultimately show "map fst lv = price_ladder True (resting os (queued lv))"
    by (intro sorted_wrt_same_set [of "(>)"])
       (simp_all add: price_ladder_def sorted_wrt_rev strict_sorted_list_of_set)
next
  assume side: "side_inv (<) False os lv"
  have "fst ` set lv = (\<lambda>y. fst (snd y)) ` set (resting os (queued lv))"
    using ask_side.level_keys [OF side] side by (simp add: side_inv_def resting_def image_image)
  moreover have "sorted_wrt (<) (map fst lv)" using side by (simp add: side_inv_def)
  ultimately show "map fst lv = price_ladder False (resting os (queued lv))"
    by (intro sorted_wrt_same_set [of "(<)"])
       (simp_all add: price_ladder_def)
qed

lemma levels_of_queue:
  assumes "\<And>k l. (k, l) \<in> set lv \<Longrightarrow> l = level_at k xs"
  shows "map snd (take n lv) = map (\<lambda>k. level_at k xs) (take n (map fst lv))"
proof -
  have "map snd (take n lv) = map (\<lambda>kl. level_at (fst kl) xs) (take n lv)"
    by (rule map_cong) (use assms in_set_takeD in force)+
  then show ?thesis by (simp add: take_map comp_def)
qed

text \<open>C27: a snapshot shows, for each side, the best \<open>depth\<close> distinct prices in book order, each
  with exactly the orders queued there, in queue order, and their total; a depth of zero or less
  shows nothing.\<close>
theorem snapshot_correct:
  assumes "book_inv b"
  shows "get_snapshot b depth =
    \<lparr>snap_bids = map (\<lambda>k. level_at k (resting_bids b)) (take (nat depth) (price_ladder True (resting_bids b))),
     snap_asks = map (\<lambda>k. level_at k (resting_asks b)) (take (nat depth) (price_ladder False (resting_asks b)))\<rparr>"
proof -
  note I = book_invD [OF assms]
  show ?thesis
    using levels_of_queue [OF bid_side.level_canonical [OF I(2)]]
      levels_of_queue [OF ask_side.level_canonical [OF I(3)]]
      keys_of_queue(1) [OF I(2)] keys_of_queue(2) [OF I(3)]
    by (simp add: get_snapshot_def snapshot_side_take resting_bids_def resting_asks_def)
qed

theorem snapshot_correct_witness:
  "snap_asks (get_snapshot sample_book 1) =
     map (\<lambda>k. level_at k (resting_asks sample_book)) (take 1 (price_ladder False (resting_asks sample_book))) \<and>
   snap_asks (get_snapshot sample_book 1) =
     [\<lparr>level_price = 100, total_quantity = 50, level_orders = [''a1'']\<rparr>]"
proof -
  have "snap_asks (get_snapshot sample_book 1) =
     [\<lparr>level_price = 100, total_quantity = 50, level_orders = [''a1'']\<rparr>]"
    by code_simp
  with snapshot_correct [OF sample_book_inv, of 1] show ?thesis by simp
qed

text \<open>The list of active orders holds every order resting on the book and no other, each
  once, so its length (the ORDERS count of the status command) is the number of resting orders.\<close>
theorem all_orders_exact:
  assumes "book_inv b"
  shows "distinct (map order_id (get_all_orders b)) \<and>
    set (map order_id (get_all_orders b)) = fst ` set (resting_bids b @ resting_asks b) \<and>
    length (get_all_orders b) = length (resting_bids b) + length (resting_asks b)"
proof -
  note I = book_invD [OF assms]
  let ?live = "live_ids (orders b) True \<union> live_ids (orders b) False"
  let ?act = "filter (\<lambda>x. \<not> is_cancelled (snd x) \<and> 0 < remaining (snd x)) (orders b)"
  have key: "order_id (snd x) = fst x" "is_cancelled (snd x) \<or> 0 < remaining (snd x)"
    if "x \<in> set (orders b)" for x
    using I(1) that by (auto simp: orders_inv_def order_ok_def)
  have eq: "map order_id (get_all_orders b) = map fst ?act"
    by (auto simp: get_all_orders_def filter_map comp_def key)
  have dist: "distinct (map fst ?act)" using I(4) by (simp add: distinct_map_filter)
  have "set (map fst ?act) = ?live"
    using key(2) by (force simp: live_ids_def)
  moreover have ids: "fst ` set (resting_bids b @ resting_asks b) = ?live"
    using I by (simp add: resting_bids_def resting_asks_def resting_def side_inv_def image_Un image_image)
  moreover have "length (get_all_orders b) = length (resting_bids b) + length (resting_asks b)"
  proof -
    have disj: "live_ids (orders b) True \<inter> live_ids (orders b) False = {}"
      using live_deref(4) [OF I(1)] by blast
    have "length (get_all_orders b) = length (map fst ?act)"
      using arg_cong [OF eq, of length] by (simp only: length_map)
    also have "\<dots> = card (set (map fst ?act))"
      by (rule distinct_card [OF dist, symmetric])
    also have "\<dots> = card (set (queued (bids b)) \<union> set (queued (asks b)))"
      using \<open>set (map fst ?act) = ?live\<close> I by (simp add: side_inv_def)
    also have "\<dots> = length (queued (bids b)) + length (queued (asks b))"
      using I(2,3) disj distinct_card [of "queued (bids b)"] distinct_card [of "queued (asks b)"]
      by (subst card_Un_disjoint) (auto simp: side_inv_def)
    finally show ?thesis by (simp add: resting_bids_def resting_asks_def resting_def)
  qed
  ultimately show ?thesis using dist eq by simp
qed

theorem all_orders_exact_witness:
  "length (get_all_orders sample_book) = 3 \<and>
   set (map order_id (get_all_orders sample_book)) = {''a1'', ''a2'', ''b1''}"
proof -
  have "fst ` set (resting_bids sample_book @ resting_asks sample_book) = {''a1'', ''a2'', ''b1''}"
    "length (resting_bids sample_book) + length (resting_asks sample_book) = 3"
    by code_simp+
  with all_orders_exact [OF sample_book_inv] show ?thesis by simp
qed

section \<open>Replication\<close>

text \<open>Replicated operations are idempotent: inserting the same order again or cancelling
  the same id again changes nothing, in any state.\<close>
theorem replicated_idempotent:
  "insert_replicated_order (insert_replicated_order b ord) ord = insert_replicated_order b ord \<and>
   apply_replicated_cancel (apply_replicated_cancel b oid) oid = apply_replicated_cancel b oid"
proof
  show "insert_replicated_order (insert_replicated_order b ord) ord = insert_replicated_order b ord"
    by (simp add: insert_replicated_order_def book_fields)
  show "apply_replicated_cancel (apply_replicated_cancel b oid) oid = apply_replicated_cancel b oid"
    by (rule apply_replicated_cancel_none) (auto simp: lookup_apply_cancel)
qed

text \<open>The depth a book shows (price and total of every level, both sides) depends only on
  the contents of its orders map, not on the order in which the orders arrived.\<close>
theorem depth_depends_on_orders:
  assumes "book_inv b" and "book_inv b'" and "map_of (orders b) = map_of (orders b')"
  shows "side_depth (bids b) = side_depth (bids b') \<and> side_depth (asks b) = side_depth (asks b')"
proof -
  note I = book_invD [OF assms(1)] and J = book_invD [OF assms(2)]
  show ?thesis
    using bid_side.depth_determined [OF I(2) J(2) assms(3) I(4) J(4)]
      ask_side.depth_determined [OF I(3) J(3) assms(3) I(4) J(4)] by simp
qed

definition sample_pair :: "order_book \<times> order_book" where
  "sample_pair =
     (let x = sample_order ''x'' SELL 100 5; y = sample_order ''y'' SELL 100 7
      in (insert_replicated_order (insert_replicated_order empty_book x) y,
          insert_replicated_order (insert_replicated_order empty_book y) x))"

theorem depth_depends_on_orders_witness:
  "side_depth (asks (fst sample_pair)) = side_depth (asks (snd sample_pair)) \<and>
   side_depth (asks (fst sample_pair)) = [(100, 12)] \<and>
   asks (fst sample_pair) \<noteq> asks (snd sample_pair)"
proof -
  have ok: "order_ok (sample_order ''x'' SELL 100 5)" "order_ok (sample_order ''y'' SELL 100 7)"
    by code_simp+
  have "book_inv (fst sample_pair)" "book_inv (snd sample_pair)"
    using ok by (simp_all add: sample_pair_def Let_def insert_replicated_order_inv book_inv_empty)
  moreover have "map_of (orders (fst sample_pair)) = map_of (orders (snd sample_pair))"
    by (simp add: sample_pair_def Let_def lookup_insert_replicated sample_order_def has_order_def
        empty_book_def fun_upd_twist)
  moreover have "side_depth (asks (fst sample_pair)) = [(100, 12)]"
    "asks (fst sample_pair) \<noteq> asks (snd sample_pair)"
    by code_simp+
  ultimately show ?thesis
    using depth_depends_on_orders [of "fst sample_pair" "snd sample_pair"] by simp
qed

end
