(* ===== verification/Bytes.thy ===== *)
theory Bytes
  imports Prelude
begin

unbundle bit_operations_syntax

text \<open>
  Bytes on the wire: big-endian integers as \<^verbatim>\<open>htons\<close> and \<^verbatim>\<open>htonl\<close> lay them
  out, length-prefixed strings, and readers over a byte sequence. A reader consumes a prefix and
  returns the rest, so a read position is the number of bytes consumed. A failed read is a value:
  \<open>Overrun\<close> is the exception the bounds-checked reader throws, \<open>OutOfBounds\<close> an
  unchecked read past the end of the buffer (undefined behaviour in the source).
\<close>

datatype fault = Overrun | OutOfBounds

type_synonym 'a reader = "u8 list \<Rightarrow> fault + 'a \<times> u8 list"

section \<open>Writing\<close>

definition be16 :: "u16 \<Rightarrow> u8 list" where
  "be16 v = [ucast (drop_bit 8 v), ucast v]"

definition be32 :: "u32 \<Rightarrow> u8 list" where
  "be32 v = [ucast (drop_bit 24 v), ucast (drop_bit 16 v), ucast (drop_bit 8 v), ucast v]"

definition be64 :: "u64 \<Rightarrow> u8 list" where
  "be64 v = be32 (ucast (drop_bit 32 v)) @ be32 (ucast (v AND 0xFFFFFFFF))"

definition byte_of_char :: "char \<Rightarrow> u8" where
  "byte_of_char c = word_of_nat (of_char c)"

definition char_of_byte :: "u8 \<Rightarrow> char" where
  "char_of_byte b = char_of (unat b)"

definition write_string :: "string \<Rightarrow> u8 list" where
  "write_string s = be16 (word_of_nat (length s)) @ map byte_of_char s"

section \<open>Reading\<close>

fun word_of_be :: "'w::len word \<Rightarrow> u8 list \<Rightarrow> 'w word" where
  "word_of_be a [] = a"
| "word_of_be a (b # bs) = word_of_be (push_bit 8 a OR ucast b) bs"

definition read_bytes :: "fault \<Rightarrow> nat \<Rightarrow> u8 list reader" where
  "read_bytes f n bs = (if n \<le> length bs then Inr (take n bs, drop n bs) else Inl f)"

definition read_u8 :: "fault \<Rightarrow> u8 reader" where
  "read_u8 f bs = rbind (read_bytes f 1 bs) (\<lambda>(v, r). Inr (word_of_be 0 v, r))"

definition read_u16 :: "fault \<Rightarrow> u16 reader" where
  "read_u16 f bs = rbind (read_bytes f 2 bs) (\<lambda>(v, r). Inr (word_of_be 0 v, r))"

definition read_u32 :: "fault \<Rightarrow> u32 reader" where
  "read_u32 f bs = rbind (read_bytes f 4 bs) (\<lambda>(v, r). Inr (word_of_be 0 v, r))"

definition read_u64 :: "fault \<Rightarrow> u64 reader" where
  "read_u64 f bs =
     rbind (read_u32 f bs) (\<lambda>(high, r).
     rbind (read_u32 f r) (\<lambda>(low, r').
     Inr (push_bit 32 (ucast high) OR ucast low, r')))"

definition read_string :: "fault \<Rightarrow> string reader" where
  "read_string f bs =
     rbind (read_u16 f bs) (\<lambda>(slen, r).
     rbind (read_bytes f (unat slen) r) (\<lambda>(s, r').
     Inr (map char_of_byte s, r')))"

text \<open>A counted sequence: the \<^verbatim>\<open>for (i < count)\<close> loops around one reader.\<close>

fun read_many :: "'a reader \<Rightarrow> nat \<Rightarrow> 'a list reader" where
  "read_many rd 0 bs = Inr ([], bs)"
| "read_many rd (Suc n) bs =
     rbind (rd bs) (\<lambda>(x, r). rbind (read_many rd n r) (\<lambda>(xs, r'). Inr (x # xs, r')))"

section \<open>Integers survive\<close>

lemma word_of_be16: "word_of_be 0 (be16 v) = v"
  by (rule bit_word_eqI) (auto simp: be16_def bit_simps)

lemma word_of_be32: "word_of_be 0 (be32 v) = v"
proof (rule bit_word_eqI)
  fix n assume "n < LENGTH(32)"
  then consider "n < 8" | "8 \<le> n" "n < 16" | "16 \<le> n" "n < 24" | "24 \<le> n" "n < 32" by force
  then show "bit (word_of_be 0 (be32 v) :: u32) n = bit v n"
    by cases (auto simp: be32_def bit_simps)
qed

lemma length_be [simp]: "length (be16 v) = 2" "length (be32 w) = 4" "length (be64 x) = 8"
  by (simp_all add: be16_def be32_def be64_def)

lemma be64_halves: "(push_bit 32 (ucast (ucast (drop_bit 32 v) :: u32)) OR
    ucast (ucast (v AND 0xFFFFFFFF) :: u32) :: u64) = v"
proof -
  have "v AND 0xFFFFFFFF = take_bit 32 v" by (simp add: take_bit_eq_mask mask_eq_exp_minus_1)
  then show ?thesis
    by (intro bit_word_eqI) (auto simp: bit_simps)
qed

lemma char_of_byte_of_char [simp]: "char_of_byte (byte_of_char c) = c"
  by (simp add: char_of_byte_def byte_of_char_def unat_of_nat)

lemma map_char_of_byte [simp]: "map (char_of_byte \<circ> byte_of_char) s = s"
  by (simp add: comp_def)

named_theorems wire_read \<open>reading back what was written\<close>

lemma read_bytes_append [wire_read]:
  "length a = n \<Longrightarrow> read_bytes f n (a @ rest) = Inr (a, rest)"
  by (simp add: read_bytes_def)

lemma read_u8_Cons [wire_read]: "read_u8 f (b # rest) = Inr (b, rest)"
  by (simp add: read_u8_def read_bytes_def)

lemma read_u16_be [wire_read]: "read_u16 f (be16 v @ rest) = Inr (v, rest)"
  by (simp add: read_u16_def read_bytes_append word_of_be16)

lemma read_u32_be [wire_read]: "read_u32 f (be32 v @ rest) = Inr (v, rest)"
  by (simp add: read_u32_def read_bytes_append word_of_be32)

lemma read_u64_be [wire_read]: "read_u64 f (be64 v @ rest) = Inr (v, rest)"
  by (simp add: read_u64_def be64_def read_u32_be be64_halves)

lemma read_string_write [wire_read]:
  "length s < 2 ^ 16 \<Longrightarrow> read_string f (write_string s @ rest) = Inr (s, rest)"
  by (simp add: read_string_def write_string_def read_u16_be read_bytes_append unat_of_nat)

section \<open>Truncated input fails\<close>

definition fails :: "fault \<Rightarrow> fault + 'a \<Rightarrow> bool" where
  "fails f r \<longleftrightarrow> r = Inl f"

lemma fails_Inl [simp]: "fails f (Inl f)"
  by (simp add: fails_def)

lemma fails_rbind: "fails f r \<Longrightarrow> fails f (rbind r k)"
  by (simp add: fails_def)

lemma strict_prefix_append_cases:
  assumes "strict_prefix p (a @ b)"
  obtains "strict_prefix p a" | q where "p = a @ q" and "strict_prefix q b"
proof -
  have p: "prefix p (a @ b)" "p \<noteq> a @ b" using assms by (simp_all add: strict_prefix_def)
  from p(1) consider "prefix p a" "p \<noteq> a" | us where "p = a @ us" "prefix us b"
    unfolding prefix_append by force
  then show ?thesis
    using that p(2) by cases (auto simp: strict_prefix_def)
qed

text \<open>A step of a reader that runs over two pieces fails on every proper prefix of the two.\<close>

lemma fails_step:
  assumes p: "strict_prefix p (a @ b)"
    and a: "\<And>q. strict_prefix q a \<Longrightarrow> fails f (rd q)"
    and ok: "\<And>r. rd (a @ r) = Inr (x, r)"
    and b: "\<And>q. strict_prefix q b \<Longrightarrow> fails f (k (x, q))"
  shows "fails f (rbind (rd p) k)"
  using p
proof (cases rule: strict_prefix_append_cases)
  case 1
  then show ?thesis by (rule fails_rbind [OF a])
next
  case (2 q)
  then show ?thesis using ok b by simp
qed

text \<open>The same for the last piece.\<close>

lemma fails_last:
  assumes "strict_prefix p a" and "\<And>q. strict_prefix q a \<Longrightarrow> fails f (rd q)"
  shows "fails f (rbind (rd p) k)"
  using assms by (intro fails_rbind) blast

lemma strict_prefix_length: "strict_prefix p a \<Longrightarrow> length p < length a"
  by (rule prefix_length_less)

lemma read_bytes_short: "length p < n \<Longrightarrow> fails f (read_bytes f n p)"
  by (simp add: read_bytes_def)

named_theorems wire_short \<open>a proper prefix of what was written is refused\<close>

lemma read_u8_short [wire_short]: "strict_prefix p [b] \<Longrightarrow> fails f (read_u8 f p)"
  using strict_prefix_length [of p "[b]"]
  by (auto simp: read_u8_def intro!: fails_rbind read_bytes_short)

lemma read_u16_short [wire_short]: "strict_prefix p (be16 v) \<Longrightarrow> fails f (read_u16 f p)"
  using strict_prefix_length [of p "be16 v"]
  by (auto simp: read_u16_def intro!: fails_rbind read_bytes_short)

lemma read_u32_short [wire_short]: "strict_prefix p (be32 v) \<Longrightarrow> fails f (read_u32 f p)"
  using strict_prefix_length [of p "be32 v"]
  by (auto simp: read_u32_def intro!: fails_rbind read_bytes_short)

lemma read_u64_short [wire_short]:
  assumes "strict_prefix p (be64 v)" shows "fails f (read_u64 f p)"
  unfolding read_u64_def
  by (rule fails_step [OF assms [unfolded be64_def]])
     (auto intro: wire_short fails_rbind simp: wire_read)

lemma read_bytes_strict_short: "strict_prefix p a \<Longrightarrow> length a = n \<Longrightarrow> fails f (read_bytes f n p)"
  using strict_prefix_length [of p a] by (auto intro!: read_bytes_short)

lemma read_string_short [wire_short]:
  assumes "strict_prefix p (write_string s)" and "length s < 2 ^ 16"
  shows "fails f (read_string f p)"
  unfolding read_string_def
proof (rule fails_step [OF assms(1) [unfolded write_string_def]])
  fix q assume "strict_prefix q (map byte_of_char s)"
  then show "fails f ((\<lambda>(slen, r). rbind (read_bytes f (unat slen) r)
      (\<lambda>(s, r'). Inr (map char_of_byte s, r'))) (word_of_nat (length s) :: u16, q))"
    using assms(2) by (auto intro!: fails_rbind read_bytes_strict_short simp: unat_of_nat)
qed (simp_all add: wire_read wire_short)

section \<open>Codecs\<close>

text \<open>
  The contract between a writer and a reader of one kind of value. \<open>norm\<close> is what a value
  looks like after the trip (the wire is allowed to lose something, and the law says exactly what);
  \<open>f\<close> is how the reader fails when the input ends early.
\<close>

locale codec =
  fixes enc :: "'a \<Rightarrow> u8 list" and dec :: "'a reader" and valid :: "'a \<Rightarrow> bool"
    and norm :: "'a \<Rightarrow> 'a" and f :: fault
  assumes round_trip: "valid x \<Longrightarrow> dec (enc x @ rest) = Inr (norm x, rest)"
    and short: "valid x \<Longrightarrow> strict_prefix p (enc x) \<Longrightarrow> fails f (dec p)"
begin

lemma many_round_trip:
  assumes "\<And>x. x \<in> set xs \<Longrightarrow> valid x"
  shows "read_many dec (length xs) (concat (map enc xs) @ rest) = Inr (map norm xs, rest)"
  using assms by (induction xs) (auto simp: round_trip)

lemma many_short:
  assumes "\<And>x. x \<in> set xs \<Longrightarrow> valid x" and "strict_prefix p (concat (map enc xs))"
  shows "fails f (read_many dec (length xs) p)"
  using assms
proof (induction xs arbitrary: p)
  case (Cons x xs)
  have "strict_prefix p (enc x @ concat (map enc xs))" using Cons.prems(2) by simp
  then have "fails f (rbind (dec p) (\<lambda>(y, r).
      rbind (read_many dec (length xs) r) (\<lambda>(ys, r'). Inr (y # ys, r'))))"
  proof (rule fails_step)
    fix q assume "strict_prefix q (concat (map enc xs))"
    then show "fails f ((\<lambda>(y, r). rbind (read_many dec (length xs) r) (\<lambda>(ys, r'). Inr (y # ys, r'))) (norm x, q))"
      using Cons.IH Cons.prems(1) by (auto intro!: fails_rbind)
  qed (use Cons.prems(1) [of x] round_trip short in simp_all)
  then show ?case by simp
qed simp

text \<open>A codec is injective up to what it loses, and no encoding is a proper prefix of another.\<close>

lemma enc_inject: "valid x \<Longrightarrow> valid y \<Longrightarrow> enc x = enc y \<Longrightarrow> norm x = norm y"
  using round_trip [of x "[]"] round_trip [of y "[]"] by simp

lemma enc_prefix_free: "valid x \<Longrightarrow> valid y \<Longrightarrow> \<not> strict_prefix (enc x) (enc y)"
  using round_trip [of x "[]"] short [of y "enc x"] by (auto simp: fails_def)

end

text \<open>The strings of the wire format meet the contract.\<close>

interpretation string_codec: codec write_string "read_string f" "\<lambda>s. length s < 2 ^ 16" "\<lambda>s. s" f
  by unfold_locales (auto simp: wire_read wire_short)

end
