(* ===== verification/VectorClock.thy ===== *)
theory VectorClock
  imports Bytes
begin

text \<open>
  Vector clocks (\<^verbatim>\<open>crdt/vector_clock.cpp\<close>): the clock's map, its operations with their
  loops, the pointwise order they implement, and the binary form. An absent entry counts as 0.
\<close>

section \<open>State and operations\<close>

record vector_clock =
  vc_node :: string
  vc_clock :: "(string \<times> u64) list"

definition default_clock :: vector_clock where
  "default_clock = \<lparr>vc_node = [], vc_clock = []\<rparr>"

definition new_clock :: "string \<Rightarrow> vector_clock" where
  "new_clock nid = \<lparr>vc_node = nid, vc_clock = [(nid, 0)]\<rparr>"

definition entry :: "(string \<times> u64) list \<Rightarrow> string \<Rightarrow> u64" where
  "entry m k = (case map_of m k of None \<Rightarrow> 0 | Some v \<Rightarrow> v)"

text \<open>\<^verbatim>\<open>return ++clock_[node_id_]\<close>, wrapping at 64 bits.\<close>

definition tick :: "vector_clock \<Rightarrow> vector_clock \<times> u64" where
  "tick vc =
     (let v = entry (vc_clock vc) (vc_node vc) + 1
      in (vc\<lparr>vc_clock := AList.update (vc_node vc) v (vc_clock vc)\<rparr>, v))"

fun merge_entries :: "(string \<times> u64) list \<Rightarrow> (string \<times> u64) list \<Rightarrow> (string \<times> u64) list" where
  "merge_entries m [] = m"
| "merge_entries m ((k, v) # xs) = merge_entries (AList.update k (max (entry m k) v) m) xs"

definition merge :: "vector_clock \<Rightarrow> vector_clock \<Rightarrow> vector_clock" where
  "merge vc other = vc\<lparr>vc_clock := merge_entries (vc_clock vc) (vc_clock other)\<rparr>"

text \<open>
  The first loop of \<^verbatim>\<open>happens_before\<close> returns false from the middle (\<open>None\<close>) or ends
  with the flag; the second loop looks for entries this clock does not have.
\<close>

fun compare_entries :: "(string \<times> u64) list \<Rightarrow> (string \<times> u64) list \<Rightarrow> bool \<Rightarrow> bool option" where
  "compare_entries [] other strict = Some strict"
| "compare_entries ((k, v) # xs) other strict =
     (let other_val = entry other k
      in if v > other_val then None
         else compare_entries xs other (strict \<or> v < other_val))"

fun missing_entries :: "(string \<times> u64) list \<Rightarrow> (string \<times> u64) list \<Rightarrow> bool \<Rightarrow> bool" where
  "missing_entries ours [] strict = strict"
| "missing_entries ours ((k, v) # xs) strict =
     missing_entries ours xs (strict \<or> map_of ours k = None \<and> v > 0)"

definition happens_before :: "vector_clock \<Rightarrow> vector_clock \<Rightarrow> bool" where
  "happens_before vc other =
     (case compare_entries (vc_clock vc) (vc_clock other) False of
        None \<Rightarrow> False
      | Some strict \<Rightarrow> missing_entries (vc_clock vc) (vc_clock other) strict)"

definition is_concurrent :: "vector_clock \<Rightarrow> vector_clock \<Rightarrow> bool" where
  "is_concurrent vc other \<longleftrightarrow> \<not> happens_before vc other \<and> \<not> happens_before other vc"

definition get_local_time :: "vector_clock \<Rightarrow> u64" where
  "get_local_time vc = entry (vc_clock vc) (vc_node vc)"

text \<open>\<^verbatim>\<open>a.get_clock() == b.get_clock()\<close> on hash maps: the same keys with the same values.\<close>

definition same_entries :: "(string \<times> u64) list \<Rightarrow> (string \<times> u64) list \<Rightarrow> bool" where
  "same_entries m m' \<longleftrightarrow>
     list_all (\<lambda>(k, v). map_of m' k = map_of m k) m \<and> list_all (\<lambda>(k, v). map_of m k = map_of m' k) m'"

section \<open>The order on clocks\<close>

text \<open>A clock denotes the function from node ids to counters.\<close>

definition clock_fun :: "vector_clock \<Rightarrow> string \<Rightarrow> u64" where
  "clock_fun vc = entry (vc_clock vc)"

definition clock_inv :: "vector_clock \<Rightarrow> bool" where
  "clock_inv vc \<longleftrightarrow> distinct (map fst (vc_clock vc))"

lemma entry_update [simp]: "entry (AList.update k v m) = (entry m)(k := v)"
  by (rule ext) (simp add: entry_def)

lemma entry_Nil [simp]: "entry [] k = 0"
  by (simp add: entry_def)

lemma clock_inv_new: "clock_inv (new_clock nid)"
  by (simp add: clock_inv_def new_clock_def)

lemma clock_inv_tick: "clock_inv vc \<Longrightarrow> clock_inv (fst (tick vc))"
  by (simp add: clock_inv_def tick_def Let_def)

lemma clock_fun_tick:
  "clock_fun (fst (tick vc)) = (clock_fun vc)(vc_node vc := clock_fun vc (vc_node vc) + 1)"
  by (simp add: clock_fun_def tick_def Let_def)

lemma vc_node_tick [simp]: "vc_node (fst (tick vc)) = vc_node vc"
  by (simp add: tick_def Let_def)

lemma distinct_merge_entries:
  "distinct (map fst m) \<Longrightarrow> distinct (map fst (merge_entries m xs))"
  by (induction m xs rule: merge_entries.induct) simp_all

lemma clock_inv_merge: "clock_inv vc \<Longrightarrow> clock_inv (merge vc other)"
  by (simp add: clock_inv_def merge_def distinct_merge_entries)

lemma vc_node_merge [simp]: "vc_node (merge vc other) = vc_node vc"
  by (simp add: merge_def)

lemma entry_merge_entries:
  "distinct (map fst xs) \<Longrightarrow> entry (merge_entries m xs) k = max (entry m k) (entry xs k)"
proof (induction m xs rule: merge_entries.induct)
  case (2 m k' v xs)
  have absent: "entry xs k' = 0"
    using 2(2) by (simp add: entry_def map_of_eq_None_iff [THEN iffD2])
  have cons: "entry ((k', v) # xs) = (entry xs)(k' := v)"
    by (rule ext) (simp add: entry_def)
  have "entry (merge_entries m ((k', v) # xs)) k =
      max (((entry m)(k' := max (entry m k') v)) k) (entry xs k)"
    using 2 by simp
  then show ?case
    by (cases "k = k'") (simp_all add: cons absent max_def)
qed (simp add: max_def)

lemma clock_fun_merge:
  "clock_inv other \<Longrightarrow> clock_fun (merge vc other) = (\<lambda>k. max (clock_fun vc k) (clock_fun other k))"
  by (rule ext) (simp add: clock_fun_def merge_def clock_inv_def entry_merge_entries)

lemma compare_entries_None:
  "compare_entries xs other strict = None \<longleftrightarrow> (\<exists>(k, v) \<in> set xs. entry other k < v)"
  by (induction xs other strict rule: compare_entries.induct) (auto simp: Let_def)

lemma compare_entries_Some:
  "compare_entries xs other strict = Some r \<longleftrightarrow>
     (\<forall>(k, v) \<in> set xs. v \<le> entry other k) \<and>
     r = (strict \<or> (\<exists>(k, v) \<in> set xs. v < entry other k))"
  by (induction xs other strict arbitrary: r rule: compare_entries.induct) (auto simp: Let_def)

lemma missing_entries_iff:
  "missing_entries ours xs strict \<longleftrightarrow> strict \<or> (\<exists>(k, v) \<in> set xs. map_of ours k = None \<and> 0 < v)"
  by (induction ours xs strict rule: missing_entries.induct) auto

lemma entry_in: "distinct (map fst m) \<Longrightarrow> (k, v) \<in> set m \<Longrightarrow> entry m k = v"
  by (simp add: entry_def)

lemma entry_cases:
  obtains v where "(k, v) \<in> set m" and "entry m k = v" | "map_of m k = None" and "entry m k = 0"
  by (cases "map_of m k") (auto simp: entry_def dest: map_of_SomeD)

lemma entry_absent_zero: "\<not> (\<exists>v. (k, v) \<in> set m \<and> entry m k = v) \<Longrightarrow> entry m k = 0"
  by (metis entry_cases)

lemma happens_before_le:
  assumes "clock_inv a" and "clock_inv b" and "happens_before a b"
  shows "clock_fun a < clock_fun b"
proof -
  obtain strict where c: "compare_entries (vc_clock a) (vc_clock b) False = Some strict"
    and m: "missing_entries (vc_clock a) (vc_clock b) strict"
    using assms(3) by (auto simp: happens_before_def split: option.splits)
  have le: "clock_fun a k \<le> clock_fun b k" for k
    using c entry_cases [of k "vc_clock a"] unfolding compare_entries_Some clock_fun_def
    by (metis (mono_tags, lifting) case_prodD word_zero_le)
  from m consider k v where "(k, v) \<in> set (vc_clock a)" "v < entry (vc_clock b) k"
    | k v where "(k, v) \<in> set (vc_clock b)" "map_of (vc_clock a) k = None" "0 < v"
    using c unfolding missing_entries_iff compare_entries_Some by auto
  then have "\<exists>k. clock_fun a k < clock_fun b k"
  proof cases
    case 1
    then have "clock_fun a k < clock_fun b k"
      using assms(1) entry_in [of "vc_clock a" k v] by (simp add: clock_fun_def clock_inv_def)
    then show ?thesis by blast
  next
    case 2
    have "clock_fun a k = 0" using 2(2) by (simp add: clock_fun_def entry_def)
    moreover have "clock_fun b k = v"
      using 2(1) assms(2) by (simp add: clock_fun_def clock_inv_def entry_in)
    ultimately have "clock_fun a k < clock_fun b k" using 2(3) by simp
    then show ?thesis by blast
  qed
  with le show ?thesis by (auto simp: less_fun_def le_fun_def not_le)
qed

lemma less_happens_before:
  assumes "clock_inv a" and "clock_inv b" and "clock_fun a < clock_fun b"
  shows "happens_before a b"
proof -
  have le: "entry (vc_clock a) k \<le> entry (vc_clock b) k" for k
    using assms(3) by (auto simp: less_fun_def le_fun_def clock_fun_def)
  obtain k where k: "entry (vc_clock a) k < entry (vc_clock b) k"
    using assms(3) by (auto simp: less_fun_def le_fun_def clock_fun_def not_le)
  have "\<forall>(k, v) \<in> set (vc_clock a). v \<le> entry (vc_clock b) k"
    using le assms(1) by (auto simp: clock_inv_def) (metis entry_in)
  then obtain strict where c: "compare_entries (vc_clock a) (vc_clock b) False = Some strict"
    and strict: "strict \<longleftrightarrow> (\<exists>(k, v) \<in> set (vc_clock a). v < entry (vc_clock b) k)"
    using compare_entries_Some [of "vc_clock a" "vc_clock b" False] by auto
  have "missing_entries (vc_clock a) (vc_clock b) strict"
  proof (rule entry_cases [of k "vc_clock a"])
    fix v assume "(k, v) \<in> set (vc_clock a)" "entry (vc_clock a) k = v"
    with k strict show ?thesis by (auto simp: missing_entries_iff)
  next
    assume none: "map_of (vc_clock a) k = None" "entry (vc_clock a) k = 0"
    have "(k, entry (vc_clock b) k) \<in> set (vc_clock b)"
      using k none by (metis entry_cases less_irrefl)
    with k none show ?thesis by (auto simp: missing_entries_iff)
  qed
  with c show ?thesis by (simp add: happens_before_def)
qed

section \<open>Binary form\<close>

definition write_entry :: "string \<times> u64 \<Rightarrow> u8 list" where
  "write_entry e = write_string (fst e) @ be64 (snd e)"

definition vc_serialize :: "vector_clock \<Rightarrow> u8 list" where
  "vc_serialize vc =
     write_string (vc_node vc) @ be32 (word_of_nat (length (vc_clock vc))) @
     concat (map write_entry (vc_clock vc))"

definition read_entry :: "fault \<Rightarrow> (string \<times> u64) reader" where
  "read_entry f bs =
     rbind (read_string f bs) (\<lambda>(k, r).
     rbind (read_u64 f r) (\<lambda>(v, r').
     Inr ((k, v), r')))"

text \<open>
  The loop of \<^verbatim>\<open>deserialize\<close>. It reads through a bare pointer: its argument here is
  the whole memory of the buffer from that pointer on, and leaving it is \<open>OutOfBounds\<close>.
\<close>

fun read_entries :: "nat \<Rightarrow> (string \<times> u64) list \<Rightarrow> (string \<times> u64) list reader" where
  "read_entries 0 m bs = Inr (m, bs)"
| "read_entries (Suc n) m bs =
     rbind (read_entry OutOfBounds bs) (\<lambda>((k, v), r). read_entries n (AList.update k v m) r)"

definition vc_deserialize :: "vector_clock reader" where
  "vc_deserialize bs =
     rbind (read_string OutOfBounds bs) (\<lambda>(nid, r).
     rbind (read_u32 OutOfBounds r) (\<lambda>(cnt, r').
     rbind (read_entries (unat cnt) (vc_clock (new_clock nid)) r') (\<lambda>(m, r'').
     Inr ((new_clock nid)\<lparr>vc_clock := m\<rparr>, r''))))"

interpretation entry_codec: codec write_entry "read_entry f" "\<lambda>e. length (fst e) < 2 ^ 16" "\<lambda>e. e" f
proof unfold_locales
  fix e :: "string \<times> u64" and p
  assume "length (fst e) < 2 ^ 16" and p: "strict_prefix p (write_entry e)"
  then show "fails f (read_entry f p)"
    unfolding read_entry_def
    by (intro fails_step [OF p [unfolded write_entry_def]])
       (auto intro: wire_short fails_rbind simp: wire_read)
qed (simp add: read_entry_def write_entry_def wire_read)

fun assign_entries :: "(string \<times> u64) list \<Rightarrow> (string \<times> u64) list \<Rightarrow> (string \<times> u64) list" where
  "assign_entries m [] = m"
| "assign_entries m ((k, v) # xs) = assign_entries (AList.update k v m) xs"

lemma read_entries_many:
  "read_entries n m bs =
     rbind (read_many (read_entry OutOfBounds) n bs) (\<lambda>(es, r). Inr (assign_entries m es, r))"
  by (induction n m bs rule: read_entries.induct)
     (auto simp: rbind_def split: sum.splits prod.splits)

text \<open>What comes back: the entries assigned, in order, to a fresh clock.\<close>

definition received_clock :: "vector_clock \<Rightarrow> vector_clock" where
  "received_clock vc = vc\<lparr>vc_clock := assign_entries [(vc_node vc, 0)] (vc_clock vc)\<rparr>"

definition clock_wire_ok :: "vector_clock \<Rightarrow> bool" where
  "clock_wire_ok vc \<longleftrightarrow>
     length (vc_node vc) < 2 ^ 16 \<and> length (vc_clock vc) < 2 ^ 32 \<and>
     list_all (\<lambda>e. length (fst e) < 2 ^ 16) (vc_clock vc) \<and> length (vc_serialize vc) < 2 ^ 32"

lemma clock_entries_round_trip:
  "clock_wire_ok vc \<Longrightarrow>
   read_entries (length (vc_clock vc)) m (concat (map write_entry (vc_clock vc)) @ rest) =
     Inr (assign_entries m (vc_clock vc), rest)"
  by (subst read_entries_many, subst entry_codec.many_round_trip)
     (auto simp: clock_wire_ok_def list_all_iff)

lemma clock_entries_short:
  "clock_wire_ok vc \<Longrightarrow> strict_prefix q (concat (map write_entry (vc_clock vc))) \<Longrightarrow>
   fails OutOfBounds (read_entries (length (vc_clock vc)) m q)"
  unfolding read_entries_many
  by (intro fails_rbind entry_codec.many_short) (auto simp: clock_wire_ok_def list_all_iff)

lemma clock_tail_short:
  assumes "clock_wire_ok vc"
    and q: "strict_prefix q (be32 (word_of_nat (length (vc_clock vc))) @
        concat (map write_entry (vc_clock vc)))"
  shows "fails OutOfBounds (rbind (read_u32 OutOfBounds q) (\<lambda>(cnt, r').
     rbind (read_entries (unat cnt) m r') (\<lambda>(m, r''). Inr (h m, r''))))"
proof (rule fails_step [OF q])
  fix q' assume "strict_prefix q' (concat (map write_entry (vc_clock vc)))"
  moreover have "unat (word_of_nat (length (vc_clock vc)) :: u32) = length (vc_clock vc)"
    using assms(1) by (simp add: clock_wire_ok_def unat_of_nat)
  ultimately show "fails OutOfBounds ((\<lambda>(cnt, r'). rbind (read_entries (unat cnt) m r')
      (\<lambda>(m, r''). Inr (h m, r''))) (word_of_nat (length (vc_clock vc)) :: u32, q'))"
    using assms(1) by (auto intro!: fails_rbind clock_entries_short)
qed (auto simp: wire_read wire_short)

interpretation clock_codec: codec vc_serialize vc_deserialize clock_wire_ok received_clock OutOfBounds
proof unfold_locales
  fix vc :: vector_clock and rest
  assume "clock_wire_ok vc"
  then show "vc_deserialize (vc_serialize vc @ rest) = Inr (received_clock vc, rest)"
    using clock_entries_round_trip [of vc "[(vc_node vc, 0)]" rest]
    by (simp add: vc_deserialize_def vc_serialize_def wire_read clock_wire_ok_def unat_of_nat
        new_clock_def received_clock_def)
next
  fix vc :: vector_clock and p
  assume ok: "clock_wire_ok vc" and p: "strict_prefix p (vc_serialize vc)"
  show "fails OutOfBounds (vc_deserialize p)"
    unfolding vc_deserialize_def
    by (rule fails_step [OF p [unfolded vc_serialize_def]])
       (use ok in \<open>auto simp: clock_wire_ok_def wire_read wire_short
          intro: clock_tail_short [OF ok]\<close>)
qed

lemma entry_assign_entries:
  "distinct (map fst xs) \<Longrightarrow>
   entry (assign_entries m xs) k = (if k \<in> fst ` set xs then entry xs k else entry m k)"
proof (induction m xs rule: assign_entries.induct)
  case (2 m k' v xs)
  have "entry ((k', v) # xs) = (entry xs)(k' := v)" by (rule ext) (simp add: entry_def)
  with 2 show ?case by auto
qed simp

lemma distinct_assign_entries:
  "distinct (map fst m) \<Longrightarrow> distinct (map fst (assign_entries m xs))"
  by (induction m xs rule: assign_entries.induct) simp_all

lemma entry_absent: "k \<notin> fst ` set m \<Longrightarrow> entry m k = 0"
  by (simp add: entry_def map_of_eq_None_iff [THEN iffD2])

lemma clock_fun_received: "clock_inv vc \<Longrightarrow> clock_fun (received_clock vc) = clock_fun vc"
proof (rule ext)
  fix k assume "clock_inv vc"
  moreover have "entry [(vc_node vc, 0)] k = 0" by (simp add: entry_def)
  ultimately show "clock_fun (received_clock vc) k = clock_fun vc k"
    by (simp add: clock_fun_def received_clock_def clock_inv_def entry_assign_entries entry_absent)
qed

lemma clock_inv_received: "clock_inv (received_clock vc)"
  by (simp add: clock_inv_def received_clock_def distinct_assign_entries)

lemma vc_node_received [simp]: "vc_node (received_clock vc) = vc_node vc"
  by (simp add: received_clock_def)

lemma happens_before_iff:
  "clock_inv a \<Longrightarrow> clock_inv b \<Longrightarrow> happens_before a b \<longleftrightarrow> clock_fun a < clock_fun b"
  using happens_before_le less_happens_before by blast

lemma local_time: "get_local_time vc = clock_fun vc (vc_node vc)"
  by (simp add: get_local_time_def clock_fun_def)

lemma word_less_add_1: "(x :: u64) < x + 1 \<longleftrightarrow> x < 2 ^ 64 - 1"
proof -
  have top: "(2 ^ 64 - 1 :: u64) = - 1" by simp
  have "x < x + 1 \<longleftrightarrow> x \<noteq> - 1"
    using unatSuc [of x] by (auto simp: eq_neg_iff_add_eq_0 word_less_nat_alt add.commute)
  then show ?thesis unfolding top word_order.not_eq_extremum .
qed

lemma tick_strict:
  "clock_fun vc < clock_fun (fst (tick vc)) \<longleftrightarrow> get_local_time vc < 2 ^ 64 - 1"
  unfolding word_less_add_1 [symmetric]
  by (auto simp: less_fun_def le_fun_def clock_fun_tick local_time not_le split: if_splits)

lemma same_entries_iff:
  assumes "distinct (map fst m)" and "distinct (map fst m')"
  shows "same_entries m m' \<longleftrightarrow> map_of m = map_of m'"
proof
  assume same: "same_entries m m'"
  show "map_of m = map_of m'"
  proof (rule ext)
    fix k
    have "map_of m' k = map_of m k" if "map_of m k = Some v" for v
      using same map_of_SomeD [OF that] by (auto simp: same_entries_def list_all_iff)
    moreover have "map_of m k = map_of m' k" if "map_of m' k = Some v" for v
      using same map_of_SomeD [OF that] by (auto simp: same_entries_def list_all_iff)
    ultimately show "map_of m k = map_of m' k"
      by (metis option.exhaust)
  qed
qed (simp add: same_entries_def list_all_iff)

lemma map_of_assign_entries:
  "distinct (map fst xs) \<Longrightarrow> map_of (assign_entries m xs) = map_of m ++ map_of xs"
proof (induction m xs rule: assign_entries.induct)
  case (2 m k v xs)
  then show ?case by (auto simp: map_add_def fun_eq_iff map_of_eq_None_iff split: option.splits)
qed simp

lemma received_same_entries:
  assumes "vc_node vc \<in> fst ` set (vc_clock vc)" and "clock_inv vc"
  shows "same_entries (vc_clock (received_clock vc)) (vc_clock vc)"
proof -
  have d: "distinct (map fst (vc_clock vc))" using assms(2) by (simp add: clock_inv_def)
  have "map_of [(vc_node vc, 0)] ++ map_of (vc_clock vc) = map_of (vc_clock vc)"
    using assms(1) weak_map_of_SomeI [of "vc_node vc" _ "vc_clock vc"]
    by (auto simp: map_add_def fun_eq_iff split: option.splits)
  then have "map_of (vc_clock (received_clock vc)) = map_of (vc_clock vc)"
    using d by (simp add: received_clock_def map_of_assign_entries)
  then show ?thesis
    using d clock_inv_received [of vc] by (simp add: same_entries_iff clock_inv_def)
qed

section \<open>Properties\<close>

definition clock_of :: "string \<Rightarrow> (string \<times> u64) list \<Rightarrow> vector_clock" where
  "clock_of nid m = \<lparr>vc_node = nid, vc_clock = m\<rparr>"

text \<open>\<^verbatim>\<open>happens_before\<close> is the strict pointwise order on the counters, absent
  entries read as 0, whatever the iteration order of the hash maps; two clocks are concurrent
  exactly when neither is pointwise below the other or they are equal; so the order is transitive
  and never holds both ways.\<close>
theorem happens_before_pointwise:
  assumes "clock_inv a" and "clock_inv b" and "clock_inv c"
  shows "(happens_before a b \<longleftrightarrow> clock_fun a < clock_fun b) \<and>
    (is_concurrent a b \<longleftrightarrow>
       clock_fun a = clock_fun b \<or> \<not> clock_fun a \<le> clock_fun b \<and> \<not> clock_fun b \<le> clock_fun a) \<and>
    (happens_before a b \<longrightarrow> happens_before b c \<longrightarrow> happens_before a c) \<and>
    \<not> (happens_before a b \<and> happens_before b a)"
  using happens_before_iff assms
  by (auto simp: is_concurrent_def less_le intro: order.trans dest: order.antisym)

theorem happens_before_pointwise_witness:
  "happens_before (clock_of ''a'' [(''a'', 1)]) (clock_of ''b'' [(''b'', 2), (''a'', 1)]) \<and>
   clock_fun (clock_of ''a'' [(''a'', 1)]) < clock_fun (clock_of ''b'' [(''b'', 2), (''a'', 1)]) \<and>
   is_concurrent (clock_of ''a'' [(''a'', 2)]) (clock_of ''b'' [(''b'', 2), (''a'', 1)])"
proof -
  have inv: "clock_inv (clock_of ''a'' [(''a'', 1)])" "clock_inv (clock_of ''a'' [(''a'', 2)])"
    "clock_inv (clock_of ''b'' [(''b'', 2), (''a'', 1)])"
    by code_simp+
  have "happens_before (clock_of ''a'' [(''a'', 1)]) (clock_of ''b'' [(''b'', 2), (''a'', 1)])"
    "is_concurrent (clock_of ''a'' [(''a'', 2)]) (clock_of ''b'' [(''b'', 2), (''a'', 1)])"
    by code_simp+
  with happens_before_pointwise [OF inv(1,3,3)] show ?thesis by blast
qed

text \<open>Merging takes the least upper bound: the merged clock dominates both clocks, is
  below every clock that does, keeps the owner and the map's distinct keys; hence merging is
  commutative, associative and idempotent on what the clocks say.\<close>
theorem merge_least_upper_bound:
  assumes "clock_inv a" and "clock_inv b" and "clock_inv c"
  shows "clock_fun a \<le> clock_fun (merge a b) \<and> clock_fun b \<le> clock_fun (merge a b) \<and>
    (clock_fun a \<le> clock_fun c \<longrightarrow> clock_fun b \<le> clock_fun c \<longrightarrow> clock_fun (merge a b) \<le> clock_fun c) \<and>
    clock_inv (merge a b) \<and> vc_node (merge a b) = vc_node a \<and>
    clock_fun (merge a b) = clock_fun (merge b a) \<and>
    clock_fun (merge (merge a b) c) = clock_fun (merge a (merge b c)) \<and>
    clock_fun (merge a a) = clock_fun a"
  using assms
  by (auto simp: clock_fun_merge clock_inv_merge le_fun_def max.commute max.left_commute)

theorem merge_least_upper_bound_witness:
  "clock_fun (merge (clock_of ''a'' [(''a'', 2)]) (clock_of ''b'' [(''b'', 3), (''a'', 1)])) =
     clock_fun (merge (clock_of ''b'' [(''b'', 3), (''a'', 1)]) (clock_of ''a'' [(''a'', 2)])) \<and>
   merge (clock_of ''a'' [(''a'', 2)]) (clock_of ''b'' [(''b'', 3), (''a'', 1)]) =
     clock_of ''a'' [(''a'', 2), (''b'', 3)]"
proof -
  have inv: "clock_inv (clock_of ''a'' [(''a'', 2)])" "clock_inv (clock_of ''b'' [(''b'', 3), (''a'', 1)])"
    by code_simp+
  have "merge (clock_of ''a'' [(''a'', 2)]) (clock_of ''b'' [(''b'', 3), (''a'', 1)]) =
     clock_of ''a'' [(''a'', 2), (''b'', 3)]"
    by code_simp
  with merge_least_upper_bound [OF inv(1,2,2)] show ?thesis by blast
qed

text \<open>C32: a tick below the counter's limit moves a clock strictly forward and only in its
  owner's entry, and returns the new local time; a clock that merges another one and then ticks
  is strictly after both (the receive rule of a vector clock). At the limit of 64 bits the counter
  wraps to 0 and the clock no longer moves forward.\<close>
theorem tick_moves_forward:
  assumes "clock_inv a" and "clock_inv b" and "tick a = (a', t)"
  shows "t = get_local_time a + 1 \<and> get_local_time a' = t \<and>
    (\<forall>k. k \<noteq> vc_node a \<longrightarrow> clock_fun a' k = clock_fun a k) \<and>
    (get_local_time a < 2 ^ 64 - 1 \<longleftrightarrow> happens_before a a') \<and>
    (get_local_time (merge a b) < 2 ^ 64 - 1 \<longrightarrow>
       happens_before a (fst (tick (merge a b))) \<and> happens_before b (fst (tick (merge a b))))"
proof -
  have a': "a' = fst (tick a)" and t: "t = snd (tick a)" using assms(3) by simp_all
  have "happens_before b (fst (tick (merge a b)))" "happens_before a (fst (tick (merge a b)))"
    if "get_local_time (merge a b) < 2 ^ 64 - 1"
  proof -
    have "clock_fun (merge a b) < clock_fun (fst (tick (merge a b)))"
      using that by (simp add: tick_strict)
    moreover have "clock_fun a \<le> clock_fun (merge a b)" "clock_fun b \<le> clock_fun (merge a b)"
      using assms by (simp_all add: clock_fun_merge le_fun_def)
    ultimately show "happens_before b (fst (tick (merge a b)))"
      "happens_before a (fst (tick (merge a b)))"
      using assms by (auto simp: happens_before_iff clock_inv_tick clock_inv_merge)
  qed
  moreover have "get_local_time a < 2 ^ 64 - 1 \<longleftrightarrow> happens_before a a'"
    using assms(1) by (simp add: a' happens_before_iff clock_inv_tick tick_strict)
  moreover have "t = get_local_time a + 1"
    by (simp add: t tick_def get_local_time_def Let_def)
  ultimately show ?thesis
    by (simp add: a' local_time clock_fun_tick)
qed

theorem tick_moves_forward_witness:
  "happens_before (clock_of ''a'' [(''a'', 7)]) (fst (tick (clock_of ''a'' [(''a'', 7)]))) \<and>
   snd (tick (clock_of ''a'' [(''a'', 7)])) = 8 \<and>
   \<not> happens_before (clock_of ''a'' [(''a'', - 1)]) (fst (tick (clock_of ''a'' [(''a'', - 1)])))"
proof -
  have inv: "clock_inv (clock_of ''a'' [(''a'', 7)])" "clock_inv (clock_of ''a'' [(''a'', - 1)])"
    by code_simp+
  have t: "get_local_time (clock_of ''a'' [(''a'', 7)]) = 7"
    "\<not> get_local_time (clock_of ''a'' [(''a'', - 1)]) < 2 ^ 64 - 1"
    by (simp_all add: get_local_time_def clock_of_def entry_def)
  show ?thesis
    using tick_moves_forward [OF inv(1,1) surjective_pairing]
      tick_moves_forward [OF inv(2,2) surjective_pairing] t by simp
qed

text \<open>A clock survives serialisation: reading the bytes back, whatever follows them,
  consumes exactly them and yields the same owner and the same counters (so the same verdict of
  \<^verbatim>\<open>happens_before\<close> against any clock), and the very same map when the owner has an
  entry; a buffer that ends before the last byte is read past its end.\<close>
theorem clock_round_trip:
  assumes "clock_inv vc" and "clock_wire_ok vc"
  shows "\<exists>vc'. vc_deserialize (vc_serialize vc @ rest) = Inr (vc', rest) \<and>
    vc_node vc' = vc_node vc \<and> clock_inv vc' \<and> clock_fun vc' = clock_fun vc \<and>
    (vc_node vc \<in> fst ` set (vc_clock vc) \<longrightarrow> same_entries (vc_clock vc') (vc_clock vc)) \<and>
    (\<forall>p. strict_prefix p (vc_serialize vc) \<longrightarrow> vc_deserialize p = Inl OutOfBounds)"
proof (intro exI conjI allI impI)
  show "vc_deserialize (vc_serialize vc @ rest) = Inr (received_clock vc, rest)"
    by (rule clock_codec.round_trip [OF assms(2)])
  show "clock_fun (received_clock vc) = clock_fun vc"
    by (rule clock_fun_received [OF assms(1)])
  show "same_entries (vc_clock (received_clock vc)) (vc_clock vc)"
    if "vc_node vc \<in> fst ` set (vc_clock vc)"
    using that assms(1) by (rule received_same_entries)
  fix p assume "strict_prefix p (vc_serialize vc)"
  then show "vc_deserialize p = Inl OutOfBounds"
    using clock_codec.short [OF assms(2)] by (simp add: fails_def)
qed (simp_all add: clock_inv_received)

theorem clock_round_trip_witness:
  "\<exists>vc'. vc_deserialize (vc_serialize (clock_of ''a'' [(''b'', 258), (''a'', 7)])) = Inr (vc', []) \<and>
     clock_fun vc' ''b'' = 258 \<and> clock_fun vc' ''a'' = 7"
proof -
  let ?vc = "clock_of ''a'' [(''b'', 258), (''a'', 7)]"
  have h: "clock_inv ?vc" "clock_wire_ok ?vc"
    by (simp_all add: clock_inv_def clock_wire_ok_def clock_of_def vc_serialize_def
        write_string_def write_entry_def)
  have "clock_fun ?vc ''b'' = 258" "clock_fun ?vc ''a'' = 7" by code_simp+
  with clock_round_trip [OF h, of "[]"] show ?thesis by auto
qed

end
