(* ===== verification/CRDT.thy ===== *)
theory CRDT
  imports OrderBook_Spec VectorClock
begin

text \<open>
  The replicated order book of one node (\<^verbatim>\<open>crdt/crdt_orderbook.cpp\<close>): an order book, a
  vector clock, an append-only log of operations and the set of operation ids already applied.
  Every operation runs under the node's mutex, so each is one function on the state. The ids that
  \<^verbatim>\<open>generate_uuid\<close> returns are arguments; so is \<open>junk\<close>, the content of the fields of
  a local \<^verbatim>\<open>Operation\<close> that the source never assigns.
\<close>

section \<open>State\<close>

datatype optype = ADD_ORDER | CANCEL_ORDER | OpType_other u8

record operation =
  op_type :: optype
  op_order :: order
  cancel_order_id :: string
  origin_node :: string
  op_clock :: vector_clock
  op_id :: string

record crdt_book =
  crdt_node :: string
  book :: order_book
  clock :: vector_clock
  op_log :: "operation list"
  seen_ops :: "string set"

definition new_crdt :: "string \<Rightarrow> crdt_book" where
  "new_crdt nid =
     \<lparr>crdt_node = nid, book = empty_book, clock = new_clock nid, op_log = [], seen_ops = {}\<rparr>"

text \<open>The default member initialisers of \<^verbatim>\<open>Order\<close>; its other fields stay as they are.\<close>

definition default_order :: "order \<Rightarrow> order" where
  "default_order junk = junk\<lparr>order_id := [], node_id := [], is_cancelled := False\<rparr>"

text \<open>\<^verbatim>\<open>op_log_.push_back(op); seen_ops_.insert(op.op_id);\<close>\<close>

definition log_op :: "operation \<Rightarrow> crdt_book \<Rightarrow> crdt_book" where
  "log_op op st = st\<lparr>op_log := op_log st @ [op], seen_ops := insert (op_id op) (seen_ops st)\<rparr>"

section \<open>Local operations\<close>

definition local_add_order ::
  "crdt_book \<Rightarrow> side \<Rightarrow> double \<Rightarrow> int \<Rightarrow> string \<Rightarrow> string \<Rightarrow> crdt_book \<times> string" where
  "local_add_order st sd pr qty oid opid =
     (let (clk, ts) = tick (clock st);
          ord = \<lparr>order_id = oid, node_id = crdt_node st, side = sd, price = pr, quantity = qty,
                 remaining = qty, timestamp = ts, is_cancelled = False\<rparr>;
          b = fst (add_order (book st) ord);
          op = \<lparr>op_type = ADD_ORDER, op_order = ord, cancel_order_id = [],
                origin_node = crdt_node st, op_clock = clk, op_id = opid\<rparr>
      in (log_op op (st\<lparr>book := b, clock := clk\<rparr>), oid))"

definition cancel_operation :: "order \<Rightarrow> crdt_book \<Rightarrow> string \<Rightarrow> string \<Rightarrow> operation" where
  "cancel_operation junk st oid opid =
     \<lparr>op_type = CANCEL_ORDER, op_order = default_order junk, cancel_order_id = oid,
      origin_node = crdt_node st, op_clock = clock st, op_id = opid\<rparr>"

definition local_cancel_order ::
  "order \<Rightarrow> crdt_book \<Rightarrow> string \<Rightarrow> string \<Rightarrow> crdt_book \<times> bool" where
  "local_cancel_order junk st oid opid =
     (if \<not> has_order (book st) oid then (st, False)
      else
        let st1 = st\<lparr>clock := fst (tick (clock st))\<rparr>;
            (b, cancelled) = cancel_order (book st1) oid;
            st2 = st1\<lparr>book := b\<rparr>
        in if \<not> cancelled then (st2, False)
           else (log_op (cancel_operation junk st2 oid opid) st2, True))"

text \<open>The loop over the fills: the \<open>n\<close>th operation it makes gets the id \<open>uuid n\<close>.\<close>

fun cancel_filled ::
  "order \<Rightarrow> (nat \<Rightarrow> string) \<Rightarrow> nat \<Rightarrow> fill list \<Rightarrow> crdt_book \<Rightarrow> crdt_book" where
  "cancel_filled junk uuid n [] st = st"
| "cancel_filled junk uuid n (f # fs) st =
     (if \<not> has_order (book st) (fill_order_id f)
      then cancel_filled junk uuid (Suc n) fs
             (log_op (cancel_operation junk st (fill_order_id f) (uuid n)) st)
      else cancel_filled junk uuid n fs st)"

definition local_market_order ::
  "order \<Rightarrow> (nat \<Rightarrow> string) \<Rightarrow> crdt_book \<Rightarrow> side \<Rightarrow> int \<Rightarrow> crdt_book \<times> fill list" where
  "local_market_order junk uuid st sd qty =
     (let st1 = st\<lparr>clock := fst (tick (clock st))\<rparr>;
          (b, fills) = match_market_order (book st1) sd qty
      in (cancel_filled junk uuid 0 fills (st1\<lparr>book := b\<rparr>), fills))"

section \<open>Remote operations\<close>

definition apply_remote_operation :: "crdt_book \<Rightarrow> operation \<Rightarrow> crdt_book \<times> bool" where
  "apply_remote_operation st op =
     (if op_id op \<in> seen_ops st then (st, False)
      else
        let st1 = st\<lparr>clock := merge (clock st) (op_clock op)\<rparr>;
            st2 = (if op_type op = ADD_ORDER
                   then st1\<lparr>book := insert_replicated_order (book st1) (op_order op)\<rparr>
                   else if op_type op = CANCEL_ORDER
                   then st1\<lparr>book := apply_replicated_cancel (book st1) (cancel_order_id op)\<rparr>
                   else st1)
        in (log_op op st2, True))"

text \<open>The receiving loops \<^verbatim>\<open>for (op : msg.operations) apply_remote_operation(op)\<close>.\<close>

fun apply_operations :: "crdt_book \<Rightarrow> operation list \<Rightarrow> crdt_book" where
  "apply_operations st [] = st"
| "apply_operations st (op # ops) = apply_operations (fst (apply_remote_operation st op)) ops"

section \<open>Queries\<close>

definition get_operation_log :: "crdt_book \<Rightarrow> operation list" where
  "get_operation_log st = op_log st"

definition get_operations_since :: "crdt_book \<Rightarrow> vector_clock \<Rightarrow> operation list" where
  "get_operations_since st peer_clock =
     filter (\<lambda>op. \<not> happens_before (op_clock op) peer_clock \<and>
                  \<not> same_entries (vc_clock (op_clock op)) (vc_clock peer_clock)) (op_log st)"

definition get_clock :: "crdt_book \<Rightarrow> vector_clock" where
  "get_clock st = clock st"

definition crdt_snapshot :: "crdt_book \<Rightarrow> int \<Rightarrow> book_snapshot" where
  "crdt_snapshot st depth = get_snapshot (book st) depth"

definition crdt_best_bid :: "crdt_book \<Rightarrow> price_level option" where
  "crdt_best_bid st = get_best_bid (book st)"

definition crdt_best_ask :: "crdt_book \<Rightarrow> price_level option" where
  "crdt_best_ask st = get_best_ask (book st)"

definition get_op_log_size :: "crdt_book \<Rightarrow> nat" where
  "get_op_log_size st = length (op_log st)"

definition get_order_count :: "crdt_book \<Rightarrow> nat" where
  "get_order_count st = length (get_all_orders (book st))"

section \<open>What an operation does to a book\<close>

text \<open>The effect of one operation on a book, over any implementation of its two calls.\<close>

definition effect ::
  "('b \<Rightarrow> order \<Rightarrow> 'b) \<Rightarrow> ('b \<Rightarrow> string \<Rightarrow> 'b) \<Rightarrow> 'b \<Rightarrow> operation \<Rightarrow> 'b" where
  "effect ins canc b op =
     (if op_type op = ADD_ORDER then ins b (op_order op)
      else if op_type op = CANCEL_ORDER then canc b (cancel_order_id op) else b)"

abbreviation adds :: "operation \<Rightarrow> string \<Rightarrow> bool" where
  "adds op i \<equiv> op_type op = ADD_ORDER \<and> order_id (op_order op) = i"

abbreviation cancels :: "operation \<Rightarrow> string \<Rightarrow> bool" where
  "cancels op i \<equiv> op_type op = CANCEL_ORDER \<and> cancel_order_id op = i"

text \<open>
  What a log says of an order: the order as first added, cancelled when the log holds a cancel
  for it anywhere. This is the abstract state replicas are to agree on.
\<close>

definition order_view :: "operation list \<Rightarrow> string \<Rightarrow> order option" where
  "order_view ops i =
     map_option (\<lambda>op. (op_order op)\<lparr>is_cancelled :=
         is_cancelled (op_order op) \<or> list_ex (\<lambda>op. cancels op i) ops\<rparr>)
       (find (\<lambda>op. adds op i) ops)"

text \<open>A log in which every cancel comes after the add of its order.\<close>

fun causal_from :: "string set \<Rightarrow> operation list \<Rightarrow> bool" where
  "causal_from ids [] = True"
| "causal_from ids (op # ops) =
     ((op_type op = CANCEL_ORDER \<longrightarrow> cancel_order_id op \<in> ids) \<and>
      causal_from (if op_type op = ADD_ORDER then insert (order_id (op_order op)) ids else ids) ops)"

definition op_ok :: "operation \<Rightarrow> bool" where
  "op_ok op \<longleftrightarrow> clock_inv (op_clock op) \<and> (op_type op = ADD_ORDER \<longrightarrow> order_ok (op_order op))"

definition added_ids :: "operation list \<Rightarrow> string set" where
  "added_ids ops = {i. \<exists>op \<in> set ops. adds op i}"

lemma added_ids_simps [simp]:
  "added_ids [] = {}"
  "added_ids (ops @ ops') = added_ids ops \<union> added_ids ops'"
  "added_ids [op] = (if op_type op = ADD_ORDER then {order_id (op_order op)} else {})"
  by (auto simp: added_ids_def)

lemma added_ids_Cons:
  "added_ids (op # ops) =
     (if op_type op = ADD_ORDER then insert (order_id (op_order op)) (added_ids ops) else added_ids ops)"
  by (auto simp: added_ids_def)

lemma causal_from_append:
  "causal_from ids (xs @ ys) \<longleftrightarrow> causal_from ids xs \<and> causal_from (ids \<union> added_ids xs) ys"
  by (induction ids xs rule: causal_from.induct) (auto simp: added_ids_Cons)

lemma order_view_None: "order_view ops i = None \<longleftrightarrow> i \<notin> added_ids ops"
  by (simp add: order_view_def find_None_iff added_ids_def) blast

lemma find_append:
  "find P (xs @ ys) = (case find P xs of None \<Rightarrow> find P ys | Some x \<Rightarrow> Some x)"
  by (induction xs) auto

lemma causal_no_early_cancel:
  "causal_from ids ops \<Longrightarrow> i \<notin> ids \<Longrightarrow> i \<notin> added_ids ops \<Longrightarrow> \<not> list_ex (\<lambda>op. cancels op i) ops"
  by (induction ids ops rule: causal_from.induct) (auto simp: added_ids_Cons split: if_splits)

text \<open>Extending a causal log by one operation changes what it says of one order only.\<close>

lemma order_view_add:
  assumes "op_type op = ADD_ORDER" and "causal_from {} ops"
  shows "order_view (ops @ [op]) =
    (if order_id (op_order op) \<in> added_ids ops then order_view ops
     else (order_view ops)(order_id (op_order op) \<mapsto> op_order op))"
proof (rule ext)
  fix i
  have "find (\<lambda>op. adds op i) ops = None \<longleftrightarrow> i \<notin> added_ids ops"
    by (auto simp: added_ids_def find_None_iff)
  then show "order_view (ops @ [op]) i = (if order_id (op_order op) \<in> added_ids ops then order_view ops
     else (order_view ops)(order_id (op_order op) \<mapsto> op_order op)) i"
    using assms causal_no_early_cancel [OF assms(2), of i]
    by (auto simp: order_view_def find_append split: option.splits)
qed

lemma order_view_cancel:
  assumes "op_type op = CANCEL_ORDER"
  shows "order_view (ops @ [op]) i =
    (if i = cancel_order_id op then map_option (\<lambda>ord. ord\<lparr>is_cancelled := True\<rparr>) (order_view ops i)
     else order_view ops i)"
  using assms by (auto simp: order_view_def find_append option.map_comp comp_def split: option.splits)

lemma order_view_other:
  "op_type op \<noteq> ADD_ORDER \<Longrightarrow> op_type op \<noteq> CANCEL_ORDER \<Longrightarrow> order_view (ops @ [op]) = order_view ops"
  by (rule ext) (auto simp: order_view_def find_append split: option.splits)

section \<open>The interface of the replicated book\<close>

text \<open>
  What the replication layer relies on in the book below it: an invariant both calls keep, a
  lookup, and what the two calls do to the lookup.
\<close>

locale replicated_store =
  fixes ins :: "'b \<Rightarrow> order \<Rightarrow> 'b" and canc :: "'b \<Rightarrow> string \<Rightarrow> 'b"
    and look :: "'b \<Rightarrow> string \<Rightarrow> order option" and inv :: "'b \<Rightarrow> bool"
  assumes inv_ins: "inv b \<Longrightarrow> order_ok ord \<Longrightarrow> inv (ins b ord)"
    and inv_canc: "inv b \<Longrightarrow> inv (canc b i)"
    and look_ins: "look (ins b ord) =
      (if look b (order_id ord) = None then (look b)(order_id ord \<mapsto> ord) else look b)"
    and look_canc: "look (canc b i) j =
      (if j = i then map_option (\<lambda>ord. ord\<lparr>is_cancelled := True\<rparr>) (look b j) else look b j)"
begin

lemma inv_effect: "inv b \<Longrightarrow> op_ok op \<Longrightarrow> inv (effect ins canc b op)"
  by (simp add: effect_def op_ok_def inv_ins inv_canc)

text \<open>The store stays what the log says, as long as the log grows causally.\<close>

lemma look_effect:
  assumes view: "look b = order_view ops" and causal: "causal_from {} (ops @ [op])"
  shows "look (effect ins canc b op) = order_view (ops @ [op])"
proof -
  have c: "causal_from {} ops" using causal by (simp add: causal_from_append)
  consider "op_type op = ADD_ORDER" | "op_type op = CANCEL_ORDER"
    | "op_type op \<noteq> ADD_ORDER" "op_type op \<noteq> CANCEL_ORDER" by blast
  then show ?thesis
  proof cases
    case 1
    then show ?thesis
      by (simp add: effect_def look_ins view order_view_add [OF 1 c] order_view_None)
  next
    case 2
    show ?thesis
      by (rule ext) (simp add: 2 effect_def look_canc view order_view_cancel [OF 2])
  next
    case 3
    then show ?thesis by (simp add: effect_def view order_view_other)
  qed
qed

text \<open>So two stores whose causal logs hold the same operations hold the same orders.\<close>

lemma look_effects:
  assumes "causal_from {} ops" and "look b = Map.empty"
  shows "look (fold (\<lambda>op b. effect ins canc b op) ops b) = order_view ops"
  using assms(1)
proof (induction ops rule: rev_induct)
  case Nil
  then show ?case using assms(2) by (simp add: order_view_def fun_eq_iff)
next
  case (snoc op ops)
  then have "look (fold (\<lambda>op b. effect ins canc b op) ops b) = order_view ops"
    by (simp add: causal_from_append)
  from look_effect [OF this snoc.prems] show ?case by simp
qed

end

text \<open>The order book meets the contract.\<close>

interpretation book_store: replicated_store insert_replicated_order apply_replicated_cancel
  "\<lambda>b. map_of (orders b)" book_inv
  by unfold_locales
     (auto simp: insert_replicated_order_inv apply_replicated_cancel_inv lookup_insert_replicated
       lookup_apply_cancel has_order_def)

text \<open>What a set of operations says does not depend on their order in the log.\<close>

definition adds_unique :: "operation set \<Rightarrow> bool" where
  "adds_unique ops \<longleftrightarrow> (\<forall>op \<in> ops. \<forall>op' \<in> ops. op_type op = ADD_ORDER \<longrightarrow> op_type op' = ADD_ORDER \<longrightarrow>
     order_id (op_order op) = order_id (op_order op') \<longrightarrow> op_order op = op_order op')"

lemma order_view_set:
  assumes "set ops = set ops'" and "adds_unique (set ops)"
  shows "order_view ops = order_view ops'"
proof (rule ext)
  fix i
  have c: "list_ex (\<lambda>op. cancels op i) ops = list_ex (\<lambda>op. cancels op i) ops'"
    using assms(1) by (simp add: list_ex_iff)
  show "order_view ops i = order_view ops' i"
  proof (cases "i \<in> added_ids ops")
    case False
    moreover from False have "i \<notin> added_ids ops'" using assms(1) by (simp add: added_ids_def)
    ultimately show ?thesis by (simp add: order_view_None [THEN iffD2])
  next
    case True
    then have "order_view ops i \<noteq> None" "order_view ops' i \<noteq> None"
      using assms(1) by (auto simp: order_view_None added_ids_def)
    then obtain x y where x: "find (\<lambda>op. adds op i) ops = Some x"
      and y: "find (\<lambda>op. adds op i) ops' = Some y"
      by (auto simp: order_view_def)
    have "x \<in> set ops" "adds x i" "y \<in> set ops'" "adds y i"
      using x y by (auto simp: find_Some_iff)
    then have "op_order x = op_order y" using assms by (auto simp: adds_unique_def)
    then show ?thesis by (simp add: order_view_def x y c)
  qed
qed

end
