(* ===== verification/CRDT_Cluster.thy ===== *)
theory CRDT_Cluster
  imports CRDT
begin

text \<open>
  The invariant of one node's replicated book, the steps of a cluster of nodes that exchange
  operations in any order, any number of times or never, and the stronger invariant of the runs
  in which a cancel is only delivered to a node that knows the order and nobody sends market
  orders: in those every book holds exactly what its log says.
\<close>

section \<open>The invariant of a node\<close>

definition crdt_inv :: "crdt_book \<Rightarrow> bool" where
  "crdt_inv st \<longleftrightarrow>
     book_inv (book st) \<and> clock_inv (clock st) \<and> vc_node (clock st) = crdt_node st \<and>
     distinct (map op_id (op_log st)) \<and> seen_ops st = op_id ` set (op_log st) \<and>
     (\<forall>op \<in> set (op_log st). op_ok op \<and> clock_fun (op_clock op) \<le> clock_fun (clock st))"

lemma crdt_invD:
  assumes "crdt_inv st"
  shows "book_inv (book st)" "clock_inv (clock st)" "vc_node (clock st) = crdt_node st"
    "distinct (map op_id (op_log st))" "seen_ops st = op_id ` set (op_log st)"
    "op \<in> set (op_log st) \<Longrightarrow> op_ok op"
    "op \<in> set (op_log st) \<Longrightarrow> clock_fun (op_clock op) \<le> clock_fun (clock st)"
  using assms by (simp_all add: crdt_inv_def)

lemma crdt_inv_new: "crdt_inv (new_crdt nid)"
  by (simp add: crdt_inv_def new_crdt_def book_inv_empty clock_inv_new) (simp add: new_clock_def)

lemma log_op_fields [simp]:
  "crdt_node (log_op op st) = crdt_node st" "book (log_op op st) = book st"
  "clock (log_op op st) = clock st" "op_log (log_op op st) = op_log st @ [op]"
  "seen_ops (log_op op st) = insert (op_id op) (seen_ops st)"
  by (simp_all add: log_op_def)

text \<open>Every state change is of one shape: a new book, a later clock, perhaps one new operation.\<close>

lemma crdt_inv_update:
  assumes "crdt_inv st" and "book_inv b" and "clock_inv clk" and "vc_node clk = vc_node (clock st)"
    and "clock_fun (clock st) \<le> clock_fun clk"
  shows "crdt_inv (st\<lparr>book := b, clock := clk\<rparr>)"
  using assms by (auto simp: crdt_inv_def intro: order.trans)

lemma crdt_inv_log:
  assumes "crdt_inv st" and "op_id op \<notin> seen_ops st" and "op_ok op"
    and "clock_fun (op_clock op) \<le> clock_fun (clock st)"
  shows "crdt_inv (log_op op st)"
  using assms by (auto simp: crdt_inv_def)

section \<open>The operations, field by field\<close>

definition added_op ::
  "crdt_book \<Rightarrow> side \<Rightarrow> double \<Rightarrow> int \<Rightarrow> string \<Rightarrow> string \<Rightarrow> operation" where
  "added_op st sd pr qty oid opid =
     \<lparr>op_type = ADD_ORDER,
      op_order = \<lparr>order_id = oid, node_id = crdt_node st, side = sd, price = pr, quantity = qty,
        remaining = qty, timestamp = snd (tick (clock st)), is_cancelled = False\<rparr>,
      cancel_order_id = [], origin_node = crdt_node st, op_clock = fst (tick (clock st)),
      op_id = opid\<rparr>"

abbreviation store_effect :: "order_book \<Rightarrow> operation \<Rightarrow> order_book" where
  "store_effect \<equiv> effect insert_replicated_order apply_replicated_cancel"

lemma local_add_order_eq:
  assumes "\<not> has_order (book st) oid"
  shows "local_add_order st sd pr qty oid opid =
    (let op = added_op st sd pr qty oid opid
     in (log_op op (st\<lparr>book := store_effect (book st) op, clock := fst (tick (clock st))\<rparr>), oid))"
  using assms
  by (simp add: local_add_order_def added_op_def effect_def insert_replicated_order_def
      has_order_def add_order_def case_prod_beta Let_def)

lemma local_cancel_order_eq:
  "local_cancel_order junk st oid opid =
    (let st1 = st\<lparr>clock := fst (tick (clock st))\<rparr>; op = cancel_operation junk st1 oid opid
     in if \<not> has_order (book st) oid then (st, False)
        else if is_cancelled (deref (orders (book st)) oid) then (st1, False)
        else (log_op op (st\<lparr>book := store_effect (book st) op, clock := fst (tick (clock st))\<rparr>), True))"
proof (cases "map_of (orders (book st)) oid")
  case None
  then show ?thesis by (simp add: local_cancel_order_def has_order_def Let_def)
next
  case (Some ord)
  have "apply_replicated_cancel (book st) oid = book st" if "is_cancelled ord"
    by (rule apply_replicated_cancel_none) (use that Some in simp)
  with Some show ?thesis
    by (simp add: local_cancel_order_def has_order_def cancel_order_eq deref_def Let_def
        cancel_operation_def effect_def)
qed

lemma filled_known:
  assumes "book_inv b" and "fits64 qty" and "match_market_order b sd qty = (b', fs)" and "f \<in> set fs"
  shows "has_order b' (fill_order_id f)"
proof -
  note I = book_invD [OF assms(1)]
  have "consume qty (opposite b sd) = (fs, opposite b' sd)"
    using match_market_order_resting(2) [OF assms(1-3)] by simp
  then have "set (map (\<lambda>f. (fill_order_id f, fill_price f)) fs) \<subseteq> set (map (\<lambda>(i, p, q). (i, p)) (opposite b sd))"
    by (rule consume_prefix [THEN set_mono_prefix])
  then have "(fill_order_id f, fill_price f) \<in> set (map (\<lambda>(i, p, q). (i, p)) (opposite b sd))"
    by (rule subsetD) (simp add: assms(4))
  then have "fill_order_id f \<in> fst ` set (opposite b sd)" by (auto intro: rev_image_eqI)
  moreover have "has_order b i" if "i \<in> fst ` set (opposite b sd)" for i
  proof -
    have "fst ` set (opposite b sd) \<subseteq> live_ids (orders b) True \<union> live_ids (orders b) False"
      using I(2,3)
      by (simp add: opposite_def resting_bids_def resting_asks_def resting_def side_inv_def image_image)
    with that have "i \<in> live_ids (orders b) True \<or> i \<in> live_ids (orders b) False" by blast
    then show ?thesis using in_live_ids [OF I(4)] by (auto simp: has_order_def)
  qed
  ultimately have "has_order b (fill_order_id f)" by blast
  then show ?thesis using match_market_order_keys [of b _ sd qty] assms(3) by simp
qed

lemma cancel_filled_known:
  "(\<And>f. f \<in> set fs \<Longrightarrow> has_order (book st) (fill_order_id f)) \<Longrightarrow> cancel_filled junk uuid n fs st = st"
  by (induction junk uuid n fs st rule: cancel_filled.induct) auto

lemma local_market_order_eq:
  assumes "book_inv (book st)" and "fits64 qty"
  shows "local_market_order junk uuid st sd qty =
    (st\<lparr>book := fst (match_market_order (book st) sd qty), clock := fst (tick (clock st))\<rparr>,
     snd (match_market_order (book st) sd qty))"
  using filled_known [OF assms surjective_pairing, where sd = sd]
  by (simp add: local_market_order_def case_prod_beta Let_def cancel_filled_known)

lemma apply_remote_operation_eq:
  "apply_remote_operation st op =
    (if op_id op \<in> seen_ops st then (st, False)
     else (log_op op (st\<lparr>book := store_effect (book st) op, clock := merge (clock st) (op_clock op)\<rparr>), True))"
  by (simp add: apply_remote_operation_def effect_def Let_def)

section \<open>Every operation keeps the invariant\<close>

abbreviation can_tick :: "crdt_book \<Rightarrow> bool" where
  "can_tick st \<equiv> get_local_time (clock st) < 2 ^ 64 - 1"

lemma tick_later:
  "can_tick st \<Longrightarrow> clock_fun (clock st) \<le> clock_fun (fst (tick (clock st)))"
  by (simp add: tick_strict less_imp_le)

lemma added_op_ok:
  "crdt_inv st \<Longrightarrow> 0 < qty \<Longrightarrow> qty < 2 ^ 63 \<Longrightarrow> op_ok (added_op st sd pr qty oid opid)"
  by (simp add: op_ok_def added_op_def crdt_inv_def clock_inv_tick order_ok_def)

lemma cancel_operation_ok: "clock_inv (clock st) \<Longrightarrow> op_ok (cancel_operation junk st oid opid)"
  by (simp add: op_ok_def cancel_operation_def)

lemma crdt_inv_tick:
  assumes "crdt_inv st" and "can_tick st" and "book_inv b"
  shows "crdt_inv (st\<lparr>book := b, clock := fst (tick (clock st))\<rparr>)"
  by (rule crdt_inv_update [OF assms(1,3)])
     (use crdt_invD [OF assms(1)] tick_later [OF assms(2)] in \<open>simp_all add: clock_inv_tick\<close>)

lemma crdt_inv_add:
  assumes "crdt_inv st" and "can_tick st" and "\<not> has_order (book st) oid" and "opid \<notin> seen_ops st"
    and "0 < qty" and "qty < 2 ^ 63"
  shows "crdt_inv (fst (local_add_order st sd pr qty oid opid))"
proof -
  let ?op = "added_op st sd pr qty oid opid"
  have ok: "op_ok ?op" by (rule added_op_ok [OF assms(1,5,6)])
  have "book_inv (store_effect (book st) ?op)"
    by (rule book_store.inv_effect [OF crdt_invD(1) [OF assms(1)] ok])
  then have "crdt_inv (log_op ?op (st\<lparr>book := store_effect (book st) ?op, clock := fst (tick (clock st))\<rparr>))"
    by (intro crdt_inv_log crdt_inv_tick assms ok)
       (simp_all add: assms(4) added_op_def)
  then show ?thesis by (simp add: local_add_order_eq [OF assms(3)] Let_def)
qed

lemma crdt_inv_cancel:
  assumes "crdt_inv st" and "can_tick st" and "opid \<notin> seen_ops st"
  shows "crdt_inv (fst (local_cancel_order junk st oid opid))"
proof -
  let ?st1 = "st\<lparr>clock := fst (tick (clock st))\<rparr>"
  let ?op = "cancel_operation junk ?st1 oid opid"
  note I = crdt_invD [OF assms(1)]
  have ok: "op_ok ?op" by (rule cancel_operation_ok) (simp add: I clock_inv_tick)
  have st1: "crdt_inv ?st1" using crdt_inv_tick [OF assms(1,2) I(1)] by simp
  have "book_inv (store_effect (book st) ?op)" by (rule book_store.inv_effect [OF I(1) ok])
  then have "crdt_inv (log_op ?op (st\<lparr>book := store_effect (book st) ?op, clock := fst (tick (clock st))\<rparr>))"
    by (intro crdt_inv_log crdt_inv_tick assms ok) (simp_all add: assms(3) cancel_operation_def)
  then show ?thesis using assms(1) st1 by (simp add: local_cancel_order_eq Let_def)
qed

lemma crdt_inv_market:
  assumes "crdt_inv st" and "can_tick st" and "fits64 qty"
  shows "crdt_inv (fst (local_market_order junk uuid st sd qty))"
proof -
  note I = crdt_invD [OF assms(1)]
  have "book_inv (fst (match_market_order (book st) sd qty))"
    using match_market_order_resting(1) [OF I(1) assms(3) surjective_pairing] .
  then show ?thesis
    using crdt_inv_tick [OF assms(1,2)] by (simp add: local_market_order_eq [OF I(1) assms(3)])
qed

lemma crdt_inv_remote:
  assumes "crdt_inv st" and "op_ok op"
  shows "crdt_inv (fst (apply_remote_operation st op))"
proof (cases "op_id op \<in> seen_ops st")
  case False
  note I = crdt_invD [OF assms(1)]
  have c: "clock_inv (op_clock op)" using assms(2) by (simp add: op_ok_def)
  have "crdt_inv (st\<lparr>book := store_effect (book st) op, clock := merge (clock st) (op_clock op)\<rparr>)"
    by (rule crdt_inv_update [OF assms(1) book_store.inv_effect [OF I(1) assms(2)]])
       (simp_all add: I clock_inv_merge clock_fun_merge [OF c] le_fun_def)
  then have "crdt_inv (log_op op (st\<lparr>book := store_effect (book st) op, clock := merge (clock st) (op_clock op)\<rparr>))"
    by (rule crdt_inv_log) (simp_all add: False assms(2) clock_fun_merge [OF c] le_fun_def)
  with False show ?thesis by (simp add: apply_remote_operation_eq)
qed (simp add: apply_remote_operation_eq assms)

section \<open>Books that hold what their log says\<close>

definition replica_inv :: "crdt_book \<Rightarrow> bool" where
  "replica_inv st \<longleftrightarrow>
     crdt_inv st \<and> causal_from {} (op_log st) \<and> map_of (orders (book st)) = order_view (op_log st)"

lemma replica_invD:
  assumes "replica_inv st"
  shows "crdt_inv st" "causal_from {} (op_log st)" "map_of (orders (book st)) = order_view (op_log st)"
  using assms by (simp_all add: replica_inv_def)

lemma replica_inv_new: "replica_inv (new_crdt nid)"
  using crdt_inv_new [of nid]
  by (simp add: replica_inv_def order_view_def fun_eq_iff) (simp add: new_crdt_def empty_book_def)

lemma replica_has_order: "replica_inv st \<Longrightarrow> has_order (book st) i \<longleftrightarrow> i \<in> added_ids (op_log st)"
  using order_view_None [of "op_log st" i] by (auto simp: has_order_def replica_inv_def)

definition deliverable :: "crdt_book \<Rightarrow> operation \<Rightarrow> bool" where
  "deliverable st op \<longleftrightarrow> (op_type op = CANCEL_ORDER \<longrightarrow> has_order (book st) (cancel_order_id op))"

text \<open>Logging an operation together with its effect on the book.\<close>

lemma replica_inv_log:
  assumes "replica_inv st" and "deliverable st op"
    and "crdt_inv (log_op op (st\<lparr>book := store_effect (book st) op, clock := clk\<rparr>))"
  shows "replica_inv (log_op op (st\<lparr>book := store_effect (book st) op, clock := clk\<rparr>))"
proof -
  note R = replica_invD [OF assms(1)]
  have c: "causal_from {} (op_log st @ [op])"
    using R(2) assms(2) replica_has_order [OF assms(1)]
    by (simp add: causal_from_append deliverable_def)
  from book_store.look_effect [OF R(3) c] c assms(3) show ?thesis by (simp add: replica_inv_def)
qed

lemma replica_inv_add:
  assumes "replica_inv st" and "can_tick st" and "\<not> has_order (book st) oid" and "opid \<notin> seen_ops st"
    and "0 < qty" and "qty < 2 ^ 63"
  shows "replica_inv (fst (local_add_order st sd pr qty oid opid))"
  using crdt_inv_add [OF replica_invD(1) [OF assms(1)] assms(2-6)]
    replica_inv_log [OF assms(1), of "added_op st sd pr qty oid opid"]
  by (simp add: local_add_order_eq [OF assms(3)] Let_def deliverable_def added_op_def)

lemma replica_inv_cancel:
  assumes "replica_inv st" and "can_tick st" and "opid \<notin> seen_ops st"
  shows "replica_inv (fst (local_cancel_order junk st oid opid))"
proof -
  note R = replica_invD [OF assms(1)]
  let ?op = "cancel_operation junk (st\<lparr>clock := fst (tick (clock st))\<rparr>) oid opid"
  have "replica_inv (st\<lparr>clock := fst (tick (clock st))\<rparr>)"
    using crdt_inv_tick [OF R(1) assms(2) crdt_invD(1) [OF R(1)]] R by (simp add: replica_inv_def)
  moreover have "deliverable st ?op" if "has_order (book st) oid"
    using that by (simp add: deliverable_def cancel_operation_def)
  ultimately show ?thesis
    using crdt_inv_cancel [OF R(1) assms(2,3), of junk oid] assms(1) replica_inv_log [OF assms(1), of ?op]
    by (simp add: local_cancel_order_eq Let_def split: if_splits)
qed

lemma replica_inv_remote:
  assumes "replica_inv st" and "op_ok op" and "deliverable st op"
  shows "replica_inv (fst (apply_remote_operation st op))"
  using crdt_inv_remote [OF replica_invD(1) [OF assms(1)] assms(2)] assms(1)
    replica_inv_log [OF assms(1,3)]
  by (simp add: apply_remote_operation_eq split: if_splits)

section \<open>Clusters\<close>

type_synonym cluster = "string \<Rightarrow> crdt_book"

definition new_cluster :: cluster where
  "new_cluster = new_crdt"

definition fresh_id :: "cluster \<Rightarrow> string \<Rightarrow> bool" where
  "fresh_id c i \<longleftrightarrow> (\<forall>n. i \<notin> seen_ops (c n) \<and> \<not> has_order (book (c n)) i)"

definition all_ops :: "cluster \<Rightarrow> operation set" where
  "all_ops c = (\<Union>n. set (op_log (c n)))"

text \<open>
  A delivery takes any operation any node has logged: a datagram may be lost, repeated or
  overtaken. With \<open>tame\<close> set, nobody sends market orders and a cancel is only delivered where
  its order is known.
\<close>

inductive cluster_step :: "bool \<Rightarrow> cluster \<Rightarrow> cluster \<Rightarrow> bool" where
  add: "fresh_id c oid \<Longrightarrow> fresh_id c opid \<Longrightarrow> can_tick (c n) \<Longrightarrow> 0 < qty \<Longrightarrow> qty < 2 ^ 63 \<Longrightarrow>
    cluster_step tame c (c(n := fst (local_add_order (c n) sd pr qty oid opid)))"
| cancel: "fresh_id c opid \<Longrightarrow> can_tick (c n) \<Longrightarrow>
    cluster_step tame c (c(n := fst (local_cancel_order junk (c n) oid opid)))"
| market: "\<not> tame \<Longrightarrow> can_tick (c n) \<Longrightarrow> fits64 qty \<Longrightarrow>
    cluster_step tame c (c(n := fst (local_market_order junk uuid (c n) sd qty)))"
| deliver: "op \<in> all_ops c \<Longrightarrow> (tame \<Longrightarrow> deliverable (c n) op) \<Longrightarrow>
    cluster_step tame c (c(n := fst (apply_remote_operation (c n) op)))"

inductive cluster_reachable :: "bool \<Rightarrow> cluster \<Rightarrow> bool" where
  start: "cluster_reachable tame new_cluster"
| step: "cluster_reachable tame c \<Longrightarrow> cluster_step tame c c' \<Longrightarrow> cluster_reachable tame c'"

text \<open>An id names one operation, and an order id one order, in all logs together.\<close>

definition ids_unique :: "operation set \<Rightarrow> bool" where
  "ids_unique ops \<longleftrightarrow> inj_on op_id ops \<and> adds_unique ops"

definition cluster_inv :: "bool \<Rightarrow> cluster \<Rightarrow> bool" where
  "cluster_inv tame c \<longleftrightarrow>
     (\<forall>n. crdt_inv (c n) \<and> crdt_node (c n) = n \<and> added_ids (op_log (c n)) \<subseteq> {i. has_order (book (c n)) i} \<and>
       (tame \<longrightarrow> replica_inv (c n))) \<and>
     ids_unique (all_ops c)"

lemma all_ops_upd:
  "set (op_log st) = insert op (set (op_log (c n))) \<Longrightarrow> all_ops (c(n := st)) = insert op (all_ops c)"
  "set (op_log st) = set (op_log (c n)) \<Longrightarrow> all_ops (c(n := st)) = all_ops c"
  by (auto simp: all_ops_def split: if_splits)

lemma has_order_effect: "has_order b i \<Longrightarrow> has_order (store_effect b op) i"
  by (auto simp: effect_def has_order_def lookup_insert_replicated lookup_apply_cancel)

lemma has_order_effect_add:
  "op_type op = ADD_ORDER \<Longrightarrow> has_order (store_effect b op) (order_id (op_order op))"
  by (auto simp: effect_def has_order_def lookup_insert_replicated)

lemma added_ids_logged:
  assumes "added_ids (op_log st) \<subseteq> {i. has_order (book st) i}"
  shows "added_ids (op_log st @ [op]) \<subseteq> {i. has_order (store_effect (book st) op) i}"
  using assms has_order_effect [of "book st" _ op] has_order_effect_add [of op "book st"]
  by (auto split: if_splits)

lemma ids_unique_insert:
  assumes "ids_unique (all_ops c)" and "cluster_inv tame c" and "fresh_id c (op_id op)"
    and "op_type op = ADD_ORDER \<Longrightarrow> fresh_id c (order_id (op_order op))"
  shows "ids_unique (insert op (all_ops c))"
proof -
  have "op_id x \<noteq> op_id op" if "x \<in> all_ops c" for x
  proof -
    obtain n where "x \<in> set (op_log (c n))" using \<open>x \<in> all_ops c\<close> by (auto simp: all_ops_def)
    then have "op_id x \<in> seen_ops (c n)"
      using assms(2) by (simp add: cluster_inv_def crdt_inv_def)
    then show ?thesis using assms(3) by (auto simp: fresh_id_def)
  qed
  moreover have "order_id (op_order x) \<noteq> order_id (op_order op)"
    if "x \<in> all_ops c" "op_type x = ADD_ORDER" "op_type op = ADD_ORDER" for x
  proof -
    obtain n where "x \<in> set (op_log (c n))" using \<open>x \<in> all_ops c\<close> by (auto simp: all_ops_def)
    then have "order_id (op_order x) \<in> added_ids (op_log (c n))"
      using that(2) by (auto simp: added_ids_def)
    then have "has_order (book (c n)) (order_id (op_order x))"
      using assms(2) by (auto simp: cluster_inv_def)
    then show ?thesis using assms(4) that(3) by (auto simp: fresh_id_def)
  qed
  ultimately show ?thesis
    using assms(1) unfolding ids_unique_def adds_unique_def inj_on_def by (metis insert_iff)
qed

lemma cluster_inv_update:
  assumes "cluster_inv tame c" and "crdt_inv st" and "crdt_node st = n"
    and "added_ids (op_log st) \<subseteq> {i. has_order (book st) i}" and "tame \<Longrightarrow> replica_inv st"
    and "ids_unique (all_ops (c(n := st)))"
  shows "cluster_inv tame (c(n := st))"
  using assms by (auto simp: cluster_inv_def)

lemma cluster_invD:
  assumes "cluster_inv tame c"
  shows "crdt_inv (c n)" "crdt_node (c n) = n" "added_ids (op_log (c n)) \<subseteq> {i. has_order (book (c n)) i}"
    "tame \<Longrightarrow> replica_inv (c n)" "ids_unique (all_ops c)"
    "op \<in> all_ops c \<Longrightarrow> op_ok op"
  using assms by (auto simp: cluster_inv_def all_ops_def crdt_inv_def)

lemma cluster_inv_new: "cluster_inv tame new_cluster"
  using crdt_inv_new replica_inv_new
  by (auto simp: cluster_inv_def new_cluster_def all_ops_def ids_unique_def adds_unique_def)
     (simp_all add: new_crdt_def)

lemma fresh_idD: "fresh_id c i \<Longrightarrow> i \<notin> seen_ops (c n)" "fresh_id c i \<Longrightarrow> \<not> has_order (book (c n)) i"
  by (auto simp: fresh_id_def)

lemma cluster_inv_step:
  assumes "cluster_step tame c c'" and "cluster_inv tame c"
  shows "cluster_inv tame c'"
  using assms
proof cases
  case (add oid opid n qty sd pr)
  note C = cluster_invD [OF assms(2)]
  let ?op = "added_op (c n) sd pr qty oid opid" and ?st = "fst (local_add_order (c n) sd pr qty oid opid)"
  note fr = fresh_idD [OF add(2), of n] fresh_idD [OF add(3), of n]
  have st: "op_log ?st = op_log (c n) @ [?op]" "book ?st = store_effect (book (c n)) ?op" "crdt_node ?st = n"
    by (simp_all add: local_add_order_eq [OF fr(2)] Let_def C)
  have "ids_unique (insert ?op (all_ops c))"
    by (rule ids_unique_insert [OF C(5) assms(2)]) (simp_all add: added_op_def add)
  then have "ids_unique (all_ops (c(n := ?st)))"
    by (subst all_ops_upd(1) [where op = ?op]) (simp_all add: st)
  then show ?thesis
    unfolding add(1)
    using crdt_inv_add [OF C(1) add(4) fr(2,3) add(5,6)] replica_inv_add [OF C(4) add(4) fr(2,3) add(5,6)]
      added_ids_logged [OF C(3), of n ?op] st
    by (intro cluster_inv_update [OF assms(2)]) simp_all
next
  case (cancel opid n junk oid)
  note C = cluster_invD [OF assms(2)]
  let ?op = "cancel_operation junk ((c n)\<lparr>clock := fst (tick (clock (c n)))\<rparr>) oid opid"
    and ?st = "fst (local_cancel_order junk (c n) oid opid)"
  note fr = fresh_idD [OF cancel(2), of n]
  have st: "crdt_node ?st = n \<and> (op_log ?st = op_log (c n) \<and> book ?st = book (c n) \<or>
      op_log ?st = op_log (c n) @ [?op] \<and> book ?st = store_effect (book (c n)) ?op)"
    by (simp add: local_cancel_order_eq Let_def C)
  have "ids_unique (insert ?op (all_ops c))"
    by (rule ids_unique_insert [OF C(5) assms(2)]) (simp_all add: cancel_operation_def cancel)
  then have "ids_unique (all_ops (c(n := ?st)))"
    using st C(5) all_ops_upd(1) [of ?st ?op c n] all_ops_upd(2) [of ?st c n] by auto
  then show ?thesis
    unfolding cancel(1)
    using crdt_inv_cancel [OF C(1) cancel(3) fr(1)] replica_inv_cancel [OF C(4) cancel(3) fr(1)]
      added_ids_logged [OF C(3), of n ?op] C(3) [of n] st
    by (intro cluster_inv_update [OF assms(2)]) auto
next
  case (market n qty junk uuid sd)
  note C = cluster_invD [OF assms(2)]
  let ?st = "fst (local_market_order junk uuid (c n) sd qty)"
  have st: "op_log ?st = op_log (c n)" "crdt_node ?st = n"
    "book ?st = fst (match_market_order (book (c n)) sd qty)"
    by (simp_all add: local_market_order_eq [OF crdt_invD(1) [OF C(1)] market(4)] C)
  have "all_ops (c(n := ?st)) = all_ops c" by (rule all_ops_upd) (simp add: st)
  then show ?thesis
    unfolding market(1)
    using crdt_inv_market [OF C(1) market(3,4)] C(3) [of n] C(5) market(2)
      match_market_order_keys [of "book (c n)" _ sd qty]
    by (intro cluster_inv_update [OF assms(2)]) (auto simp: st)
next
  case (deliver op n)
  note C = cluster_invD [OF assms(2)]
  let ?st = "fst (apply_remote_operation (c n) op)"
  have st: "crdt_node ?st = n \<and> (op_log ?st = op_log (c n) \<and> book ?st = book (c n) \<or>
      op_log ?st = op_log (c n) @ [op] \<and> book ?st = store_effect (book (c n)) op)"
    by (simp add: apply_remote_operation_eq C)
  have "all_ops (c(n := ?st)) = all_ops c"
    using st all_ops_upd(1) [of ?st op c n] all_ops_upd(2) [of ?st c n] deliver(2) by auto
  then show ?thesis
    unfolding deliver(1)
    using crdt_inv_remote [OF C(1,6)] replica_inv_remote [OF C(4,6)] deliver(2,3)
      added_ids_logged [OF C(3), of n op] C(3) [of n] C(5) st
    by (intro cluster_inv_update [OF assms(2)]) auto
qed

lemma cluster_reachable_inv: "cluster_reachable tame c \<Longrightarrow> cluster_inv tame c"
  by (induction rule: cluster_reachable.induct) (auto intro: cluster_inv_new cluster_inv_step)

end
