(* ===== verification/CRDT_Props.thy ===== *)
theory CRDT_Props
  imports CRDT_Cluster OrderBook_Props
begin

text \<open>
  The properties of the replicated order book: what every node of every cluster keeps, when
  replicas converge, how operations replicate, and the three ways in which they do not.
\<close>

section \<open>Delivering many operations\<close>

lemma seen_apply_operations:
  "seen_ops (apply_operations st ops) = seen_ops st \<union> op_id ` set ops"
  by (induction st ops rule: apply_operations.induct) (auto simp: apply_remote_operation_eq)

lemma apply_operations_seen: "op_id ` set ops \<subseteq> seen_ops st \<Longrightarrow> apply_operations st ops = st"
  by (induction st ops rule: apply_operations.induct) (auto simp: apply_remote_operation_eq)

lemma crdt_node_apply [simp]: "crdt_node (apply_operations st ops) = crdt_node st"
  by (induction st ops rule: apply_operations.induct) (auto simp: apply_remote_operation_eq)

text \<open>A causal log of another node can be delivered in its order.\<close>

lemma apply_operations_replica:
  assumes "replica_inv st" and "\<And>op. op \<in> set ops \<Longrightarrow> op_ok op" and "causal_from X ops"
    and "X \<subseteq> added_ids (op_log st)" and "inj_on op_id (set (op_log st) \<union> set ops)"
  shows "replica_inv (apply_operations st ops) \<and>
    set (op_log (apply_operations st ops)) = set (op_log st) \<union> set ops"
  using assms
proof (induction st ops arbitrary: X rule: apply_operations.induct)
  case (2 st op ops)
  let ?st = "fst (apply_remote_operation st op)"
  have "deliverable st op"
    using 2(4,5) replica_has_order [OF 2(2)] by (auto simp: deliverable_def)
  with 2 have r: "replica_inv ?st" by (intro replica_inv_remote) auto
  have "seen_ops st = op_id ` set (op_log st)"
    using replica_invD(1) [OF 2(2)] by (rule crdt_invD)
  moreover have "op \<in> set (op_log st)" if "op_id op \<in> op_id ` set (op_log st)"
    using that 2(6) by (auto simp: inj_on_def)
  ultimately have log: "set (op_log ?st) = insert op (set (op_log st))"
    by (auto simp: apply_remote_operation_eq)
  have inj: "inj_on op_id (set (op_log ?st) \<union> set ops)" using 2(6) log by (simp add: Un_commute)
  have "added_ids (op_log ?st) = (\<Union>x \<in> insert op (set (op_log st)). added_ids [x])"
    unfolding log [symmetric] by (auto simp: added_ids_def)
  also have "\<dots> = added_ids [op] \<union> added_ids (op_log st)" by (auto simp: added_ids_def)
  finally have ids: "(if op_type op = ADD_ORDER then insert (order_id (op_order op)) X else X)
      \<subseteq> added_ids (op_log ?st)"
    using 2(5) by auto
  from 2(1) [OF r 2(3) _ ids inj] 2(4) log show ?case by simp
qed simp

section \<open>Consistency\<close>

text \<open>C8: in every cluster that nodes reach by client calls and by delivering logged
  operations late, repeatedly, in any order or never, every node keeps its book's invariant, has
  applied exactly the operations of its log and each of them once, its clock dominates the clock
  of each, and an operation id (order id) stands for the same operation (order) everywhere.\<close>
theorem cluster_nodes_consistent:
  assumes "cluster_reachable tame c"
  shows "book_inv (book (c n)) \<and> distinct (map op_id (op_log (c n))) \<and>
    seen_ops (c n) = op_id ` set (op_log (c n)) \<and> vc_node (clock (c n)) = n \<and>
    (\<forall>op \<in> set (op_log (c n)). clock_fun (op_clock op) \<le> clock_fun (clock (c n))) \<and>
    inj_on op_id (all_ops c) \<and> adds_unique (all_ops c)"
  using cluster_invD [OF cluster_reachable_inv [OF assms]] crdt_invD
  by (simp add: ids_unique_def)

text \<open>Two nodes: the first adds an order, the second learns of it, the first sells it out.\<close>

definition node_a :: crdt_book where
  "node_a = fst (local_add_order (new_crdt ''a'') SELL 100 5 ''o'' ''p'')"

definition node_b :: crdt_book where
  "node_b = fst (apply_remote_operation (new_crdt ''b'') (added_op (new_crdt ''a'') SELL 100 5 ''o'' ''p''))"

definition node_a_sold :: crdt_book where
  "node_a_sold = fst (local_market_order (sample_order ''junk'' BUY 0 0) (\<lambda>n. ''q'') node_a BUY 5)"

definition two_nodes :: cluster where
  "two_nodes = new_cluster(''a'' := node_a, ''b'' := node_b)"

lemma new_crdt_simps [simp]:
  "crdt_node (new_crdt n) = n" "book (new_crdt n) = empty_book" "clock (new_crdt n) = new_clock n"
  "op_log (new_crdt n) = []" "seen_ops (new_crdt n) = {}"
  by (simp_all add: new_crdt_def)

lemma fresh_in_new: "fresh_id new_cluster i"
  by (simp add: fresh_id_def new_cluster_def)

lemma get_local_time_new [simp]: "get_local_time (new_clock n) = 0"
  by (simp add: get_local_time_def new_clock_def entry_def)

lemma node_a_log: "op_log node_a = [added_op (new_crdt ''a'') SELL 100 5 ''o'' ''p'']"
  by (simp add: node_a_def local_add_order_eq Let_def)

lemma two_nodes_reachable: "cluster_reachable tame two_nodes"
proof -
  let ?c = "new_cluster(''a'' := node_a)" and ?op = "added_op (new_crdt ''a'') SELL 100 5 ''o'' ''p''"
  have "cluster_step tame new_cluster (new_cluster(''a'' := fst (local_add_order (new_cluster ''a'') SELL 100 5 ''o'' ''p'')))"
    by (rule cluster_step.add) (simp_all add: fresh_in_new, simp_all add: new_cluster_def)
  then have c: "cluster_reachable tame ?c"
    by (intro cluster_reachable.step [OF cluster_reachable.start]) (simp add: node_a_def new_cluster_def)
  have "?op \<in> all_ops ?c"
    unfolding all_ops_def by (rule UN_I [of "''a''"]) (simp_all add: node_a_log)
  then have "cluster_step tame ?c (?c(''b'' := fst (apply_remote_operation (?c ''b'') ?op)))"
    by (rule cluster_step.deliver) (simp add: deliverable_def added_op_def)
  then have "cluster_reachable tame (?c(''b'' := fst (apply_remote_operation (?c ''b'') ?op)))"
    by (rule cluster_reachable.step [OF c])
  then show ?thesis by (simp add: two_nodes_def node_b_def new_cluster_def)
qed

theorem cluster_nodes_consistent_witness:
  "seen_ops (two_nodes ''b'') = op_id ` set (op_log (two_nodes ''b'')) \<and>
   book_inv (book (two_nodes ''b'')) \<and> length (op_log (two_nodes ''b'')) = 1"
proof -
  have "length (op_log (two_nodes ''b'')) = 1"
    by (simp add: two_nodes_def node_b_def apply_remote_operation_eq)
  with cluster_nodes_consistent [OF two_nodes_reachable] show ?thesis by blast
qed

section \<open>Convergence\<close>

text \<open>Replicas whose logs hold the same operations agree on the orders and on the depth.\<close>

lemma replicas_agree:
  assumes "replica_inv a" and "replica_inv b" and "set (op_log a) = set (op_log b)"
    and "adds_unique (set (op_log a))"
  shows "map_of (orders (book a)) = map_of (orders (book b))"
    and "side_depth (bids (book a)) = side_depth (bids (book b))"
    and "side_depth (asks (book a)) = side_depth (asks (book b))"
    and "set (get_all_orders (book a)) = set (get_all_orders (book b))"
proof -
  note A = replica_invD [OF assms(1)] and B = replica_invD [OF assms(2)]
  note I = book_invD [OF crdt_invD(1) [OF A(1)]] and J = book_invD [OF crdt_invD(1) [OF B(1)]]
  show m: "map_of (orders (book a)) = map_of (orders (book b))"
    using A(3) B(3) order_view_set [OF assms(3,4)] by simp
  show "side_depth (bids (book a)) = side_depth (bids (book b))"
    by (rule bid_side.depth_determined [OF I(2) J(2) m I(4) J(4)])
  show "side_depth (asks (book a)) = side_depth (asks (book b))"
    by (rule ask_side.depth_determined [OF I(3) J(3) m I(4) J(4)])
  have "set (orders (book a)) = set (orders (book b))"
    using m I(4) J(4) by (metis map_of_eqI map_of_inject_set)
  then show "set (get_all_orders (book a)) = set (get_all_orders (book b))"
    by (simp add: get_all_orders_def)
qed

text \<open>Nodes of a cluster that have seen the same operations.\<close>

lemma cluster_agrees:
  assumes "cluster_inv True c" and "seen_ops (c n) = seen_ops (c m)"
  shows "map_of (orders (book (c n))) = map_of (orders (book (c m)))"
    and "side_depth (bids (book (c n))) = side_depth (bids (book (c m)))"
    and "side_depth (asks (book (c n))) = side_depth (asks (book (c m)))"
    and "set (get_all_orders (book (c n))) = set (get_all_orders (book (c m)))"
proof -
  note C = cluster_invD [OF assms(1)]
  have sub: "set (op_log (c k)) \<subseteq> all_ops c" for k by (auto simp: all_ops_def)
  have "op_id ` set (op_log (c n)) = op_id ` set (op_log (c m))"
    using assms(2) crdt_invD(5) [OF C(1)] by simp
  then have same: "set (op_log (c n)) = set (op_log (c m))"
    using C(5) sub inj_on_image_eq_iff [of op_id "all_ops c"] by (simp add: ids_unique_def)
  have "adds_unique (set (op_log (c n)))"
    using C(5) sub [of n] by (simp add: ids_unique_def adds_unique_def subset_iff)
  from replicas_agree [OF C(4,4) same this]
  show "map_of (orders (book (c n))) = map_of (orders (book (c m)))"
    "side_depth (bids (book (c n))) = side_depth (bids (book (c m)))"
    "side_depth (asks (book (c n))) = side_depth (asks (book (c m)))"
    "set (get_all_orders (book (c n))) = set (get_all_orders (book (c m)))" by simp_all
qed

text \<open>C5: in a cluster without market orders in which a cancel is only delivered where its
  order is known, two nodes that have applied the same operations, in whatever orders, hold the
  same orders in the same condition, list the same active orders and show the same depth.\<close>
theorem replicas_converge:
  assumes "cluster_reachable True c" and "seen_ops (c n) = seen_ops (c m)"
  shows "map_of (orders (book (c n))) = map_of (orders (book (c m))) \<and>
    side_depth (bids (book (c n))) = side_depth (bids (book (c m))) \<and>
    side_depth (asks (book (c n))) = side_depth (asks (book (c m))) \<and>
    set (get_all_orders (book (c n))) = set (get_all_orders (book (c m)))"
  using cluster_agrees [OF cluster_reachable_inv [OF assms(1)] assms(2)] by blast

theorem replicas_converge_witness:
  "side_depth (asks (book (two_nodes ''a''))) = side_depth (asks (book (two_nodes ''b''))) \<and>
   side_depth (asks (book (two_nodes ''a''))) = [(100, 5)]"
proof -
  have "seen_ops (two_nodes ''a'') = seen_ops (two_nodes ''b'')"
    by (simp add: two_nodes_def node_a_def node_b_def local_add_order_eq apply_remote_operation_eq Let_def
        added_op_def)
  moreover have "side_depth (asks (book (two_nodes ''a''))) = [(100, 5)]"
    by code_simp
  ultimately show ?thesis
    using replicas_converge [OF two_nodes_reachable, of "''a''" "''b''"] by simp
qed

text \<open>C7: from any point of a cluster without market orders and without a cancel delivered before its order, one exchange of full logs, each delivered in the
  order the other node logged it, brings two nodes to the same operations, orders and depth: the
  cancels of a log are never delivered before their orders.\<close>
theorem full_exchange_converges:
  assumes "cluster_reachable True c"
    and "a = apply_operations (c n) (get_operation_log (c m))"
    and "b = apply_operations (c m) (get_operation_log (c n))"
  shows "set (op_log a) = set (op_log (c n)) \<union> set (op_log (c m)) \<and> seen_ops a = seen_ops b \<and>
    map_of (orders (book a)) = map_of (orders (book b)) \<and>
    side_depth (bids (book a)) = side_depth (bids (book b)) \<and>
    side_depth (asks (book a)) = side_depth (asks (book b))"
proof -
  note C = cluster_invD [OF cluster_reachable_inv [OF assms(1)]]
  have inj: "inj_on op_id (set (op_log (c k)) \<union> set (op_log (c j)))" for k j
    by (rule inj_on_subset [of op_id "all_ops c"]) (use C(5) in \<open>auto simp: ids_unique_def all_ops_def\<close>)
  have ex: "replica_inv (apply_operations (c k) (op_log (c j))) \<and>
      set (op_log (apply_operations (c k) (op_log (c j)))) = set (op_log (c k)) \<union> set (op_log (c j))" for k j
    using C(4) [of k] C(4) [of j] C(6) inj
    by (intro apply_operations_replica [where X = "{}"]) (auto simp: replica_inv_def all_ops_def)
  have a: "replica_inv a" "set (op_log a) = set (op_log (c n)) \<union> set (op_log (c m))"
    and b: "replica_inv b" "set (op_log b) = set (op_log (c m)) \<union> set (op_log (c n))"
    using ex [of n m] ex [of m n] by (simp_all add: assms(2,3) get_operation_log_def)
  have "set (op_log a) \<subseteq> all_ops c" using a(2) by (auto simp: all_ops_def)
  then have u: "adds_unique (set (op_log a))"
    using C(5) by (simp add: ids_unique_def adds_unique_def subset_iff)
  have same: "set (op_log a) = set (op_log b)" using a(2) b(2) by blast
  then have "seen_ops a = seen_ops b"
    using crdt_invD(5) [OF replica_invD(1) [OF a(1)]] crdt_invD(5) [OF replica_invD(1) [OF b(1)]] by simp
  with replicas_agree [OF a(1) b(1) same u] a(2) show ?thesis by blast
qed

theorem full_exchange_converges_witness:
  "seen_ops (apply_operations (two_nodes ''c'') (get_operation_log (two_nodes ''a''))) = {''p''} \<and>
   side_depth (asks (book (apply_operations (two_nodes ''c'') (get_operation_log (two_nodes ''a''))))) =
     side_depth (asks (book (apply_operations (two_nodes ''a'') (get_operation_log (two_nodes ''c'')))))"
proof -
  have "seen_ops (apply_operations (two_nodes ''c'') (get_operation_log (two_nodes ''a''))) = {''p''}"
    by (simp add: seen_apply_operations two_nodes_def new_cluster_def get_operation_log_def node_a_log
        added_op_def del: apply_operations.simps)
  with full_exchange_converges [OF two_nodes_reachable refl refl] show ?thesis by blast
qed

section \<open>How single operations replicate\<close>

text \<open>Delivery is idempotent: applying a batch of operations a second time, whatever
  happened in it, changes nothing; an operation is applied (and reported as new) exactly when its
  id was not seen, and is then logged once and merges its clock.\<close>
theorem delivery_idempotent:
  "apply_operations (apply_operations st ops) ops = apply_operations st ops \<and>
   (case apply_remote_operation st op of (st', new) \<Rightarrow>
      (new \<longleftrightarrow> op_id op \<notin> seen_ops st) \<and>
      (if new then op_log st' = op_log st @ [op] \<and> clock st' = merge (clock st) (op_clock op) else st' = st) \<and>
      apply_remote_operation st' op = (st', False))"
  using apply_operations_seen [of ops "apply_operations st ops"]
  by (simp add: seen_apply_operations apply_remote_operation_eq)

text \<open>Adding an order locally logs one operation that carries it at its full quantity,
  stamped with the ticked clock; a replica that has not seen the operation and does not know the
  order queues it, on the same side, behind everything it has at the same or a better price,
  exactly as the adding node did.\<close>
theorem local_add_replicates:
  assumes "crdt_inv a" and "crdt_inv r" and "0 < qty" and "qty < 2 ^ 63"
    and "\<not> has_order (book a) oid" and "\<not> has_order (book r) oid" and "opid \<notin> seen_ops r"
    and "local_add_order a sd pr qty oid opid = (a', i)"
    and "apply_remote_operation r (last (op_log a')) = (r', new)"
  shows "i = oid \<and> butlast (op_log a') = op_log a \<and> timestamp (op_order (last (op_log a'))) = get_local_time (clock a') \<and>
    op_clock (last (op_log a')) = clock a' \<and> clock a' = fst (tick (clock a)) \<and> new \<and>
    (\<forall>(s, s') \<in> {(a, a'), (r, r')}.
      resting_bids (book s') = (if sd = BUY then a_insert (>) (oid, pr, qty) (resting_bids (book s))
                                else resting_bids (book s)) \<and>
      resting_asks (book s') = (if sd = BUY then resting_asks (book s)
                                else a_insert (<) (oid, pr, qty) (resting_asks (book s))))"
proof -
  let ?op = "added_op a sd pr qty oid opid"
  have a': "a' = log_op ?op (a\<lparr>book := store_effect (book a) ?op, clock := fst (tick (clock a))\<rparr>)" "i = oid"
    using assms(8) by (auto simp: local_add_order_eq [OF assms(5)] Let_def)
  have r': "r' = log_op ?op (r\<lparr>book := store_effect (book r) ?op, clock := merge (clock r) (op_clock ?op)\<rparr>)" "new"
    using assms(9) assms(7) by (simp_all add: a' apply_remote_operation_eq added_op_def split: if_splits)
  have ok: "order_ok (op_order ?op)" using added_op_ok [OF assms(1,3,4)] by (simp add: op_ok_def added_op_def)
  have eff: "store_effect b ?op = place_order b (op_order ?op)" if "\<not> has_order b oid" for b
    using that by (simp add: effect_def added_op_def insert_replicated_order_def has_order_def)
  have fr: "\<not> has_order (book s) (order_id (op_order ?op))" if "s \<in> {a, r}" for s
    using that assms(5,6) by (auto simp: added_op_def)
  have rest: "resting_of (op_order ?op) = (oid, pr, qty)" "side (op_order ?op) = sd"
    by (simp_all add: resting_of_def added_op_def)
  have q: "resting_bids (place_order (book s) (op_order ?op)) =
        (if sd = BUY then a_insert (>) (oid, pr, qty) (resting_bids (book s)) else resting_bids (book s)) \<and>
      resting_asks (place_order (book s) (op_order ?op)) =
        (if sd = BUY then resting_asks (book s) else a_insert (<) (oid, pr, qty) (resting_asks (book s)))"
    if "s \<in> {a, r}" for s
    using place_order_resting [OF _ fr [OF that] ok] that crdt_invD(1) [OF assms(1)]
      crdt_invD(1) [OF assms(2)] unfolding rest by auto
  have t: "get_local_time (fst (tick (clock a))) = snd (tick (clock a))"
    by (simp add: tick_def get_local_time_def Let_def)
  show ?thesis
    using q [of a] q [of r] eff [OF assms(5)] eff [OF assms(6)] a' r' t
    by (simp add: added_op_def [THEN arg_cong [where f = op_clock]] added_op_def [THEN arg_cong [where f = op_order]])
qed

theorem local_add_replicates_witness:
  "resting_asks (book node_a) = [(''o'', 100, 5)] \<and> resting_asks (book node_b) = [(''o'', 100, 5)]"
proof -
  let ?op = "added_op (new_crdt ''a'') SELL 100 5 ''o'' ''p''"
  have last: "last (op_log (fst (local_add_order (new_crdt ''a'') SELL 100 5 ''o'' ''p''))) = ?op"
    by (simp add: local_add_order_eq Let_def)
  have e: "resting_asks empty_book = []" by code_simp
  show ?thesis
    using local_add_replicates [OF crdt_inv_new crdt_inv_new _ _ _ _ _ surjective_pairing surjective_pairing,
        of 5 "''a''" "''o''" "''b''" "''p''" SELL 100]
    by (simp add: last node_a_def node_b_def a_insert_def e)
qed

text \<open>A local cancel succeeds exactly when the order rests on the node's book; it then
  logs one operation for it. A cancel of an id the book never held leaves the node untouched, one
  of an order that is gone only moves the clock.\<close>
theorem local_cancel_outcomes:
  assumes "crdt_inv st" and "local_cancel_order junk st oid opid = (st', ok)"
  shows "(ok \<longleftrightarrow> oid \<in> fst ` set (resting_bids (book st) @ resting_asks (book st))) \<and>
    resting_bids (book st') = a_remove oid (resting_bids (book st)) \<and>
    resting_asks (book st') = a_remove oid (resting_asks (book st)) \<and>
    (if ok then cancels (last (op_log st')) oid \<and> butlast (op_log st') = op_log st
     else if has_order (book st) oid then st' = st\<lparr>clock := fst (tick (clock st))\<rparr> else st' = st)"
proof -
  note I = book_invD [OF crdt_invD(1) [OF assms(1)]]
  have rem: "apply_replicated_cancel (book st) oid = book st"
    if "\<not> has_order (book st) oid \<or> is_cancelled (deref (orders (book st)) oid)"
    by (rule apply_replicated_cancel_none) (use that in \<open>auto simp: has_order_def deref_def\<close>)
  have bk: "book st' = apply_replicated_cancel (book st) oid"
    using assms(2) rem
    by (auto simp: local_cancel_order_eq Let_def effect_def cancel_operation_def split: if_splits)
  have "fst ` set (resting_bids (book st) @ resting_asks (book st)) =
      live_ids (orders (book st)) True \<union> live_ids (orders (book st)) False"
    using I(2,3) by (simp add: resting_bids_def resting_asks_def resting_def side_inv_def image_Un image_image)
  moreover have "ok \<longleftrightarrow> has_order (book st) oid \<and> \<not> is_cancelled (deref (orders (book st)) oid)"
    using assms(2) by (auto simp: local_cancel_order_eq Let_def split: if_splits)
  ultimately have "ok \<longleftrightarrow> oid \<in> fst ` set (resting_bids (book st) @ resting_asks (book st))"
    using in_live_ids [OF I(4)] by (auto simp: has_order_def deref_def)
  moreover have "if ok then cancels (last (op_log st')) oid \<and> butlast (op_log st') = op_log st
     else if has_order (book st) oid then st' = st\<lparr>clock := fst (tick (clock st))\<rparr> else st' = st"
    using assms(2) by (auto simp: local_cancel_order_eq Let_def cancel_operation_def split: if_splits)
  ultimately show ?thesis
    using apply_replicated_cancel_resting [OF crdt_invD(1) [OF assms(1)]] bk by simp
qed

lemma node_a_inv: "crdt_inv node_a"
  using crdt_inv_add [OF crdt_inv_new, of "''a''" "''o''" "''p''" 5 SELL 100] by (simp add: node_a_def)

theorem local_cancel_outcomes_witness:
  "snd (local_cancel_order (sample_order ''junk'' BUY 0 0) node_a ''o'' ''q'') \<and>
   resting_asks (book (fst (local_cancel_order (sample_order ''junk'' BUY 0 0) node_a ''o'' ''q''))) = [] \<and>
   fst (local_cancel_order (sample_order ''junk'' BUY 0 0) node_a ''zz'' ''q'') = node_a"
proof -
  have h: "''o'' \<in> fst ` set (resting_bids (book node_a) @ resting_asks (book node_a))"
    "a_remove ''o'' (resting_asks (book node_a)) = []" "\<not> has_order (book node_a) ''zz''"
    "''zz'' \<notin> fst ` set (resting_bids (book node_a) @ resting_asks (book node_a))"
    by code_simp+
  show ?thesis
    using local_cancel_outcomes [OF node_a_inv surjective_pairing, of "sample_order ''junk'' BUY 0 0" "''o''" "''q''"]
      local_cancel_outcomes [OF node_a_inv surjective_pairing, of "sample_order ''junk'' BUY 0 0" "''zz''" "''q''"] h
    by auto
qed

section \<open>Where replicas part\<close>

text \<open>C18: a market order never produces an operation, although a loop over its fills is
  there to do so: the loop looks for fills whose order the book has forgotten, and the book never
  forgets one. The log and the set of seen ids stay as they were, whatever was filled.\<close>
theorem market_order_never_replicated:
  assumes "crdt_inv st" and "fits64 qty"
  shows "op_log (fst (local_market_order junk uuid st sd qty)) = op_log st \<and>
    seen_ops (fst (local_market_order junk uuid st sd qty)) = seen_ops st \<and>
    snd (local_market_order junk uuid st sd qty) = snd (match_market_order (book st) sd qty)"
  by (simp add: local_market_order_eq [OF crdt_invD(1) [OF assms(1)] assms(2)])

theorem market_order_never_replicated_witness:
  "op_log node_a_sold = op_log node_a \<and> resting_asks (book node_a_sold) = []"
proof -
  have "resting_asks (book node_a_sold) = []" by code_simp
  moreover have "fits64 5" by (simp add: fits64_def)
  ultimately show ?thesis
    using market_order_never_replicated [OF node_a_inv] by (simp add: node_a_sold_def)
qed

text \<open>C19: so replicas diverge for good: a cluster without loss reaches a state in which two
  nodes have applied the same operations, nothing is left to deliver between them, and one of
  them still offers an order the other has sold.\<close>
theorem market_orders_diverge:
  "\<exists>c. cluster_reachable False c \<and> seen_ops (c ''a'') = seen_ops (c ''b'') \<and>
     apply_operations (c ''a'') (get_operation_log (c ''b'')) = c ''a'' \<and>
     apply_operations (c ''b'') (get_operation_log (c ''a'')) = c ''b'' \<and>
     side_depth (asks (book (c ''a''))) = [] \<and> side_depth (asks (book (c ''b''))) = [(100, 5)]"
proof -
  have q: "fits64 5" by (simp add: fits64_def)
  have a: "two_nodes ''a'' = node_a" by (simp add: two_nodes_def)
  have "cluster_step False two_nodes
      (two_nodes(''a'' := fst (local_market_order (sample_order ''junk'' BUY 0 0) (\<lambda>n. ''q'') (two_nodes ''a'') BUY 5)))"
  proof (rule cluster_step.market)
    show "can_tick (two_nodes ''a'')" by code_simp
  qed (simp_all add: q)
  then have r: "cluster_reachable False (two_nodes(''a'' := node_a_sold))"
    unfolding a node_a_sold_def by (rule cluster_reachable.step [OF two_nodes_reachable])
  have sold: "op_log node_a_sold = op_log node_a" "seen_ops node_a_sold = seen_ops node_a"
    using local_market_order_eq [OF crdt_invD(1) [OF node_a_inv] q] by (simp_all add: node_a_sold_def)
  have same: "seen_ops node_a = {''p''}" "seen_ops node_b = {''p''}" "op_log node_b = op_log node_a"
    "op_id ` set (op_log node_a) = {''p''}"
    by (simp_all add: node_a_def node_b_def local_add_order_eq apply_remote_operation_eq Let_def added_op_def)
  have d: "side_depth (asks (book node_a_sold)) = []" "side_depth (asks (book node_b)) = [(100, 5)]"
    by code_simp+
  show ?thesis
    by (rule exI [of _ "two_nodes(''a'' := node_a_sold)"])
       (use r sold same d in \<open>simp add: two_nodes_def get_operation_log_def apply_operations_seen\<close>)
qed

text \<open>C20: a cancel that overtakes its add is lost: the node that receives the add first ends
  with the order cancelled, the node that receives the cancel first with the order alive, both
  have seen the same operations, and delivering the cancel again does not help.\<close>
theorem early_cancel_lost:
  assumes "crdt_inv st" and "adds op oid" and "cancels k oid" and "\<not> is_cancelled (op_order op)"
    and "\<not> has_order (book st) oid" and "op_id op \<notin> seen_ops st" and "op_id k \<notin> seen_ops st"
    and "op_id op \<noteq> op_id k"
    and "late = apply_operations st [op, k]" and "early = apply_operations st [k, op]"
  shows "seen_ops early = seen_ops late \<and> set (op_log early) = set (op_log late) \<and>
    map_of (orders (book late)) oid = Some ((op_order op)\<lparr>is_cancelled := True\<rparr>) \<and>
    map_of (orders (book early)) oid = Some (op_order op) \<and>
    apply_remote_operation early k = (early, False)"
proof -
  have none: "map_of (orders (book st)) oid = None" using assms(5) by (simp add: has_order_def)
  have "apply_replicated_cancel (book st) oid = book st"
    by (rule apply_replicated_cancel_none) (simp add: none)
  then show ?thesis
    using assms(2-4,6-8) none
    by (auto simp: assms(9,10) apply_remote_operation_eq effect_def book_store.look_ins book_store.look_canc)
qed

theorem early_cancel_lost_witness:
  "side_depth (asks (book (apply_operations (new_crdt ''b'')
       [cancel_operation (sample_order ''junk'' BUY 0 0) node_a ''o'' ''q'', hd (op_log node_a)]))) = [(100, 5)] \<and>
   is_cancelled (the (map_of (orders (book (apply_operations (new_crdt ''b'')
       [hd (op_log node_a), cancel_operation (sample_order ''junk'' BUY 0 0) node_a ''o'' ''q'']))) ''o''))"
proof -
  let ?op = "added_op (new_crdt ''a'') SELL 100 5 ''o'' ''p''"
    and ?k = "cancel_operation (sample_order ''junk'' BUY 0 0) node_a ''o'' ''q''"
  have d: "side_depth (asks (book (apply_operations (new_crdt ''b'') [?k, hd (op_log node_a)]))) = [(100, 5)]"
    by code_simp
  have h: "adds ?op ''o''" "cancels ?k ''o''" "\<not> is_cancelled (op_order ?op)" "op_id ?op \<noteq> op_id ?k"
    by (simp_all add: added_op_def cancel_operation_def)
  show ?thesis
    using early_cancel_lost [OF crdt_inv_new [of "''b''"] h(1-3) _ _ _ h(4) refl refl] d
    by (simp add: node_a_log)
qed

section \<open>Anti-entropy\<close>

lemma operations_since_iff:
  assumes "crdt_inv st" and "clock_inv vc"
  shows "op \<in> set (get_operations_since st vc) \<longleftrightarrow>
    op \<in> set (op_log st) \<and> \<not> clock_fun (op_clock op) < clock_fun vc \<and>
    map_of (vc_clock (op_clock op)) \<noteq> map_of (vc_clock vc)"
proof -
  have "clock_inv (op_clock op)" if "op \<in> set (op_log st)"
    using crdt_invD(6) [OF assms(1) that] by (simp add: op_ok_def)
  then show ?thesis
    using assms(2) happens_before_iff same_entries_iff
    by (auto simp: get_operations_since_def clock_inv_def)
qed

lemma clock_fun_map_of: "map_of (vc_clock a) = map_of (vc_clock b) \<Longrightarrow> clock_fun a = clock_fun b"
  by (simp add: clock_fun_def entry_def fun_eq_iff)

text \<open>An operation whose clock the peer's clock does not dominate is sent.\<close>

lemma operations_since_covers:
  assumes "crdt_inv st" and "clock_inv vc" and "op \<in> set (op_log st)"
    and "\<not> clock_fun (op_clock op) \<le> clock_fun vc"
  shows "op \<in> set (get_operations_since st vc)"
  using assms clock_fun_map_of [of "op_clock op" vc]
  by (auto simp: operations_since_iff [OF assms(1,2)] less_imp_le)

text \<open>C21: the operations a node sends a peer are those of its log, in log order, whose
  clock the peer's clock does not dominate; and when the peer has applied every operation its
  clock dominates, one such answer, applied, leaves it without a missing operation.\<close>
theorem operations_since_complete:
  assumes "crdt_inv st" and "crdt_inv peer"
    and "\<forall>op \<in> set (op_log st). clock_fun (op_clock op) \<le> clock_fun (clock peer) \<longrightarrow> op_id op \<in> seen_ops peer"
  shows "subseq (get_operations_since st (get_clock peer)) (op_log st) \<and>
    (\<forall>op \<in> set (get_operations_since st (get_clock peer)). \<not> clock_fun (op_clock op) < clock_fun (clock peer)) \<and>
    seen_ops st \<subseteq> seen_ops (apply_operations peer (get_operations_since st (get_clock peer)))"
proof -
  have since: "op \<in> set (get_operations_since st (get_clock peer)) \<longleftrightarrow>
    op \<in> set (op_log st) \<and> \<not> clock_fun (op_clock op) < clock_fun (clock peer) \<and>
    map_of (vc_clock (op_clock op)) \<noteq> map_of (vc_clock (clock peer))" for op
    using operations_since_iff [OF assms(1) crdt_invD(2) [OF assms(2)]] by (simp add: get_clock_def)
  have "op_id op \<in> seen_ops peer \<or> op \<in> set (get_operations_since st (get_clock peer))"
    if "op \<in> set (op_log st)" for op
    using that assms(3) operations_since_covers [OF assms(1) crdt_invD(2) [OF assms(2)] that]
    by (auto simp: get_clock_def)
  then have "seen_ops st \<subseteq> seen_ops (apply_operations peer (get_operations_since st (get_clock peer)))"
    unfolding seen_apply_operations crdt_invD(5) [OF assms(1)] by blast
  moreover have "subseq (get_operations_since st (get_clock peer)) (op_log st)"
    by (simp add: get_operations_since_def)
  ultimately show ?thesis using since by blast
qed

theorem operations_since_complete_witness:
  "seen_ops (apply_operations (new_crdt ''b'') (get_operations_since node_a (get_clock (new_crdt ''b'')))) = {''p''}"
proof -
  have log: "op_log node_a = [added_op (new_crdt ''a'') SELL 100 5 ''o'' ''p'']"
    "seen_ops node_a = {''p''}"
    by (simp_all add: node_a_log crdt_invD(5) [OF node_a_inv]) (simp add: added_op_def)
  have "clock_fun (op_clock (added_op (new_crdt ''a'') SELL 100 5 ''o'' ''p'')) ''a'' = 1"
    "clock_fun (new_clock ''b'') ''a'' = 0"
    by code_simp+
  then have "\<not> clock_fun (op_clock (added_op (new_crdt ''a'') SELL 100 5 ''o'' ''p'')) \<le> clock_fun (clock (new_crdt ''b''))"
    by (auto simp: le_fun_def intro!: exI [of _ "''a''"])
  then have "seen_ops node_a \<subseteq> seen_ops (apply_operations (new_crdt ''b'')
      (get_operations_since node_a (get_clock (new_crdt ''b''))))"
    using operations_since_complete [OF node_a_inv crdt_inv_new [of "''b''"]] log by simp
  moreover have "set (get_operations_since node_a (get_clock (new_crdt ''b''))) \<subseteq> set (op_log node_a)"
    by (auto simp: get_operations_since_def)
  ultimately show ?thesis
    unfolding seen_apply_operations log by (auto simp: added_op_def)
qed

lemma apply_operations_grows:
  "crdt_inv st \<Longrightarrow> list_all op_ok ops \<Longrightarrow>
    crdt_inv (apply_operations st ops) \<and> clock_fun (clock st) \<le> clock_fun (clock (apply_operations st ops))"
proof (induction st ops rule: apply_operations.induct)
  case (2 st op ops)
  have "clock_fun (clock st) \<le> clock_fun (clock (fst (apply_remote_operation st op)))"
    using 2(3) by (simp add: apply_remote_operation_eq clock_fun_merge op_ok_def le_fun_def)
  with 2 show ?case using crdt_inv_remote [of st op] by (simp, blast intro: order_trans)
qed simp

text \<open>C22: without that condition operations stay missing. A node that receives an operation
  before an earlier one of the same log takes over its clock, and from then on, whatever other operations it
  applies, the log's owner does not list the earlier operation when it is asked what is missing, by a sync request
  or a pull: its whole answer leaves the operation unseen, unless it came by another way, such as a push of the
  last 20 operations.\<close>
theorem later_operation_hides_earlier:
  assumes "crdt_inv st" and "crdt_inv peer" and "earlier \<in> set (op_log st)" and "later \<in> set (op_log st)"
    and "happens_before (op_clock earlier) (op_clock later)"
    and "op_id earlier \<notin> seen_ops peer" and "op_id later \<notin> seen_ops peer" and "list_all op_ok others"
    and "peer' = apply_operations (fst (apply_remote_operation peer later)) others"
  shows "earlier \<notin> set (get_operations_since st (get_clock peer')) \<and>
    (op_id earlier \<notin> op_id ` set others \<longrightarrow>
      op_id earlier \<notin> seen_ops (apply_operations peer' (get_operations_since st (get_clock peer'))))"
proof -
  let ?peer = "fst (apply_remote_operation peer later)"
  note ok = crdt_invD(6) [OF assms(1,3)] crdt_invD(6) [OF assms(1,4)]
  have "crdt_inv ?peer" using crdt_inv_remote [OF assms(2) ok(2)] .
  from apply_operations_grows [OF this assms(8)]
  have inv': "crdt_inv peer'" and grows: "clock_fun (clock ?peer) \<le> clock_fun (clock peer')" by (simp_all add: assms(9))
  have lt: "clock_fun (op_clock earlier) < clock_fun (op_clock later)"
    using assms(5) ok happens_before_iff by (simp add: op_ok_def)
  have "clock_fun (op_clock later) \<le> clock_fun (clock ?peer)"
    using assms(7) ok(2) by (simp add: apply_remote_operation_eq clock_fun_merge op_ok_def le_fun_def)
  with lt grows have hidden: "earlier \<notin> set (get_operations_since st (get_clock peer'))"
    using operations_since_iff [OF assms(1) crdt_invD(2) [OF inv']] by (auto simp: get_clock_def)
  have ids: "inj_on op_id (set (op_log st))" using crdt_invD(4) [OF assms(1)] by (simp add: distinct_map)
  have "earlier \<noteq> later" using lt by auto
  then have "op_id earlier \<noteq> op_id later" using ids assms(3,4) by (auto dest: inj_onD)
  moreover have "op_id earlier \<notin> op_id ` set (get_operations_since st (get_clock peer'))"
  proof
    assume "op_id earlier \<in> op_id ` set (get_operations_since st (get_clock peer'))"
    then obtain op where op: "op \<in> set (get_operations_since st (get_clock peer'))" "op_id op = op_id earlier" by auto
    then have "op \<in> set (op_log st)" by (simp add: get_operations_since_def)
    then have "op = earlier" using ids assms(3) op(2) by (auto dest: inj_onD)
    with op(1) hidden show False by blast
  qed
  moreover have "seen_ops ?peer = insert (op_id later) (seen_ops peer)"
    using assms(7) by (simp add: apply_remote_operation_eq)
  ultimately show ?thesis using hidden assms(6) by (auto simp: assms(9) seen_apply_operations)
qed

definition node_a_twice :: crdt_book where
  "node_a_twice = fst (local_add_order node_a BUY 99 7 ''o2'' ''p2'')"

theorem later_operation_hides_earlier_witness:
  "length (op_log node_a_twice) = 2 \<and>
   ''p'' \<notin> seen_ops (apply_operations (fst (apply_remote_operation (new_crdt ''b'') (op_log node_a_twice ! 1)))
     (get_operations_since node_a_twice
       (get_clock (fst (apply_remote_operation (new_crdt ''b'') (op_log node_a_twice ! 1))))))"
proof -
  let ?op = "added_op (new_crdt ''a'') SELL 100 5 ''o'' ''p''" and ?op2 = "added_op node_a BUY 99 7 ''o2'' ''p2''"
  have fresh: "\<not> has_order (book node_a) ''o2''" "can_tick node_a" by code_simp+
  have seen: "''p2'' \<notin> seen_ops node_a"
    by (simp add: node_a_def local_add_order_eq Let_def added_op_def)
  have log: "op_log node_a_twice = [?op, ?op2]"
    by (simp add: node_a_twice_def local_add_order_eq fresh Let_def node_a_log)
  have inv: "crdt_inv node_a_twice"
    using crdt_inv_add [OF node_a_inv fresh(2,1) seen] by (simp add: node_a_twice_def)
  have hb: "happens_before (op_clock ?op) (op_clock ?op2)" by code_simp
  have "op_id ?op = ''p''" "op_id ?op2 = ''p2''" by (simp_all add: added_op_def)
  then show ?thesis
    using later_operation_hides_earlier [OF inv crdt_inv_new [of "''b''"] _ _ hb _ _ _ refl, of "[]"] log by simp
qed

end
