(* ===== verification/Message.thy ===== *)
theory Message
  imports CRDT
begin

text \<open>
  The datagrams nodes exchange (\<^verbatim>\<open>gossip/message.cpp\<close>): orders, operations and messages
  as bytes, the bounds-checked reader, and the reads that go around it into
  \<^verbatim>\<open>VectorClock::deserialize\<close>.
\<close>

section \<open>Enumerations on the wire\<close>

datatype message_type = GOSSIP_PUSH | GOSSIP_PULL | GOSSIP_PUSH_PULL | HEARTBEAT
  | ANTI_ENTROPY_REQ | ANTI_ENTROPY_RES | MessageType_other u8

record message =
  msg_type :: message_type
  sender_id :: string
  sender_clock :: vector_clock
  operations :: "operation list"

definition side_byte :: "side \<Rightarrow> u8" where
  "side_byte s = (case s of BUY \<Rightarrow> 0 | SELL \<Rightarrow> 1 | Side_other b \<Rightarrow> b)"

definition byte_side :: "u8 \<Rightarrow> side" where
  "byte_side b = (if b = 0 then BUY else if b = 1 then SELL else Side_other b)"

definition optype_byte :: "optype \<Rightarrow> u8" where
  "optype_byte t = (case t of ADD_ORDER \<Rightarrow> 0 | CANCEL_ORDER \<Rightarrow> 1 | OpType_other b \<Rightarrow> b)"

definition byte_optype :: "u8 \<Rightarrow> optype" where
  "byte_optype b = (if b = 0 then ADD_ORDER else if b = 1 then CANCEL_ORDER else OpType_other b)"

definition type_byte :: "message_type \<Rightarrow> u8" where
  "type_byte t = (case t of GOSSIP_PUSH \<Rightarrow> 1 | GOSSIP_PULL \<Rightarrow> 2 | GOSSIP_PUSH_PULL \<Rightarrow> 3
     | HEARTBEAT \<Rightarrow> 4 | ANTI_ENTROPY_REQ \<Rightarrow> 5 | ANTI_ENTROPY_RES \<Rightarrow> 6 | MessageType_other b \<Rightarrow> b)"

definition byte_type :: "u8 \<Rightarrow> message_type" where
  "byte_type b =
     (if b = 1 then GOSSIP_PUSH else if b = 2 then GOSSIP_PULL else if b = 3 then GOSSIP_PUSH_PULL
      else if b = 4 then HEARTBEAT else if b = 5 then ANTI_ENTROPY_REQ
      else if b = 6 then ANTI_ENTROPY_RES else MessageType_other b)"

section \<open>Writing\<close>

definition write_u8 :: "u8 \<Rightarrow> u8 list" where
  "write_u8 v = [v]"

text \<open>\<^verbatim>\<open>static_cast<int64_t>(v * 10000.0)\<close>: the product is rounded, then truncated.\<close>

definition write_double :: "double \<Rightarrow> u8 list" where
  "write_double v = be64 (word_of_int (double_to_i64 (dmul v 10000)))"

definition write_order :: "order \<Rightarrow> u8 list" where
  "write_order ord =
     write_string (order_id ord) @ write_string (node_id ord) @ write_u8 (side_byte (side ord)) @
     write_double (price ord) @ be64 (word_of_int (quantity ord)) @
     be64 (word_of_int (remaining ord)) @ be64 (timestamp ord) @
     write_u8 (if is_cancelled ord then 1 else 0)"

definition write_operation :: "operation \<Rightarrow> u8 list" where
  "write_operation op =
     write_u8 (optype_byte (op_type op)) @ write_order (op_order op) @
     write_string (cancel_order_id op) @ write_string (origin_node op) @
     be32 (word_of_nat (length (vc_serialize (op_clock op)))) @ vc_serialize (op_clock op) @
     write_string (op_id op)"

text \<open>The length field is written as 0 first and patched once the length is known.\<close>

definition msg_serialize :: "message \<Rightarrow> u8 list" where
  "msg_serialize msg =
     (let buf = write_u8 (type_byte (msg_type msg)) @ be32 0 @ write_string (sender_id msg) @
            be32 (word_of_nat (length (vc_serialize (sender_clock msg)))) @
            vc_serialize (sender_clock msg) @ be32 (word_of_nat (length (operations msg))) @
            concat (map write_operation (operations msg))
      in take 1 buf @ be32 (word_of_nat (length buf)) @ drop 5 buf)"

section \<open>Reading\<close>

definition read_double :: "double reader" where
  "read_double bs =
     rbind (read_u64 Overrun bs) (\<lambda>(v, r). Inr (ddiv (double_of_int (sint v)) 10000, r))"

definition read_order :: "order reader" where
  "read_order bs =
     rbind (read_string Overrun bs) (\<lambda>(oid, r).
     rbind (read_string Overrun r) (\<lambda>(nid, r).
     rbind (read_u8 Overrun r) (\<lambda>(sd, r).
     rbind (read_double r) (\<lambda>(pr, r).
     rbind (read_u64 Overrun r) (\<lambda>(qty, r).
     rbind (read_u64 Overrun r) (\<lambda>(rem, r).
     rbind (read_u64 Overrun r) (\<lambda>(ts, r).
     rbind (read_u8 Overrun r) (\<lambda>(canc, r).
     Inr (\<lparr>order_id = oid, node_id = nid, side = byte_side sd, price = pr, quantity = sint qty,
           remaining = sint rem, timestamp = ts, is_cancelled = (canc \<noteq> 0)\<rparr>, r)))))))))"

text \<open>
  \<^verbatim>\<open>check(clock_len)\<close>, then the clock is read through a bare pointer from the current
  position, and the position moves by \<^verbatim>\<open>clock_len\<close>, however much was read.
\<close>

definition read_clock :: "vector_clock reader" where
  "read_clock bs =
     rbind (read_u32 Overrun bs) (\<lambda>(clock_len, r).
     if length r < unat clock_len then Inl Overrun
     else rbind (vc_deserialize r) (\<lambda>(clk, _). Inr (clk, drop (unat clock_len) r)))"

definition read_operation :: "operation reader" where
  "read_operation bs =
     rbind (read_u8 Overrun bs) (\<lambda>(ty, r).
     rbind (read_order r) (\<lambda>(ord, r).
     rbind (read_string Overrun r) (\<lambda>(canc, r).
     rbind (read_string Overrun r) (\<lambda>(orig, r).
     rbind (read_clock r) (\<lambda>(clk, r).
     rbind (read_string Overrun r) (\<lambda>(opid, r).
     Inr (\<lparr>op_type = byte_optype ty, op_order = ord, cancel_order_id = canc, origin_node = orig,
           op_clock = clk, op_id = opid\<rparr>, r)))))))"

text \<open>
  In the header the clock is read before anything is checked; the loop of \<^verbatim>\<open>read_u8\<close>
  calls that skips it afterwards is checked.
\<close>

definition msg_deserialize :: "u8 list \<Rightarrow> fault + message" where
  "msg_deserialize bs =
     rbind (read_u8 Overrun bs) (\<lambda>(ty, r).
     rbind (read_u32 Overrun r) (\<lambda>(_, r).
     rbind (read_string Overrun r) (\<lambda>(sender, r).
     rbind (read_u32 Overrun r) (\<lambda>(clock_len, r).
     rbind (vc_deserialize r) (\<lambda>(clk, _).
     rbind (read_many (read_u8 Overrun) (unat clock_len) r) (\<lambda>(_, r).
     rbind (read_u32 Overrun r) (\<lambda>(cnt, r).
     rbind (read_many read_operation (unat cnt) r) (\<lambda>(ops, _).
     Inr \<lparr>msg_type = byte_type ty, sender_id = sender, sender_clock = clk,
          operations = ops\<rparr>))))))))"

section \<open>What a value looks like on the other side\<close>

definition wire_price :: "double \<Rightarrow> double" where
  "wire_price v = ddiv (double_of_int (double_to_i64 (dmul v 10000))) 10000"

definition received_order :: "order \<Rightarrow> order" where
  "received_order ord = ord\<lparr>price := wire_price (price ord)\<rparr>"

definition received_operation :: "operation \<Rightarrow> operation" where
  "received_operation op =
     op\<lparr>op_order := received_order (op_order op), op_clock := received_clock (op_clock op)\<rparr>"

definition received_message :: "message \<Rightarrow> message" where
  "received_message msg =
     msg\<lparr>sender_clock := received_clock (sender_clock msg),
         operations := map received_operation (operations msg)\<rparr>"

text \<open>Values the format has room for: 16-bit string lengths, 64-bit quantities, and no
  \<open>_other\<close> constructor around the byte of a named one.\<close>

definition short_string :: "string \<Rightarrow> bool" where
  "short_string s \<longleftrightarrow> length s < 2 ^ 16"

definition order_wire_ok :: "order \<Rightarrow> bool" where
  "order_wire_ok ord \<longleftrightarrow> short_string (order_id ord) \<and> short_string (node_id ord) \<and>
     byte_side (side_byte (side ord)) = side ord \<and> fits64 (quantity ord) \<and> fits64 (remaining ord)"

definition operation_wire_ok :: "operation \<Rightarrow> bool" where
  "operation_wire_ok op \<longleftrightarrow> byte_optype (optype_byte (op_type op)) = op_type op \<and>
     order_wire_ok (op_order op) \<and> short_string (cancel_order_id op) \<and>
     short_string (origin_node op) \<and> short_string (op_id op) \<and> clock_wire_ok (op_clock op)"

definition message_wire_ok :: "message \<Rightarrow> bool" where
  "message_wire_ok msg \<longleftrightarrow> byte_type (type_byte (msg_type msg)) = msg_type msg \<and>
     short_string (sender_id msg) \<and> clock_wire_ok (sender_clock msg) \<and>
     list_all operation_wire_ok (operations msg) \<and> length (operations msg) < 2 ^ 32"

section \<open>The codecs\<close>

lemma read_u8_write [wire_read]: "read_u8 f (write_u8 b @ rest) = Inr (b, rest)"
  by (simp add: write_u8_def read_u8_Cons)

lemma write_u8_short [wire_short]: "strict_prefix p (write_u8 b) \<Longrightarrow> fails f (read_u8 f p)"
  by (simp add: write_u8_def read_u8_short)

lemma sint_fits64: "fits64 x \<Longrightarrow> sint (word_of_int x :: u64) = x"
  by (simp add: sint_of_int_wrap64 wrap64_id)

lemma fits64_double_to_i64: "fits64 (double_to_i64 x)"
  by (simp add: double_to_i64_def fits64_def)

interpretation double_codec: codec write_double read_double "\<lambda>_. True" wire_price Overrun
  by unfold_locales
     (auto simp: read_double_def write_double_def wire_read wire_price_def sint_fits64
        fits64_double_to_i64 intro!: fails_rbind wire_short)

lemma double_read [wire_read]: "read_double (write_double v @ rest) = Inr (wire_price v, rest)"
  by (rule double_codec.round_trip) simp

lemma double_short [wire_short]: "strict_prefix p (write_double v) \<Longrightarrow> fails Overrun (read_double p)"
  by (rule double_codec.short) simp

text \<open>A reader that runs over a written value reads it or, on a proper prefix, fails.\<close>

lemma fails_chain:
  assumes "strict_prefix p (a @ b)"
    and "\<And>q. strict_prefix q a \<Longrightarrow> fails f (rd q)" and "\<And>r. rd (a @ r) = Inr (x, r)"
    and "\<And>q. strict_prefix q b \<Longrightarrow> fails f (k x q)"
  shows "fails f (rbind (rd p) (\<lambda>(y, r). k y r))"
  using fails_step [of p a b f rd x "\<lambda>(y, r). k y r"] assms by simp

interpretation order_codec: codec write_order read_order order_wire_ok received_order Overrun
proof unfold_locales
  fix ord :: order and rest
  assume "order_wire_ok ord"
  then show "read_order (write_order ord @ rest) = Inr (received_order ord, rest)"
    by (simp add: order_wire_ok_def short_string_def read_order_def write_order_def wire_read
        sint_fits64 received_order_def)
next
  fix ord :: order and p
  assume "order_wire_ok ord" and p: "strict_prefix p (write_order ord)"
  then have s: "length (order_id ord) < 2 ^ 16" "length (node_id ord) < 2 ^ 16"
    by (simp_all add: order_wire_ok_def short_string_def)
  show "fails Overrun (read_order p)"
    unfolding read_order_def
    by (insert p [unfolded write_order_def], (erule fails_chain, (erule wire_short; rule s), (rule wire_read; rule s))+,
        erule fails_last, erule wire_short)
qed

lemma order_read [wire_read]:
  "order_wire_ok ord \<Longrightarrow> read_order (write_order ord @ rest) = Inr (received_order ord, rest)"
  by (rule order_codec.round_trip)

lemma order_short [wire_short]:
  "strict_prefix p (write_order ord) \<Longrightarrow> order_wire_ok ord \<Longrightarrow> fails Overrun (read_order p)"
  by (rule order_codec.short)

text \<open>The length-prefixed clock: the check catches a cut inside the clock before it is read.\<close>

definition write_clock :: "vector_clock \<Rightarrow> u8 list" where
  "write_clock clk = be32 (word_of_nat (length (vc_serialize clk))) @ vc_serialize clk"

lemma clock_length: "clock_wire_ok clk \<Longrightarrow> unat (word_of_nat (length (vc_serialize clk)) :: u32) = length (vc_serialize clk)"
  by (simp add: clock_wire_ok_def unat_of_nat)

interpretation checked_clock_codec: codec write_clock read_clock clock_wire_ok received_clock Overrun
proof unfold_locales
  fix clk :: vector_clock and rest
  assume "clock_wire_ok clk"
  then show "read_clock (write_clock clk @ rest) = Inr (received_clock clk, rest)"
    by (simp add: read_clock_def write_clock_def wire_read clock_length clock_codec.round_trip)
next
  fix clk :: vector_clock and p
  assume ok: "clock_wire_ok clk" and p: "strict_prefix p (write_clock clk)"
  show "fails Overrun (read_clock p)"
    unfolding read_clock_def
    by (rule fails_step [OF p [unfolded write_clock_def]])
       (auto simp: wire_read wire_short clock_length [OF ok] dest: prefix_length_less)
qed

lemma clock_read [wire_read]:
  "clock_wire_ok clk \<Longrightarrow> read_clock (write_clock clk @ rest) = Inr (received_clock clk, rest)"
  by (rule checked_clock_codec.round_trip)

lemma clock_short [wire_short]:
  "strict_prefix p (write_clock clk) \<Longrightarrow> clock_wire_ok clk \<Longrightarrow> fails Overrun (read_clock p)"
  by (rule checked_clock_codec.short)

lemma write_operation_eq:
  "write_operation op =
     write_u8 (optype_byte (op_type op)) @ write_order (op_order op) @
     write_string (cancel_order_id op) @ write_string (origin_node op) @
     write_clock (op_clock op) @ write_string (op_id op)"
  by (simp add: write_operation_def write_clock_def)

interpretation operation_codec: codec write_operation read_operation operation_wire_ok received_operation Overrun
proof unfold_locales
  fix op :: operation and rest
  assume "operation_wire_ok op"
  then show "read_operation (write_operation op @ rest) = Inr (received_operation op, rest)"
    by (simp add: operation_wire_ok_def short_string_def read_operation_def write_operation_eq wire_read
        received_operation_def)
next
  fix op :: operation and p
  assume "operation_wire_ok op" and p: "strict_prefix p (write_operation op)"
  then have s: "length (cancel_order_id op) < 2 ^ 16" "length (origin_node op) < 2 ^ 16"
    "length (op_id op) < 2 ^ 16" "order_wire_ok (op_order op)" "clock_wire_ok (op_clock op)"
    by (simp_all add: operation_wire_ok_def short_string_def)
  show "fails Overrun (read_operation p)"
    unfolding read_operation_def
    by (insert p [unfolded write_operation_eq], (erule fails_chain, (erule wire_short; rule s), (rule wire_read; rule s))+,
        erule fails_last, (erule wire_short; rule s))
qed

section \<open>Messages\<close>

text \<open>The part of the message after the header's length field, and the field itself.\<close>

definition msg_body :: "message \<Rightarrow> u8 list" where
  "msg_body msg =
     write_string (sender_id msg) @ write_clock (sender_clock msg) @
     be32 (word_of_nat (length (operations msg))) @ concat (map write_operation (operations msg))"

lemma msg_serialize_eq:
  "msg_serialize msg = write_u8 (type_byte (msg_type msg)) @ be32 (word_of_nat (length (msg_body msg) + 5)) @ msg_body msg"
  by (simp add: msg_serialize_def msg_body_def write_clock_def write_u8_def Let_def numeral_eq_Suc add.commute)

lemma length_msg_serialize: "length (msg_serialize msg) = length (msg_body msg) + 5"
  by (simp add: msg_serialize_eq write_u8_def)

lemma skip_bytes: "length bs = n \<Longrightarrow> read_many (read_u8 f) n (bs @ rest) = Inr (bs, rest)"
  by (induction bs arbitrary: n) (auto simp: read_u8_Cons)

lemma message_wire_okD:
  assumes "message_wire_ok msg"
  shows "length (sender_id msg) < 2 ^ 16" "clock_wire_ok (sender_clock msg)"
    "op \<in> set (operations msg) \<Longrightarrow> operation_wire_ok op"
    "unat (word_of_nat (length (operations msg)) :: u32) = length (operations msg)"
    "byte_type (type_byte (msg_type msg)) = msg_type msg"
  using assms by (simp_all add: message_wire_ok_def short_string_def list_all_iff unat_of_nat)

lemma msg_round_trip:
  assumes "message_wire_ok msg"
  shows "msg_deserialize (msg_serialize msg @ rest) = Inr (received_message msg)"
proof -
  note ok = message_wire_okD [OF assms]
  have "read_many read_operation (length (operations msg)) (concat (map write_operation (operations msg)) @ rest)
      = Inr (map received_operation (operations msg), rest)"
    by (rule operation_codec.many_round_trip) (rule ok)
  then show ?thesis
    by (simp add: msg_deserialize_def msg_serialize_eq msg_body_def write_clock_def wire_read
        read_string_write [OF ok(1)] ok
        clock_length clock_codec.round_trip skip_bytes received_message_def)
qed

section \<open>Cut messages\<close>

text \<open>The bytes before the sender's clock, and the reads after them.\<close>

definition msg_header :: "message \<Rightarrow> u8 list" where
  "msg_header msg =
     write_u8 (type_byte (msg_type msg)) @ be32 (word_of_nat (length (msg_body msg) + 5)) @
     write_string (sender_id msg) @ be32 (word_of_nat (length (vc_serialize (sender_clock msg))))"

definition msg_tail :: "message \<Rightarrow> u8 list" where
  "msg_tail msg =
     be32 (word_of_nat (length (operations msg))) @ concat (map write_operation (operations msg))"

definition read_payload :: "message_type \<Rightarrow> string \<Rightarrow> u32 \<Rightarrow> u8 list \<Rightarrow> fault + message" where
  "read_payload ty sender clock_len r =
     rbind (vc_deserialize r) (\<lambda>(clk, _).
     rbind (read_many (read_u8 Overrun) (unat clock_len) r) (\<lambda>(_, r).
     rbind (read_u32 Overrun r) (\<lambda>(cnt, r).
     rbind (read_many read_operation (unat cnt) r) (\<lambda>(ops, _).
     Inr \<lparr>msg_type = ty, sender_id = sender, sender_clock = clk, operations = ops\<rparr>))))"

lemma msg_serialize_parts:
  "msg_serialize msg = msg_header msg @ vc_serialize (sender_clock msg) @ msg_tail msg"
  by (simp add: msg_serialize_eq msg_header_def msg_tail_def msg_body_def write_clock_def)

lemma msg_deserialize_header:
  "length (sender_id msg) < 2 ^ 16 \<Longrightarrow> byte_type (type_byte (msg_type msg)) = msg_type msg \<Longrightarrow>
   msg_deserialize (msg_header msg @ q) =
     read_payload (msg_type msg) (sender_id msg) (word_of_nat (length (vc_serialize (sender_clock msg)))) q"
  by (simp add: msg_deserialize_def msg_header_def wire_read read_payload_def)

lemma cut_header:
  assumes "length (sender_id msg) < 2 ^ 16" and p: "strict_prefix p (msg_header msg)"
  shows "msg_deserialize p = Inl Overrun"
proof -
  have "fails Overrun (msg_deserialize p)"
    unfolding msg_deserialize_def
    by (insert p [unfolded msg_header_def],
        (erule fails_chain, (erule wire_short; rule assms), (rule wire_read; rule assms))+,
        erule fails_last, erule wire_short)
  then show ?thesis by (simp add: fails_def)
qed

lemma cut_tail:
  assumes "message_wire_ok msg" and q: "strict_prefix q (msg_tail msg)"
  shows "fails Overrun (rbind (read_u32 Overrun q) (\<lambda>(cnt, r).
     rbind (read_many read_operation (unat cnt) r) (\<lambda>(ops, _). k ops)))"
proof (rule fails_step [OF q [unfolded msg_tail_def]])
  note ok = message_wire_okD [OF assms(1)]
  fix q' assume "strict_prefix q' (concat (map write_operation (operations msg)))"
  then have "fails Overrun (read_many read_operation (length (operations msg)) q')"
    by (rule operation_codec.many_short [rotated]) (rule ok)
  then show "fails Overrun ((\<lambda>(cnt, r). rbind (read_many read_operation (unat cnt) r) (\<lambda>(ops, _). k ops))
      (word_of_nat (length (operations msg)) :: u32, q'))"
    by (simp add: ok fails_rbind)
qed (simp_all add: wire_read wire_short)

lemma cut_payload:
  assumes "message_wire_ok msg" and q: "strict_prefix q (vc_serialize (sender_clock msg) @ msg_tail msg)"
  shows "read_payload ty sender (word_of_nat (length (vc_serialize (sender_clock msg)))) q =
    Inl (if length q < length (vc_serialize (sender_clock msg)) then OutOfBounds else Overrun)"
  using q
proof (cases rule: strict_prefix_append_cases)
  note ok = message_wire_okD [OF assms(1)]
  case 1
  then have "vc_deserialize q = Inl OutOfBounds"
    using clock_codec.short [OF ok(2)] by (simp add: fails_def)
  with 1 show ?thesis by (simp add: read_payload_def prefix_length_less)
next
  note ok = message_wire_okD [OF assms(1)]
  case (2 q')
  then show ?thesis
    using cut_tail [OF assms(1) 2(2)]
    by (simp add: read_payload_def clock_codec.round_trip ok clock_length skip_bytes fails_def)
qed

lemma cut_message:
  assumes "message_wire_ok msg" and "strict_prefix p (msg_serialize msg)"
  shows "msg_deserialize p =
    Inl (if length (msg_header msg) \<le> length p \<and>
            length p < length (msg_header msg) + length (vc_serialize (sender_clock msg))
         then OutOfBounds else Overrun)"
  using assms(2) unfolding msg_serialize_parts
proof (cases rule: strict_prefix_append_cases)
  note ok = message_wire_okD [OF assms(1)]
  case 1
  then show ?thesis using cut_header [OF ok(1) 1] prefix_length_less [OF 1] by simp
next
  note ok = message_wire_okD [OF assms(1)]
  case (2 q)
  then show ?thesis
    using cut_payload [OF assms(1) 2(2)] by (simp add: msg_deserialize_header [OF ok(1,5)])
qed

section \<open>Prices on the wire\<close>

text \<open>
  A price survives when ten thousand times it is an integer and both are doubles; then the product
  is exact, its truncation too, and the division gives the price back.
\<close>

lemma wire_price_exact:
  assumes "representable v" and "v * 10000 = of_int n" and "\<bar>n\<bar> < 2 ^ 53"
  shows "wire_price v = v"
proof -
  have n: "rnd (of_int n) = of_int n"
    by (rule rnd_representable [OF representable_of_int [OF assms(3)]])
  then have "dmul v 10000 = of_int n" by (simp only: dmul_def assms(2))
  moreover have "fits64 n" using assms(3) by (auto simp: fits64_def)
  ultimately have "wire_price v = rnd (of_int n / 10000)"
    by (simp add: wire_price_def double_to_i64_def double_of_int_def ddiv_def n)
  also have "of_int n / 10000 = v" by (simp flip: assms(2))
  finally show ?thesis using rnd_representable [OF assms(1)] by simp
qed

text \<open>Below \<open>2 ^ 30\<close> a trip over the wire moves a price by less than two ten-thousandths.\<close>

lemma wire_price_error:
  assumes "0 \<le> v" and "v < 2 ^ 30"
  shows "\<bar>wire_price v - v\<bar> < 2 / 10000"
proof -
  let ?x = "dmul v 10000"
  have p: "pow2 (int 44) = 2 ^ 44" "pow2 (int 44 - 54) = 1 / 2 ^ 10"
    "pow2 (int 31) = 2 ^ 31" "pow2 (int 31 - 54) = 1 / 2 ^ 23"
    by (simp_all add: pow2_def)
  have "\<bar>?x - v * 10000\<bar> \<le> 1 / 2 ^ 10"
    using rnd_error_bound [of "v * 10000" 44] assms p by (simp add: dmul_def)
  then have x: "?x - v * 10000 \<le> 1 / 2 ^ 10" "v * 10000 - ?x \<le> 1 / 2 ^ 10"
    by (simp_all only: abs_le_iff minus_diff_eq)
  have "0 \<le> ?x" using assms(1) by (simp add: dmul_def rnd_nonneg)
  define n where "n = dtrunc ?x"
  have "n = \<lfloor>?x\<rfloor>" using \<open>0 \<le> ?x\<close> by (simp add: n_def dtrunc_def)
  then have n: "of_int n \<le> ?x" "?x - 1 < of_int n" "0 \<le> n"
    using \<open>0 \<le> ?x\<close> floor_correct [of ?x] by simp_all
  have "(of_int n :: rat) < of_int (2 ^ 44)" using n(1) x(1) assms(2) by simp
  then have nb: "0 \<le> n" "n < 2 ^ 44" using n(3) by (simp_all only: of_int_less_iff)
  then have "fits64 n" by (simp add: fits64_def)
  then have "double_to_i64 ?x = n" by (simp add: double_to_i64_def n_def)
  moreover have "rnd (of_int n) = of_int n"
    by (rule rnd_representable [OF representable_of_int]) (use nb in simp)
  ultimately have w: "wire_price v = rnd (of_int n / 10000)"
    by (simp add: wire_price_def double_of_int_def ddiv_def)
  have "of_int n / 10000 < (2 ^ 31 :: rat)" "0 \<le> (of_int n / 10000 :: rat)"
    using \<open>(of_int n :: rat) < of_int (2 ^ 44)\<close> nb(1) by simp_all
  then have "\<bar>rnd (of_int n / 10000) - of_int n / 10000\<bar> \<le> 1 / 2 ^ 23"
    using rnd_error_bound [of "of_int n / 10000" 31] p by simp
  then have r: "wire_price v - of_int n / 10000 \<le> 1 / 2 ^ 23" "of_int n / 10000 - wire_price v \<le> 1 / 2 ^ 23"
    unfolding w by (simp_all only: abs_le_iff minus_diff_eq)
  have "wire_price v - v < 2 / 10000" using r n(1) x by simp
  moreover have "v - wire_price v < 2 / 10000" using r n(2) x by simp
  ultimately show ?thesis by (simp only: abs_less_iff minus_diff_eq)
qed

end
