(* ===== verification/Message_Props.thy ===== *)
theory Message_Props
  imports Message OrderBook_Props
begin

text \<open>
  The properties of the wire format: what survives a trip, what a cut datagram does, and what
  happens to prices.
\<close>

section \<open>Sample messages\<close>

definition sample_operation :: operation where
  "sample_operation =
     \<lparr>op_type = ADD_ORDER, op_order = sample_order ''o'' SELL (3 / 2) 5, cancel_order_id = [],
      origin_node = ''a'', op_clock = clock_of ''a'' [(''a'', 1)], op_id = ''p''\<rparr>"

definition sample_message :: message where
  "sample_message =
     \<lparr>msg_type = GOSSIP_PUSH, sender_id = ''a'', sender_clock = clock_of ''a'' [(''a'', 1)],
      operations = [sample_operation]\<rparr>"

lemma sample_clock_ok: "clock_wire_ok (clock_of ''a'' [(''a'', 1)])" "clock_inv (clock_of ''a'' [(''a'', 1)])"
  by (simp_all add: clock_inv_def clock_wire_ok_def clock_of_def vc_serialize_def write_string_def write_entry_def)

lemma sample_message_ok: "message_wire_ok sample_message"
  by (simp add: message_wire_ok_def sample_message_def sample_operation_def operation_wire_ok_def
      order_wire_ok_def short_string_def sample_order_def fits64_def sample_clock_ok
      type_byte_def byte_type_def optype_byte_def byte_optype_def side_byte_def byte_side_def)

section \<open>Round trip\<close>

text \<open>C17: a message whose strings, quantities and counts fit the format is read back from
  its own bytes, whatever follows them: type, sender, the counters of every clock, and every
  operation in order, each order unchanged but for its price, which becomes its
  \<open>wire_price\<close>; and the header's length field holds the length of the datagram.\<close>
theorem message_round_trip:
  assumes "message_wire_ok msg" and "clock_inv (sender_clock msg)"
    and "\<forall>op \<in> set (operations msg). clock_inv (op_clock op)"
  shows "(\<exists>msg'. msg_deserialize (msg_serialize msg @ rest) = Inr msg' \<and>
      msg_type msg' = msg_type msg \<and> sender_id msg' = sender_id msg \<and>
      clock_fun (sender_clock msg') = clock_fun (sender_clock msg) \<and>
      list_all2 (\<lambda>op op'. op_type op' = op_type op \<and> op_id op' = op_id op \<and>
          cancel_order_id op' = cancel_order_id op \<and> origin_node op' = origin_node op \<and>
          clock_fun (op_clock op') = clock_fun (op_clock op) \<and>
          op_order op' = (op_order op)\<lparr>price := wire_price (price (op_order op))\<rparr>)
        (operations msg) (operations msg')) \<and>
    take 4 (drop 1 (msg_serialize msg)) = be32 (word_of_nat (length (msg_serialize msg)))"
proof
  have "clock_fun (received_clock (sender_clock msg)) = clock_fun (sender_clock msg)"
    using assms(2) by (rule clock_fun_received)
  moreover have "list_all2 (\<lambda>op op'. op_type op' = op_type op \<and> op_id op' = op_id op \<and>
          cancel_order_id op' = cancel_order_id op \<and> origin_node op' = origin_node op \<and>
          clock_fun (op_clock op') = clock_fun (op_clock op) \<and>
          op_order op' = (op_order op)\<lparr>price := wire_price (price (op_order op))\<rparr>)
        (operations msg) (map received_operation (operations msg))"
    using assms(3)
    by (auto simp: list.rel_map received_operation_def received_order_def clock_fun_received
        intro!: list.rel_refl_strong)
  ultimately show "\<exists>msg'. msg_deserialize (msg_serialize msg @ rest) = Inr msg' \<and>
      msg_type msg' = msg_type msg \<and> sender_id msg' = sender_id msg \<and>
      clock_fun (sender_clock msg') = clock_fun (sender_clock msg) \<and>
      list_all2 (\<lambda>op op'. op_type op' = op_type op \<and> op_id op' = op_id op \<and>
          cancel_order_id op' = cancel_order_id op \<and> origin_node op' = origin_node op \<and>
          clock_fun (op_clock op') = clock_fun (op_clock op) \<and>
          op_order op' = (op_order op)\<lparr>price := wire_price (price (op_order op))\<rparr>)
        (operations msg) (operations msg')"
    by (intro exI [of _ "received_message msg"] conjI msg_round_trip [OF assms(1)])
       (simp_all add: received_message_def)
  show "take 4 (drop 1 (msg_serialize msg)) = be32 (word_of_nat (length (msg_serialize msg)))"
    by (simp add: length_msg_serialize) (simp add: msg_serialize_eq write_u8_def)
qed

theorem message_round_trip_witness:
  "\<exists>msg'. msg_deserialize (msg_serialize sample_message) = Inr msg' \<and> msg_type msg' = GOSSIP_PUSH \<and>
     map op_id (operations msg') = [''p''] \<and> map (quantity \<circ> op_order) (operations msg') = [5]"
proof -
  have h: "clock_inv (sender_clock sample_message)"
    "\<forall>op \<in> set (operations sample_message). clock_inv (op_clock op)"
    by (simp_all add: sample_message_def sample_operation_def sample_clock_ok)
  show ?thesis
    using message_round_trip [OF sample_message_ok h, of "[]"]
    by (auto simp: sample_message_def sample_operation_def sample_order_def list_all2_Cons1)
qed

section \<open>Cut datagrams\<close>

text \<open>C25: no message that lost its end is taken for another: every proper prefix of a
  serialised message is refused. A cut anywhere but inside the sender's clock raises the reader's
  overrun exception (cuts inside the clock of an operation too); a cut inside the sender's clock
  is not noticed and the clock is read past the end of the buffer.\<close>
theorem cut_message_refused:
  assumes "message_wire_ok msg" and "strict_prefix p (msg_serialize msg)"
    and "h = 11 + length (sender_id msg)"
  shows "msg_deserialize p =
    Inl (if h \<le> length p \<and> length p < h + length (vc_serialize (sender_clock msg))
         then OutOfBounds else Overrun)"
proof -
  have "length (msg_header msg) = h"
    by (simp add: assms(3) msg_header_def write_u8_def write_string_def)
  then show ?thesis using cut_message [OF assms(1,2)] by simp
qed

theorem cut_message_refused_witness:
  "msg_deserialize (take 11 (msg_serialize sample_message)) = Inl Overrun \<and>
   msg_deserialize (take 20 (msg_serialize sample_message)) = Inl OutOfBounds \<and>
   msg_deserialize (take 60 (msg_serialize sample_message)) = Inl Overrun"
proof -
  have len: "length (msg_serialize sample_message) = 110"
    by code_simp
  have pre: "strict_prefix (take n (msg_serialize sample_message)) (msg_serialize sample_message)" if "n < 110" for n
    using that len take_is_prefix [of n] by (auto simp: strict_prefix_def dest: arg_cong [where f = length])
  have sizes: "length (sender_id sample_message) = 1" "length (vc_serialize (sender_clock sample_message)) = 18"
    by code_simp+
  show ?thesis
    using cut_message_refused [OF sample_message_ok pre refl, of 11]
      cut_message_refused [OF sample_message_ok pre refl, of 20]
      cut_message_refused [OF sample_message_ok pre refl, of 60] len sizes
    by simp
qed

section \<open>Prices\<close>

text \<open>C26: a price of at least 0 and below \<open>2 ^ 30\<close> moves by less than two ten-thousandths on
  a trip, and not at all when it is a double whose ten-thousandfold is an integer below
  \<open>2 ^ 53\<close>.\<close>
theorem wire_price_bounds:
  assumes "representable v" and "0 \<le> v" and "v < 2 ^ 30"
  shows "\<bar>wire_price v - v\<bar> < 2 / 10000 \<and> (v * 10000 \<in> \<int> \<longrightarrow> wire_price v = v) \<and>
    read_double (write_double v) = Inr (wire_price v, [])"
proof (intro conjI impI)
  show "\<bar>wire_price v - v\<bar> < 2 / 10000" by (rule wire_price_error [OF assms(2,3)])
  assume "v * 10000 \<in> \<int>"
  then obtain n where n: "v * 10000 = of_int n" by (elim Ints_cases)
  have "(of_int n :: rat) < of_int (2 ^ 53)" "(of_int 0 :: rat) \<le> of_int n"
    unfolding n [symmetric] using assms(2,3) by simp_all
  then have "\<bar>n\<bar> < 2 ^ 53"
    by (simp only: of_int_less_iff of_int_le_iff abs_of_nonneg)
  then show "wire_price v = v" by (rule wire_price_exact [OF assms(1) n])
qed (use double_read [of v "[]"] in simp)

theorem wire_price_bounds_witness:
  "wire_price (3 / 2) = 3 / 2 \<and> \<bar>wire_price (rnd (57 / 100)) - rnd (57 / 100)\<bar> < 2 / 10000"
proof -
  have "representable (3 / 2)"
    unfolding representable_def by (rule exI [of _ 3], rule exI [of _ "- 1"]) (simp add: pow2_def)
  moreover have "3 / 2 * 10000 = (of_int 15000 :: rat)" by simp
  then have "3 / 2 * 10000 \<in> (\<int> :: rat set)" by (metis Ints_of_int)
  ultimately have a: "wire_price (3 / 2) = 3 / 2"
    using wire_price_bounds [of "3 / 2"] by simp
  have "rnd (57 / 100) = 5134103575202365 * pow2 (- 53)" "0 \<le> rnd (57 / 100)" "rnd (57 / 100) < 2 ^ 30"
    by code_simp+
  moreover from this(1) have "representable (rnd (57 / 100))"
    unfolding representable_def
    by (intro exI [of _ 5134103575202365] exI [of _ "- 53"]) simp
  ultimately have "\<bar>wire_price (rnd (57 / 100)) - rnd (57 / 100)\<bar> < 2 / 10000"
    using wire_price_bounds [of "rnd (57 / 100)"] by blast
  with a show ?thesis by blast
qed

text \<open>A price in cents does not survive in general: 0.57 arrives as 0.5699, because the
  product 0.57 * 10000.0 is a double below 5700 and is truncated; and the trip is not idempotent:
  1.13 arrives as 1.1299 at a neighbour and as 1.1298 at a node the neighbour relays it to, so
  the price a node books depends on the path.\<close>
theorem price_loses_ticks:
  "wire_price (rnd (57 / 100)) = rnd (5699 / 10000) \<and>
   wire_price (rnd (113 / 100)) = rnd (11299 / 10000) \<and>
   wire_price (wire_price (rnd (113 / 100))) = rnd (11298 / 10000) \<and>
   rnd (5699 / 10000) < rnd (57 / 100) \<and> rnd (11298 / 10000) < rnd (11299 / 10000)"
  by code_simp

end
