(* ===== verification/Wythoff.thy ===== *)
theory Wythoff
  imports Binary64 Complex_Main
begin

text \<open>
  The gossip scheduler (\<^verbatim>\<open>gossip/wythoff_scheduler.cpp\<close>): which directed pair of nodes a
  round belongs to, whether the round pushes or pulls, and a node's phase offset. Rounds and nodes
  are machine words; the golden ratio is the double the source writes. A division by zero and a
  conversion of a double outside the target type are undefined behaviour and give \<open>None\<close>.
\<close>

section \<open>The scheduler\<close>

record gossip_pair =
  sender :: u32
  receiver :: u32

datatype sync_mode = PUSH | PULL

record wythoff_scheduler =
  num_nodes :: u32

definition PHI :: double where
  "PHI = rnd (16180339887498948482 / 10000000000000000000)"

definition INV_PHI :: double where
  "INV_PHI = ddiv 1 PHI"

definition dfloor :: "double \<Rightarrow> double" where
  "dfloor x = of_int \<lfloor>x\<rfloor>"

definition dceil :: "double \<Rightarrow> double" where
  "dceil x = of_int \<lceil>x\<rceil>"

definition double_of_u64 :: "u64 \<Rightarrow> double" where
  "double_of_u64 n = double_of_int (uint n)"

definition double_to_u64 :: "double \<Rightarrow> u64 option" where
  "double_to_u64 x = (if - 1 < x \<and> dtrunc x < 2 ^ 64 then Some (word_of_int (dtrunc x)) else None)"

definition decode_pair :: "u32 \<Rightarrow> u32 \<Rightarrow> gossip_pair" where
  "decode_pair n pair_idx =
     (let snd = pair_idx div (n - 1); rcv = pair_idx mod (n - 1)
      in \<lparr>sender = snd, receiver = (if rcv \<ge> snd then rcv + 1 else rcv)\<rparr>)"

definition get_pair :: "wythoff_scheduler \<Rightarrow> u64 \<Rightarrow> gossip_pair option" where
  "get_pair sch r =
     (let num_pairs = num_nodes sch * (num_nodes sch - 1)
      in case double_to_u64 (dfloor (dmul (double_of_u64 r) PHI)) of
           None \<Rightarrow> None
         | Some wythoff_val \<Rightarrow>
             if num_pairs = 0 then None
             else Some (decode_pair (num_nodes sch) (ucast (wythoff_val mod ucast num_pairs))))"

definition is_in_beatty_phi :: "u64 \<Rightarrow> bool option" where
  "is_in_beatty_phi n =
     (case double_to_u64 (dceil (dmul (double_of_u64 n) INV_PHI)) of
        None \<Rightarrow> None
      | Some k \<Rightarrow>
          (case double_to_u64 (dfloor (dmul (double_of_u64 k) PHI)) of
             None \<Rightarrow> None
           | Some m \<Rightarrow> Some (m = n)))"

definition get_sync_mode :: "u64 \<Rightarrow> sync_mode option" where
  "get_sync_mode r = map_option (\<lambda>b. if b then PULL else PUSH) (is_in_beatty_phi r)"

text \<open>\<^verbatim>\<open>std::fmod\<close> of a finite value by a positive one is exact. For a \<open>y\<close> of 0 it is NaN, which is
  not represented: nothing is claimed of the offset then.\<close>

definition dfmod :: "double \<Rightarrow> double \<Rightarrow> double" where
  "dfmod x y = x - of_int (dtrunc (x / y)) * y"

definition get_phase_offset :: "u32 \<Rightarrow> double \<Rightarrow> double" where
  "get_phase_offset node interval =
     dfmod (ddiv (dmul (double_of_int (uint node)) interval) PHI) interval"

text \<open>The loops: \<^verbatim>\<open>r\<close> runs from \<^verbatim>\<open>start\<close> while it is below
  \<^verbatim>\<open>start + count\<close>, a sum that may wrap.\<close>

fun schedule_from :: "wythoff_scheduler \<Rightarrow> u64 \<Rightarrow> nat \<Rightarrow> gossip_pair list option" where
  "schedule_from sch r 0 = Some []"
| "schedule_from sch r (Suc c) =
     (case get_pair sch r of None \<Rightarrow> None
      | Some p \<Rightarrow> map_option (\<lambda>ps. p # ps) (schedule_from sch (r + 1) c))"

definition precompute_schedule :: "wythoff_scheduler \<Rightarrow> u64 \<Rightarrow> u64 \<Rightarrow> gossip_pair list option" where
  "precompute_schedule sch start cnt =
     schedule_from sch start (if start < start + cnt then unat cnt else 0)"

fun count_pairs :: "gossip_pair list \<Rightarrow> u32 list list \<Rightarrow> u32 list list" where
  "count_pairs [] mat = mat"
| "count_pairs (p # ps) mat =
     (let s = unat (sender p); r = unat (receiver p)
      in count_pairs ps (mat[s := (mat ! s)[r := mat ! s ! r + 1]]))"

text \<open>With \<^verbatim>\<open>num_rounds\<close> the largest 64-bit value the loop never ends.\<close>

definition coverage_matrix :: "wythoff_scheduler \<Rightarrow> u64 \<Rightarrow> u32 list list option" where
  "coverage_matrix sch num_rounds =
     (if num_rounds = - 1 then None
      else map_option (\<lambda>ps. count_pairs ps
          (replicate (unat (num_nodes sch)) (replicate (unat (num_nodes sch)) 0)))
        (schedule_from sch 1 (unat num_rounds)))"

section \<open>The golden ratio\<close>

definition phi :: real where
  "phi = (1 + sqrt 5) / 2"

lemma PHI_val: "PHI = 7286977268806824 / 2 ^ 52"
  by code_simp

lemma INV_PHI_val: "INV_PHI = 5566755282872655 / 2 ^ 53"
  by code_simp

lemma sqrt5_bounds: "2 \<le> sqrt 5" "sqrt 5 \<le> 9 / 4"
  by (rule real_le_rsqrt, simp) (rule real_le_lsqrt, simp_all add: power2_eq_square)

lemma phi_sq: "phi * phi = phi + 1"
  by (simp add: phi_def field_simps)

lemma phi_bounds: "3 / 2 \<le> phi" "phi \<le> 13 / 8"
  using sqrt5_bounds by (simp_all add: phi_def)

lemma PHI_close: "\<bar>real_of_rat PHI - phi\<bar> \<le> 1 / 2 ^ 53"
proof -
  have "sqrt 5 \<le> 2 * (7286977268806824 / 2 ^ 52) - 1"
    by (rule real_le_lsqrt) (simp_all add: power2_eq_square)
  moreover have "2 * (7286977268806824 / 2 ^ 52 - 1 / 2 ^ 53) - 1 \<le> sqrt 5"
    by (rule real_le_rsqrt) (simp add: power2_eq_square)
  ultimately show ?thesis
    by (simp add: PHI_val phi_def of_rat_divide abs_le_iff)
qed

lemma INV_PHI_close: "\<bar>real_of_rat INV_PHI - (phi - 1)\<bar> \<le> 1 / 2 ^ 53"
proof -
  have "sqrt 5 \<le> 2 * (5566755282872655 / 2 ^ 53 + 1 / 2 ^ 53) + 1"
    by (rule real_le_lsqrt) (simp_all add: power2_eq_square)
  moreover have "2 * (5566755282872655 / 2 ^ 53 - 1 / 2 ^ 53) + 1 \<le> sqrt 5"
    by (rule real_le_rsqrt) (simp add: power2_eq_square)
  moreover have "real_of_rat INV_PHI = 5566755282872655 / 2 ^ 53"
    by (simp add: INV_PHI_val of_rat_divide)
  ultimately show ?thesis unfolding phi_def abs_le_iff by (auto simp: field_simps)
qed

text \<open>
  The golden ratio is badly approximable: a nonzero multiple \<open>k * phi\<close> stays away from every
  integer \<open>m\<close>, because \<open>m * m - m * k - k * k\<close> is a nonzero integer.
\<close>

lemma norm_form_nonzero:
  fixes m k :: int
  assumes "0 < k" shows "m * m - m * k - k * k \<noteq> 0"
proof
  assume z: "m * m - m * k - k * k = 0"
  have "\<exists>m k :: int. 0 < k \<and> coprime m k \<and> m * m - m * k - k * k = 0"
  proof -
    define g where "g = gcd m k"
    have g: "0 < g" using assms by (simp add: g_def)
    obtain m' k' where mk: "m = g * m'" "k = g * k'" "coprime m' k'"
      using assms by (metis g_def gcd_coprime_exists less_irrefl mult.commute gcd_eq_0_iff)
    have "g * g * (m' * m' - m' * k' - k' * k') = 0" using z unfolding mk by (simp add: algebra_simps)
    then have "m' * m' - m' * k' - k' * k' = 0" using g by simp
    moreover have "0 < k'" using assms g mk(2) by (simp add: zero_less_mult_iff)
    ultimately show ?thesis using mk(3) by blast
  qed
  then obtain m k :: int where mk: "0 < k" "coprime m k" "m * m = k * (m + k)"
    by (auto simp: algebra_simps)
  then have "k dvd m * m" by (metis dvd_triv_left)
  then have "k dvd m" using mk(2) by (metis coprime_dvd_mult_left_iff coprime_commute)
  then have "is_unit k" using mk(2) by (metis coprime_common_divisor dvd_refl)
  then have "k = 1" using mk(1) by simp
  then have "m * m = m + 1" using mk(3) by simp
  then have "m * (m - 1) = 1" by (simp add: algebra_simps)
  then have "m = 1 \<or> m = - 1" by (auto simp: zmult_eq_1_iff)
  then show False using \<open>m * m = m + 1\<close> by auto
qed

lemma phi_gap:
  fixes m k :: int
  assumes "0 < k" and "k \<le> 2 ^ 24" shows "1 / 2 ^ 26 < \<bar>real_of_int k * phi - real_of_int m\<bar>"
proof (rule ccontr)
  assume "\<not> ?thesis"
  then have d: "\<bar>real_of_int k * phi - real_of_int m\<bar> \<le> 1 / 2 ^ 26" by simp
  define x where "x = real_of_int k * phi - real_of_int m"
  have kb: "1 \<le> real_of_int k" "real_of_int k \<le> 2 ^ 24"
    using assms by (simp_all only: of_int_1_le_iff of_int_le_numeral_power_cancel_iff)
  have eq: "real_of_int (m * m - m * k - k * k) = x * (x - real_of_int k * sqrt 5)"
  proof -
    have m: "real_of_int m = real_of_int k * phi - x" by (simp add: x_def)
    have s: "sqrt 5 = 2 * phi - 1" by (simp add: phi_def field_simps)
    have "real_of_int (m * m - m * k - k * k) = (real_of_int k * real_of_int k) * (phi * phi - phi - 1)
        + x * (x - real_of_int k * (2 * phi - 1))"
      unfolding of_int_diff of_int_mult m by (simp add: algebra_simps)
    then show ?thesis by (simp add: phi_sq s)
  qed
  have "1 \<le> \<bar>m * m - m * k - k * k\<bar>" using norm_form_nonzero [OF assms(1), of m] by linarith
  then have "1 \<le> \<bar>real_of_int (m * m - m * k - k * k)\<bar>" by linarith
  also have "\<dots> = \<bar>x\<bar> * \<bar>x - real_of_int k * sqrt 5\<bar>" unfolding eq by (simp add: abs_mult)
  also have "\<dots> \<le> (1 / 2 ^ 26) * (1 / 2 ^ 26 + real_of_int k * sqrt 5)"
  proof (rule mult_mono)
    show "\<bar>x\<bar> \<le> 1 / 2 ^ 26" using d by (simp add: x_def)
    then show "\<bar>x - real_of_int k * sqrt 5\<bar> \<le> 1 / 2 ^ 26 + real_of_int k * sqrt 5"
      using kb(1) sqrt5_bounds(1) by (smt (verit) mult_nonneg_nonneg)
  qed simp_all
  also have "\<dots> \<le> (1 / 2 ^ 26) * (1 / 2 ^ 26 + 2 ^ 24 * (9 / 4))"
    by (intro mult_left_mono add_left_mono mult_mono) (use kb sqrt5_bounds in simp_all)
  also have "\<dots> < 1" by simp
  finally show False by simp
qed

text \<open>A value close to one that keeps away from the integers has the same floor and ceiling.\<close>

lemma floor_close:
  fixes x y e :: real
  assumes "\<And>m :: int. e < \<bar>y - of_int m\<bar>" and "\<bar>x - y\<bar> \<le> e"
  shows "\<lfloor>x\<rfloor> = \<lfloor>y\<rfloor>" and "\<lceil>x\<rceil> = \<lceil>y\<rceil>"
proof -
  have lo: "e < y - of_int \<lfloor>y\<rfloor>"
    using assms(1) [of "\<lfloor>y\<rfloor>"] by simp
  have "e < \<bar>y - of_int (\<lfloor>y\<rfloor> + 1)\<bar>" by (rule assms(1))
  then have hi: "e < of_int \<lfloor>y\<rfloor> + 1 - y"
    using floor_correct [of y] by (simp add: abs_if split: if_splits)
  have "of_int \<lfloor>y\<rfloor> < x" "x < of_int \<lfloor>y\<rfloor> + 1" using lo hi assms(2) by (simp_all add: abs_le_iff)
  moreover have "0 \<le> e" using assms(2) by linarith
  with lo hi have "of_int \<lfloor>y\<rfloor> < y" "y < of_int \<lfloor>y\<rfloor> + 1" by linarith+
  ultimately show "\<lfloor>x\<rfloor> = \<lfloor>y\<rfloor>" "\<lceil>x\<rceil> = \<lceil>y\<rceil>"
    using floor_unique [of "\<lfloor>y\<rfloor>" x] ceiling_unique [of "\<lfloor>y\<rfloor> + 1" x]
      ceiling_unique [of "\<lfloor>y\<rfloor> + 1" y] by simp_all
qed

section \<open>The floating-point products are exact enough\<close>

lemma small_double: "\<bar>n\<bar> < 2 ^ 53 \<Longrightarrow> double_of_int n = of_int n"
  by (simp add: double_of_int_def rnd_representable representable_of_int)

lemma rnd_real_error:
  assumes "0 \<le> y" and "y < 2 ^ 25"
  shows "\<bar>real_of_rat (rnd y) - real_of_rat y\<bar> \<le> 1 / 2 ^ 29"
proof -
  have p: "pow2 (int 25) = 2 ^ 25" "pow2 (int 25 - 54) = 1 / 2 ^ 29" by (simp_all add: pow2_def)
  have "\<bar>rnd y - y\<bar> \<le> 1 / 2 ^ 29" using rnd_error_bound [of y 25] assms p by simp
  then have "\<bar>real_of_rat (rnd y - y)\<bar> \<le> real_of_rat (1 / 2 ^ 29)"
    by (simp only: abs_of_rat of_rat_less_eq)
  then show ?thesis by (simp add: of_rat_diff of_rat_divide)
qed

text \<open>A rounded product with a constant close to \<open>c\<close> is close to the exact product.\<close>

lemma product_close:
  fixes k :: int
  assumes k: "0 < k" "k \<le> 2 ^ 24" and C: "0 \<le> C" "C < 2" "\<bar>real_of_rat C - c\<bar> \<le> 1 / 2 ^ 53"
  shows "\<bar>real_of_rat (dmul (double_of_int k) C) - real_of_int k * c\<bar> \<le> 1 / 2 ^ 26"
proof -
  have kr: "(of_int k :: rat) \<le> 2 ^ 24" "0 \<le> (of_int k :: rat)"
    "real_of_int k \<le> 2 ^ 24" "0 \<le> real_of_int k"
    using k by (simp_all only: of_int_le_numeral_power_cancel_iff of_int_0_le_iff less_imp_le)
  have d: "double_of_int k = of_int k" by (rule small_double) (use k in simp)
  have "of_int k * C \<le> 2 ^ 24 * C" by (rule mult_right_mono) (use kr C in simp_all)
  then have "of_int k * C < 2 ^ 25" using C(2) by simp
  then have "\<bar>real_of_rat (rnd (of_int k * C)) - real_of_rat (of_int k * C)\<bar> \<le> 1 / 2 ^ 29"
    by (intro rnd_real_error) (use kr C in simp_all)
  moreover have "\<bar>real_of_rat (of_int k * C) - real_of_int k * c\<bar> \<le> 2 ^ 24 * (1 / 2 ^ 53)"
  proof -
    have "real_of_rat (of_int k * C) - real_of_int k * c = real_of_int k * (real_of_rat C - c)"
      by (simp add: of_rat_mult algebra_simps)
    then have "\<bar>real_of_rat (of_int k * C) - real_of_int k * c\<bar> = real_of_int k * \<bar>real_of_rat C - c\<bar>"
      using kr by (simp add: abs_mult)
    also have "\<dots> \<le> 2 ^ 24 * (1 / 2 ^ 53)" by (rule mult_mono) (use kr C in simp_all)
    finally show ?thesis .
  qed
  ultimately have "\<bar>real_of_rat (rnd (of_int k * C)) - real_of_int k * c\<bar> \<le> 1 / 2 ^ 29 + 2 ^ 24 * (1 / 2 ^ 53)"
    by linarith
  also have "\<dots> \<le> 1 / 2 ^ 26" by simp
  finally show ?thesis by (simp add: dmul_def d)
qed

lemma PHI_range: "0 \<le> PHI" "PHI < 2" and INV_PHI_range: "0 \<le> INV_PHI" "INV_PHI < 2"
  by (simp_all add: PHI_val INV_PHI_val)

lemma floor_PHI:
  assumes "0 < k" and "k \<le> 2 ^ 24"
  shows "\<lfloor>dmul (double_of_int k) PHI\<rfloor> = \<lfloor>real_of_int k * phi\<rfloor>"
  using floor_close(1) [OF phi_gap [OF assms] product_close [OF assms PHI_range PHI_close]] by simp

lemma ceiling_INV_PHI:
  assumes "0 < n" and "n \<le> 2 ^ 24"
  shows "\<lceil>dmul (double_of_int n) INV_PHI\<rceil> = \<lceil>real_of_int n * (phi - 1)\<rceil>"
proof -
  have gap: "1 / 2 ^ 26 < \<bar>real_of_int n * (phi - 1) - real_of_int m\<bar>" for m :: int
    using phi_gap [OF assms, of "n + m"] by (simp add: algebra_simps)
  show ?thesis
    using floor_close(2) [OF gap product_close [OF assms INV_PHI_range INV_PHI_close]] by simp
qed

section \<open>Beatty sequences\<close>

lemma phi_not_int:
  fixes m k :: int
  assumes "0 < k" shows "real_of_int k * phi \<noteq> real_of_int m"
proof
  assume e: "real_of_int k * phi = real_of_int m"
  have "real_of_int (m * m - m * k - k * k) = real_of_int k * real_of_int k * (phi * phi - phi - 1)"
    unfolding of_int_diff of_int_mult e [symmetric] by (simp add: algebra_simps)
  then have "real_of_int (m * m - m * k - k * k) = 0" by (simp add: phi_sq)
  then show False using norm_form_nonzero [OF assms, of m] by (simp only: of_int_eq_0_iff)
qed

text \<open>The candidate of the source decides membership in the first sequence.\<close>

lemma beatty_candidate:
  fixes n :: int
  assumes "0 < n"
  shows "(\<exists>k > 0. \<lfloor>real_of_int k * phi\<rfloor> = n) \<longleftrightarrow> \<lfloor>real_of_int \<lceil>real_of_int n * (phi - 1)\<rceil> * phi\<rfloor> = n"
proof -
  let ?k = "\<lceil>real_of_int n * (phi - 1)\<rceil>"
  have inv: "phi * (phi - 1) = 1" by (simp add: phi_sq algebra_simps)
  have pos: "0 < real_of_int n * (phi - 1)" using assms phi_bounds by simp
  then have k0: "0 < ?k" by (simp add: zero_less_ceiling)
  have "real_of_int n = (real_of_int n * (phi - 1)) * phi" by (simp add: mult.assoc inv mult.commute [of _ phi])
  also have "\<dots> \<le> real_of_int ?k * phi" by (rule mult_right_mono) (use phi_bounds in simp_all)
  finally have lo: "real_of_int n \<le> real_of_int ?k * phi" .
  have "\<lfloor>real_of_int ?k * phi\<rfloor> = n" if "0 < k" "\<lfloor>real_of_int k * phi\<rfloor> = n" for k
  proof -
    have "real_of_int n \<le> real_of_int k * phi" "real_of_int k * phi < real_of_int n + 1"
      using that(2) by (simp_all add: floor_eq_iff)
    then have "real_of_int n * (phi - 1) \<le> real_of_int k * phi * (phi - 1)"
      by (intro mult_right_mono) (use phi_bounds in simp_all)
    then have "real_of_int n * (phi - 1) \<le> real_of_int k" by (simp add: mult.assoc inv)
    then have "?k \<le> k" by (simp add: ceiling_le_iff)
    then have "real_of_int ?k * phi \<le> real_of_int k * phi"
      by (intro mult_right_mono) (use phi_bounds in simp_all)
    with \<open>real_of_int k * phi < real_of_int n + 1\<close> lo show ?thesis by (simp add: floor_eq_iff)
  qed
  with k0 show ?thesis by blast
qed

text \<open>The two sequences partition the positive integers.\<close>

lemma beatty_partition:
  fixes n :: int
  assumes "0 < n"
  shows "(\<exists>k > 0. \<lfloor>real_of_int k * phi\<rfloor> = n) \<longleftrightarrow> \<not> (\<exists>m > 0. \<lfloor>real_of_int m * (phi * phi)\<rfloor> = n)"
proof -
  have inv: "phi * (phi - 1) = 1" by (simp add: phi_sq algebra_simps)
  have inv2: "phi * phi * (2 - phi) = 1" using phi_sq by (simp add: algebra_simps)
  show ?thesis
  proof (intro iffI notI)
    assume "\<exists>k > 0. \<lfloor>real_of_int k * phi\<rfloor> = n" "\<exists>m > 0. \<lfloor>real_of_int m * (phi * phi)\<rfloor> = n"
    then obtain k m where k: "0 < k" "\<lfloor>real_of_int k * phi\<rfloor> = n"
      and m: "0 < m" "\<lfloor>real_of_int m * (phi * phi)\<rfloor> = n" by blast
    have a: "real_of_int n < real_of_int k * phi" "real_of_int k * phi < real_of_int n + 1"
      using k phi_not_int [OF k(1), of n] by (auto simp: floor_eq_iff less_le)
    have mm: "real_of_int m * (phi * phi) = real_of_int m * phi + real_of_int m"
      by (simp add: phi_sq algebra_simps)
    have b: "real_of_int n < real_of_int m * (phi * phi)" "real_of_int m * (phi * phi) < real_of_int n + 1"
    proof -
      have "real_of_int n \<le> real_of_int m * (phi * phi)" "real_of_int m * (phi * phi) < real_of_int n + 1"
        using m(2) unfolding floor_eq_iff by simp_all
      moreover have "real_of_int n \<noteq> real_of_int m * (phi * phi)"
        using phi_not_int [OF m(1), of "n - m"] unfolding mm by (simp add: algebra_simps)
      ultimately show "real_of_int n < real_of_int m * (phi * phi)"
        "real_of_int m * (phi * phi) < real_of_int n + 1" by simp_all
    qed
    have c: "real_of_int n * (phi - 1) < real_of_int k * (phi * (phi - 1))"
      "real_of_int k * (phi * (phi - 1)) < (real_of_int n + 1) * (phi - 1)"
      using a mult_strict_right_mono [of _ _ "phi - 1"] phi_bounds by (simp_all add: mult.assoc [symmetric])
    have d: "real_of_int n * (2 - phi) < real_of_int m * (phi * phi * (2 - phi))"
      "real_of_int m * (phi * phi * (2 - phi)) < (real_of_int n + 1) * (2 - phi)"
      using b mult_strict_right_mono [of _ _ "2 - phi"] phi_bounds by (simp_all add: mult.assoc [symmetric])
    have "real_of_int n < real_of_int (k + m)" "real_of_int (k + m) < real_of_int (n + 1)"
      using c d unfolding inv inv2 by (simp_all add: algebra_simps)
    then show False by (simp only: of_int_less_iff)
  next
    assume no: "\<not> (\<exists>m > 0. \<lfloor>real_of_int m * (phi * phi)\<rfloor> = n)"
    show "\<exists>k > 0. \<lfloor>real_of_int k * phi\<rfloor> = n"
    proof (rule ccontr)
      assume na: "\<not> (\<exists>k > 0. \<lfloor>real_of_int k * phi\<rfloor> = n)"
      define k where "k = \<lceil>real_of_int n * (phi - 1)\<rceil> - 1"
      have c: "real_of_int k < real_of_int n * (phi - 1)" "real_of_int n * (phi - 1) \<le> real_of_int (k + 1)"
        by (simp_all add: k_def) linarith
      have "0 < real_of_int n * (phi - 1)" using assms phi_bounds by simp
      then have k1: "0 < k + 1" by (simp add: k_def)
      have lo: "real_of_int n \<le> real_of_int (k + 1) * phi"
      proof -
        have "real_of_int n * (phi - 1) * phi \<le> real_of_int (k + 1) * phi"
          by (rule mult_right_mono [OF c(2)]) (use phi_bounds in simp)
        then show ?thesis by (simp add: mult.assoc inv mult.commute [of "phi - 1"])
      qed
      have "\<not> real_of_int (k + 1) * phi < real_of_int n + 1"
        using na k1 floor_unique [OF lo] by blast
      then have hi: "real_of_int n + 1 < real_of_int (k + 1) * phi"
        using phi_not_int [OF k1, of "n + 1"] by simp
      have "(real_of_int n + 1) * (phi - 1) < real_of_int (k + 1) * phi * (phi - 1)"
        by (rule mult_strict_right_mono [OF hi]) (use phi_bounds in simp)
      then have hi': "(real_of_int n + 1) * (phi - 1) < real_of_int (k + 1)"
        by (simp add: mult.assoc inv)
      define m where "m = n - k"
      have "real_of_int n * (2 - phi) < real_of_int m" "real_of_int m < (real_of_int n + 1) * (2 - phi)"
        using c(1) hi' by (simp_all add: m_def algebra_simps)
      then have "real_of_int n * (2 - phi) * (phi * phi) < real_of_int m * (phi * phi)"
        "real_of_int m * (phi * phi) < (real_of_int n + 1) * (2 - phi) * (phi * phi)"
        using phi_bounds by (auto intro!: mult_strict_right_mono)
      then have "\<lfloor>real_of_int m * (phi * phi)\<rfloor> = n"
        using inv2 by (simp add: floor_eq_iff mult.assoc mult.commute [of "2 - phi"])
      moreover have "0 < m"
      proof -
        have "0 < real_of_int n * (2 - phi)" using assms phi_bounds by simp
        with \<open>real_of_int n * (2 - phi) < real_of_int m\<close> have "0 < real_of_int m" by linarith
        then show ?thesis by simp
      qed
      ultimately show False using no by blast
    qed
  qed
qed

end
