(* ===== verification/Wythoff_Props.thy ===== *)
theory Wythoff_Props
  imports Wythoff
begin

text \<open>
  The properties of the gossip scheduler: every round names two different nodes, the pair index
  is a bijection, the double arithmetic computes the golden-ratio sequences exactly over the
  first \<open>2 ^ 24\<close> rounds, and the coverage matrix counts the schedule.
\<close>

section \<open>Words\<close>

lemma uint_word_small: "0 \<le> k \<Longrightarrow> k < 2 ^ 64 \<Longrightarrow> uint (word_of_int k :: u64) = k"
  by (simp add: uint_word_of_int)

lemma double_to_u64_int: "0 \<le> k \<Longrightarrow> k < 2 ^ 64 \<Longrightarrow> double_to_u64 (of_int k) = Some (word_of_int k)"
proof -
  assume "0 \<le> k" "k < 2 ^ 64"
  moreover from this have "(- 1 :: rat) < of_int k" by (simp add: less_le_trans)
  ultimately show ?thesis by (simp add: double_to_u64_def)
qed

lemma phi_product_range:
  assumes "0 < k" and "k \<le> 2 ^ 24"
  shows "0 \<le> \<lfloor>real_of_int k * phi\<rfloor>" and "\<lfloor>real_of_int k * phi\<rfloor> < 2 ^ 64"
    and "0 < \<lceil>real_of_int k * (phi - 1)\<rceil>" and "\<lceil>real_of_int k * (phi - 1)\<rceil> \<le> k"
proof -
  have k: "0 < real_of_int k" "real_of_int k \<le> 2 ^ 24"
    using assms by (simp_all only: of_int_0_less_iff of_int_le_numeral_power_cancel_iff)
  show "0 \<le> \<lfloor>real_of_int k * phi\<rfloor>" using k phi_bounds by simp
  have "real_of_int k * phi \<le> 2 ^ 24 * (13 / 8)" by (rule mult_mono) (use k phi_bounds in simp_all)
  also have "\<dots> < 2 ^ 64" by simp
  finally show "\<lfloor>real_of_int k * phi\<rfloor> < 2 ^ 64" by (simp add: floor_less_iff)
  show "0 < \<lceil>real_of_int k * (phi - 1)\<rceil>" using k phi_bounds by simp
  have "real_of_int k * (phi - 1) \<le> real_of_int k * 1" by (rule mult_left_mono) (use k phi_bounds in simp_all)
  then show "\<lceil>real_of_int k * (phi - 1)\<rceil> \<le> k" by (simp add: ceiling_le_iff)
qed

lemma floor_PHI_word:
  assumes "0 < k" and "k \<le> 2 ^ 24"
  shows "double_to_u64 (dfloor (dmul (double_of_int k) PHI)) = Some (word_of_int \<lfloor>real_of_int k * phi\<rfloor>)"
  using phi_product_range [OF assms] by (simp add: dfloor_def floor_PHI [OF assms] double_to_u64_int)

lemma unat_less_32: "unat (n :: u32) < 2 ^ 32"
  using unsigned_less [of n, where ?'a = nat] by simp

section \<open>Push or pull\<close>

lemma is_in_beatty_phi_eq:
  assumes "0 < n" and "n \<le> 2 ^ 24"
  shows "0 < uint n" and "is_in_beatty_phi n = Some (\<exists>k > 0. \<lfloor>real_of_int k * phi\<rfloor> = uint n)"
proof -
  let ?n = "uint n"
  have n: "0 < ?n" "?n \<le> 2 ^ 24"
    using assms by (simp_all add: word_less_def word_le_def)
  show "0 < ?n" by (rule n(1))
  define k where "k = \<lceil>real_of_int ?n * (phi - 1)\<rceil>"
  note K = phi_product_range(3,4) [OF n, folded k_def]
  have k: "0 < k" "k \<le> 2 ^ 24" using K(1) order.trans [OF K(2) n(2)] by blast+
  have "double_to_u64 (dceil (dmul (double_of_u64 n) INV_PHI)) = Some (word_of_int k)"
    using k by (simp only: dceil_def double_of_u64_def ceiling_INV_PHI [OF n, folded k_def])
      (simp add: double_to_u64_int)
  moreover have "double_of_u64 (word_of_int k) = double_of_int k"
    using k by (simp add: double_of_u64_def uint_word_small)
  ultimately have "is_in_beatty_phi n = Some (word_of_int \<lfloor>real_of_int k * phi\<rfloor> = n)"
    by (simp add: is_in_beatty_phi_def floor_PHI_word [OF k])
  moreover have "(word_of_int \<lfloor>real_of_int k * phi\<rfloor> = n) = (\<lfloor>real_of_int k * phi\<rfloor> = ?n)"
    using uint_word_small [OF phi_product_range(1,2) [OF k]] by (metis word_of_int_uint)
  ultimately show "is_in_beatty_phi n = Some (\<exists>k > 0. \<lfloor>real_of_int k * phi\<rfloor> = ?n)"
    by (simp only: beatty_candidate [OF n(1), folded k_def])
qed

text \<open>Over the first \<open>2 ^ 24\<close> rounds the double arithmetic decides membership in the
  Beatty sequences exactly: a round pulls when it is \<open>floor (k * phi)\<close> for some \<open>k\<close>, and it
  pushes when it is \<open>floor (k * phi^2)\<close> for some \<open>k\<close>, for the true golden ratio \<open>phi\<close>; and
  each round does one or the other.\<close>
theorem sync_mode_beatty:
  assumes "0 < n" and "n \<le> 2 ^ 24"
  shows "(get_sync_mode n = Some PULL \<longleftrightarrow> (\<exists>k > 0. \<lfloor>real_of_int k * phi\<rfloor> = uint n)) \<and>
    (get_sync_mode n = Some PUSH \<longleftrightarrow> (\<exists>k > 0. \<lfloor>real_of_int k * (phi * phi)\<rfloor> = uint n)) \<and>
    get_sync_mode n \<in> {Some PULL, Some PUSH}"
  using is_in_beatty_phi_eq [OF assms] beatty_partition [of "uint n"]
  by (auto simp: get_sync_mode_def)

theorem sync_mode_beatty_witness:
  "get_sync_mode 4 = Some PULL \<and> get_sync_mode 5 = Some PUSH"
proof -
  have "\<lfloor>real_of_int 3 * phi\<rfloor> = 4" "\<lfloor>real_of_int 2 * (phi * phi)\<rfloor> = 5"
    using phi_bounds by (simp_all add: phi_sq floor_eq_iff)
  then have "\<exists>k > 0. \<lfloor>real_of_int k * phi\<rfloor> = uint (4 :: u64)"
    "\<exists>k > 0. \<lfloor>real_of_int k * (phi * phi)\<rfloor> = uint (5 :: u64)"
    by (intro exI [of _ 3] exI [of _ 2]; simp)+
  with sync_mode_beatty [of 4] sync_mode_beatty [of 5] show ?thesis by simp
qed

section \<open>Pairs\<close>

text \<open>The pair a number below \<open>N * (N - 1)\<close> stands for, on natural numbers.\<close>

lemma decode_pair_nat:
  assumes "2 \<le> n"
  shows "unat (sender (decode_pair n i)) = unat i div (unat n - 1)"
    and "unat i < unat n * (unat n - 1) \<Longrightarrow> unat (receiver (decode_pair n i)) =
      (if unat i div (unat n - 1) \<le> unat i mod (unat n - 1) then Suc (unat i mod (unat n - 1))
       else unat i mod (unat n - 1))"
proof -
  have N: "2 \<le> unat n" using assms by (simp add: word_le_nat_alt)
  have n1: "unat (n - 1) = unat n - 1" using N by (simp add: unat_sub word_le_nat_alt)
  show "unat (sender (decode_pair n i)) = unat i div (unat n - 1)"
    by (simp add: decode_pair_def Let_def unat_div n1)
  have r: "unat i mod (unat n - 1) < unat n - 1" using N by simp
  moreover have "unat n < 2 ^ 32" by (rule unat_less_32)
  ultimately have "unat (i mod (n - 1) + 1) = Suc (unat i mod (unat n - 1))"
    by (subst unat_add_lem [THEN iffD1]) (simp_all add: unat_mod n1)
  then show "unat (receiver (decode_pair n i)) =
      (if unat i div (unat n - 1) \<le> unat i mod (unat n - 1) then Suc (unat i mod (unat n - 1))
       else unat i mod (unat n - 1))"
    by (simp add: decode_pair_def Let_def word_le_nat_alt unat_div unat_mod n1)
qed

lemma odd_coprime_power: "odd (k :: nat) \<Longrightarrow> coprime (2 ^ 32) k"
  by (simp only: coprime_power_left_iff coprime_left_2_iff_odd simp_thms)

lemma word_ge_2: "2 \<le> n \<Longrightarrow> 2 \<le> unat (n :: u32)"
  by (simp add: word_le_nat_alt)

text \<open>The number of directed pairs, modulo the word size, is never 0.\<close>

lemma num_pairs_nonzero:
  fixes n :: u32
  assumes "2 \<le> n"
  shows "n * (n - 1) \<noteq> 0" and "unat (n * (n - 1)) \<le> unat n * (unat n - 1)"
proof -
  let ?N = "unat n"
  have N: "2 \<le> ?N" by (rule word_ge_2 [OF assms])
  have n1: "unat (n - 1) = ?N - 1" using N by (simp add: unat_sub word_le_nat_alt)
  have u: "unat (n * (n - 1)) = ?N * (?N - 1) mod 2 ^ 32"
    by (simp add: unat_word_ariths n1)
  then show "unat (n * (n - 1)) \<le> ?N * (?N - 1)" by simp
  have "\<not> 2 ^ 32 dvd ?N * (?N - 1)"
  proof
    assume d: "2 ^ 32 dvd ?N * (?N - 1)"
    have "2 ^ 32 dvd ?N \<or> 2 ^ 32 dvd ?N - 1"
    proof (cases "even ?N")
      case True
      then have "odd (?N - 1)" using N by simp
      from odd_coprime_power [OF this] d show ?thesis by (simp only: coprime_dvd_mult_left_iff simp_thms)
    next
      case False
      from odd_coprime_power [OF this] d show ?thesis by (simp only: coprime_dvd_mult_right_iff simp_thms)
    qed
    then have "2 ^ 32 \<le> ?N" using N by (auto dest!: dvd_imp_le)
    then show False using unat_less_32 [of n] by simp
  qed
  then have "unat (n * (n - 1)) \<noteq> 0" unfolding u by (simp add: dvd_eq_mod_eq_0)
  then show "n * (n - 1) \<noteq> 0" by auto
qed

lemma decode_pair_valid:
  assumes "2 \<le> n" and "unat i < unat n * (unat n - 1)"
  shows "sender (decode_pair n i) < n" and "receiver (decode_pair n i) < n"
    and "sender (decode_pair n i) \<noteq> receiver (decode_pair n i)"
proof -
  note N = word_ge_2 [OF assms(1)] and D = decode_pair_nat [OF assms(1)]
  have s: "unat i div (unat n - 1) < unat n"
    using assms(2) by (simp add: less_mult_imp_div_less)
  have "unat i mod (unat n - 1) < unat n - 1" using N by simp
  then have "Suc (unat i mod (unat n - 1)) < unat n" by linarith
  then have "unat (receiver (decode_pair n i)) < unat n"
    by (simp add: D(2) [OF assms(2)])
  moreover have "unat (sender (decode_pair n i)) < unat n" using s by (simp add: D(1))
  moreover have "unat (sender (decode_pair n i)) \<noteq> unat (receiver (decode_pair n i))"
    by (simp add: D(1) D(2) [OF assms(2)])
  ultimately show "sender (decode_pair n i) < n" "receiver (decode_pair n i) < n"
    "sender (decode_pair n i) \<noteq> receiver (decode_pair n i)"
    by (auto simp: word_less_nat_alt)
qed

text \<open>The product stays inside 64 bits for every round below \<open>2 ^ 63\<close>.\<close>

lemma round_product_defined:
  assumes "uint r < 2 ^ 63"
  shows "double_to_u64 (dfloor (dmul (double_of_u64 r) PHI)) \<noteq> None"
proof -
  define a where "a = uint r"
  have a: "0 \<le> a" "a < 2 ^ 63" using assms by (simp_all add: a_def)
  let ?x = "rnd (of_int a)" and ?r = "of_int a :: rat"
  have p: "pow2 (int 63) = 2 ^ 63" "pow2 (int 63 - 54) = 2 ^ 9" "pow2 (int 64) = 2 ^ 64" "pow2 (int 64 - 54) = 2 ^ 10"
    by (simp_all add: pow2_def)
  have "?r < of_int (2 ^ 63)" using a by (simp only: of_int_less_iff)
  then have r: "0 \<le> ?r" "?r < 2 ^ 63" using a by simp_all
  have x0: "0 \<le> ?x" by (rule rnd_nonneg [OF r(1)])
  have "\<bar>?x - ?r\<bar> \<le> 2 ^ 9" using rnd_error_bound [of ?r 63] r p by simp
  then have x: "?x \<le> 2 ^ 63 + 2 ^ 9" using r(2) unfolding abs_le_iff by linarith
  have "?x * PHI \<le> (2 ^ 63 + 2 ^ 9) * PHI" by (rule mult_right_mono [OF x PHI_range(1)])
  then have y: "?x * PHI < 2 ^ 64 - 2 ^ 10" by (simp add: PHI_val)
  have y0: "0 \<le> ?x * PHI" using x0 PHI_range by simp
  have "\<bar>rnd (?x * PHI) - ?x * PHI\<bar> \<le> 2 ^ 10"
    using rnd_error_bound [of "?x * PHI" 64] y0 y p by simp
  then have "rnd (?x * PHI) < 2 ^ 64" using y unfolding abs_le_iff by linarith
  moreover have "0 \<le> rnd (?x * PHI)" by (rule rnd_nonneg [OF y0])
  ultimately have "0 \<le> \<lfloor>rnd (?x * PHI)\<rfloor>" "\<lfloor>rnd (?x * PHI)\<rfloor> < 2 ^ 64"
    by (simp_all add: floor_less_iff)
  from double_to_u64_int [OF this] show ?thesis
    by (simp add: dmul_def dfloor_def double_of_u64_def double_of_int_def flip: a_def)
qed

lemma unat_mod_pairs:
  assumes "m \<noteq> 0" shows "unat (ucast ((w :: u64) mod ucast m) :: u32) < unat (m :: u32)"
proof -
  have m: "unat (ucast m :: u64) = unat m"
    using unat_less_32 [of m] by (simp add: unsigned_ucast_eq take_bit_nat_eq_self)
  have "unat (w mod ucast m) < unat m"
    using assms by (simp add: unat_mod m unat_gt_0)
  moreover have "unat (ucast (w mod ucast m) :: u32) \<le> unat (w mod ucast m)"
    by (simp add: unsigned_ucast_eq take_bit_nat_less_eq_self)
  ultimately show ?thesis by linarith
qed

lemma get_pair_total:
  assumes "2 \<le> num_nodes sch" and "r < 2 ^ 63"
  shows "\<exists>p. get_pair sch r = Some p \<and> sender p < num_nodes sch \<and> receiver p < num_nodes sch \<and>
    sender p \<noteq> receiver p"
proof -
  let ?n = "num_nodes sch"
  have "uint r < 2 ^ 63" using assms(2) by (simp add: word_less_def)
  then obtain w where w: "double_to_u64 (dfloor (dmul (double_of_u64 r) PHI)) = Some w"
    using round_product_defined by blast
  note P = num_pairs_nonzero [OF assms(1)]
  have i: "unat (ucast (w mod ucast (?n * (?n - 1))) :: u32) < unat ?n * (unat ?n - 1)"
    using unat_mod_pairs [OF P(1)] P(2) by (rule less_le_trans)
  show ?thesis
    using decode_pair_valid [OF assms(1) i] P(1) w by (simp add: get_pair_def)
qed

text \<open>For two or more nodes (any number: the 32-bit product of the pair count may wrap,
  but never to 0) and every round below \<open>2 ^ 63\<close>, the scheduler names two different nodes.\<close>
theorem get_pair_valid:
  assumes "2 \<le> num_nodes sch" and "r < 2 ^ 63"
  shows "\<exists>p. get_pair sch r = Some p \<and> sender p < num_nodes sch \<and> receiver p < num_nodes sch \<and>
    sender p \<noteq> receiver p"
  by (rule get_pair_total [OF assms])

theorem get_pair_valid_witness:
  "\<exists>p. get_pair \<lparr>num_nodes = 5\<rparr> 1000000 = Some p \<and> sender p \<noteq> receiver p"
proof -
  have "2 \<le> num_nodes \<lparr>num_nodes = 5\<rparr>" "(1000000 :: u64) < 2 ^ 63" by simp_all
  from get_pair_valid [OF this] show ?thesis by blast
qed

lemma pair_count:
  fixes n :: u32
  assumes "2 \<le> n" and "n \<le> 65536"
  shows "unat (n * (n - 1)) = unat n * (unat n - 1)"
proof -
  have N: "2 \<le> unat n" "unat n \<le> 65536" using assms by (simp_all add: word_le_nat_alt)
  have "unat n * (unat n - 1) \<le> 65536 * 65535" by (rule mult_mono) (use N in simp_all)
  then have "unat n * (unat n - 1) < 2 ^ 32" by simp
  moreover have "unat (n - 1) = unat n - 1" using N by (simp add: unat_sub word_le_nat_alt)
  ultimately show ?thesis by (simp add: unat_word_ariths)
qed

lemma div_mod_unique:
  fixes a b q r :: nat
  assumes "r < b" shows "(q * b + r) div b = q" and "(q * b + r) mod b = r"
  using assms by simp_all

text \<open>The number of a pair.\<close>

definition pair_number :: "nat \<Rightarrow> nat \<Rightarrow> nat \<Rightarrow> nat" where
  "pair_number N s r = s * (N - 1) + (if s < r then r - 1 else r)"

lemma pair_number_less:
  assumes "s < N" and "r < N" and "s \<noteq> r"
  shows "pair_number N s r < N * (N - 1)" and "(if s < r then r - 1 else r) < N - 1"
proof -
  show b: "(if s < r then r - 1 else r) < N - 1" using assms by auto
  have "pair_number N s r < s * (N - 1) + (N - 1)" using b by (simp add: pair_number_def)
  also have "\<dots> = Suc s * (N - 1)" by simp
  also have "\<dots> \<le> N * (N - 1)" by (rule mult_le_mono1) (use assms in simp)
  finally show "pair_number N s r < N * (N - 1)" .
qed

lemma decode_pair_iff:
  assumes n: "2 \<le> n" and i: "unat i < unat n * (unat n - 1)"
    and p: "sender p < n" "receiver p < n" "sender p \<noteq> receiver p"
  shows "decode_pair n i = p \<longleftrightarrow> unat i = pair_number (unat n) (unat (sender p)) (unat (receiver p))"
proof -
  let ?N = "unat n" and ?s = "unat (sender p)" and ?r = "unat (receiver p)"
  define M where "M = ?N - 1"
  note D = decode_pair_nat(1) [OF n, of i, folded M_def] decode_pair_nat(2) [OF n i, folded M_def]
  have sr: "?s < ?N" "?r < ?N" "?s \<noteq> ?r"
    using p by (simp_all add: word_less_nat_alt word_eq_iff_unsigned [where 'a = nat])
  have pn: "pair_number ?N ?s ?r = ?s * M + (if ?s < ?r then ?r - 1 else ?r)"
    by (simp add: pair_number_def M_def)
  have "decode_pair n i = p \<longleftrightarrow> unat (sender (decode_pair n i)) = ?s \<and> unat (receiver (decode_pair n i)) = ?r"
    by (cases p; cases "decode_pair n i") (auto simp: word_eq_iff_unsigned [where 'a = nat])
  also have "\<dots> \<longleftrightarrow> unat i = pair_number ?N ?s ?r"
  proof
    assume "unat (sender (decode_pair n i)) = ?s \<and> unat (receiver (decode_pair n i)) = ?r"
    then have d: "unat i div M = ?s"
      "(if ?s \<le> unat i mod M then Suc (unat i mod M) else unat i mod M) = ?r"
      using D by auto
    then have "unat i mod M = (if ?s < ?r then ?r - 1 else ?r)" by (auto split: if_splits)
    then show "unat i = pair_number ?N ?s ?r"
      using d(1) div_mult_mod_eq [of "unat i" M] unfolding pn by simp
  next
    assume u: "unat i = pair_number ?N ?s ?r"
    note b = pair_number_less(2) [OF sr, folded M_def]
    have "unat i div M = ?s" "unat i mod M = (if ?s < ?r then ?r - 1 else ?r)"
      unfolding u pn using div_mod_unique [OF b, of ?s] by simp_all
    then show "unat (sender (decode_pair n i)) = ?s \<and> unat (receiver (decode_pair n i)) = ?r"
      using D sr by auto
  qed
  finally show ?thesis .
qed

text \<open>The pair of a round by the true golden ratio.\<close>

lemma get_pair_phi:
  assumes "2 \<le> num_nodes sch" and "num_nodes sch \<le> 65536" and "0 < r" and "r \<le> 2 ^ 24"
    and "N = unat (num_nodes sch)"
  shows "get_pair sch r = Some (decode_pair (num_nodes sch)
      (word_of_nat (nat \<lfloor>real_of_int (uint r) * phi\<rfloor> mod (N * (N - 1)))))"
    and "N * (N - 1) < 2 ^ 32"
proof -
  let ?n = "num_nodes sch"
  define a where "a = uint r"
  have a: "0 < a" "a \<le> 2 ^ 24" using assms(3,4) by (simp_all add: a_def word_less_def word_le_def)
  define f where "f = \<lfloor>real_of_int a * phi\<rfloor>"
  have f: "0 \<le> f" "f < 2 ^ 64" using phi_product_range(1,2) [OF a] by (simp_all add: f_def)
  have w: "double_to_u64 (dfloor (dmul (double_of_u64 r) PHI)) = Some (word_of_int f)"
    using floor_PHI_word [OF a] by (simp add: double_of_u64_def a_def f_def)
  have cnt: "unat (?n * (?n - 1)) = N * (N - 1)" using pair_count [OF assms(1,2)] assms(5) by simp
  show lt: "N * (N - 1) < 2 ^ 32" using unat_less_32 [of "?n * (?n - 1)"] cnt by simp
  have uw: "unat (word_of_int f :: u64) = nat f" using f by (simp add: unsigned_of_int take_bit_int_eq_self)
  have um: "unat (ucast (?n * (?n - 1)) :: u64) = N * (N - 1)"
    using lt cnt by (simp add: unsigned_ucast_eq take_bit_nat_eq_self)
  have "unat (word_of_int f mod ucast (?n * (?n - 1)) :: u64) = nat f mod (N * (N - 1))"
    by (simp only: unat_mod uw um)
  then have "(ucast (word_of_int f mod ucast (?n * (?n - 1)) :: u64) :: u32) = word_of_nat (nat f mod (N * (N - 1)))"
    by (metis of_nat_unat)
  then show "get_pair sch r = Some (decode_pair ?n (word_of_nat (nat \<lfloor>real_of_int (uint r) * phi\<rfloor> mod (N * (N - 1)))))"
    using num_pairs_nonzero(1) [OF assms(1)] by (simp add: get_pair_def w flip: f_def a_def)
qed

text \<open>C30: for up to 65536 nodes and over the first \<open>2 ^ 24\<close> rounds, the pair of a round is
  number \<open>floor (r * phi) mod (N * (N - 1))\<close>, for the true golden ratio, in a numbering in which
  every ordered pair of different nodes has exactly one number below \<open>N * (N - 1)\<close>.\<close>
theorem schedule_exact:
  assumes "2 \<le> num_nodes sch" and "num_nodes sch \<le> 65536" and "0 < r" and "r \<le> 2 ^ 24"
    and "N = unat (num_nodes sch)"
  shows "get_pair sch r = Some (decode_pair (num_nodes sch)
      (word_of_nat (nat \<lfloor>real_of_int (uint r) * phi\<rfloor> mod (N * (N - 1))))) \<and>
    (\<forall>p. sender p < num_nodes sch \<longrightarrow> receiver p < num_nodes sch \<longrightarrow> sender p \<noteq> receiver p \<longrightarrow>
      (\<exists>!i. unat i < N * (N - 1) \<and> decode_pair (num_nodes sch) i = p))"
proof (intro conjI allI impI)
  let ?n = "num_nodes sch"
  note lt = get_pair_phi(2) [OF assms]
  show "get_pair sch r = Some (decode_pair ?n (word_of_nat (nat \<lfloor>real_of_int (uint r) * phi\<rfloor> mod (N * (N - 1)))))"
    by (rule get_pair_phi(1) [OF assms])
  fix p :: gossip_pair
  assume p: "sender p < ?n" "receiver p < ?n" "sender p \<noteq> receiver p"
  let ?k = "pair_number N (unat (sender p)) (unat (receiver p))"
  have "?k < N * (N - 1)"
    using p assms(5)
    by (intro pair_number_less) (simp_all add: word_less_nat_alt word_eq_iff_unsigned [where 'a = nat])
  then have k: "unat (word_of_nat ?k :: u32) = ?k" "?k < N * (N - 1)"
    using lt by (simp_all add: unat_of_nat)
  have iff: "decode_pair ?n i = p \<longleftrightarrow> unat i = ?k" if "unat i < N * (N - 1)" for i
    using decode_pair_iff [OF assms(1) _ p, of i] that assms(5) by simp
  show "\<exists>!i. unat i < N * (N - 1) \<and> decode_pair ?n i = p"
  proof (rule ex1I [of _ "word_of_nat ?k"])
    show "unat (word_of_nat ?k :: u32) < N * (N - 1) \<and> decode_pair ?n (word_of_nat ?k) = p"
      using k iff [of "word_of_nat ?k"] by simp
    fix i assume "unat i < N * (N - 1) \<and> decode_pair ?n i = p"
    then have "unat i = unat (word_of_nat ?k :: u32)" using iff [of i] k by simp
    then show "i = word_of_nat ?k" by (simp only: word_eq_iff_unsigned [where 'a = nat])
  qed
qed

theorem schedule_exact_witness:
  "get_pair \<lparr>num_nodes = 3\<rparr> 3 = Some \<lparr>sender = 2, receiver = 0\<rparr> \<and> \<lfloor>real_of_int 3 * phi\<rfloor> = 4"
proof -
  have "3 * phi < 5" "4 \<le> 3 * phi" using phi_bounds by simp_all
  then have f: "\<lfloor>real_of_int 3 * phi\<rfloor> = 4" by (simp add: floor_eq_iff)
  have h: "2 \<le> num_nodes \<lparr>num_nodes = 3\<rparr>" "num_nodes \<lparr>num_nodes = 3\<rparr> \<le> 65536"
    "(0 :: u64) < 3" "(3 :: u64) \<le> 2 ^ 24" by simp_all
  have "decode_pair 3 4 = \<lparr>sender = 2, receiver = 0\<rparr>" by code_simp
  then show ?thesis using schedule_exact [OF h refl] f by simp
qed

section \<open>The coverage matrix\<close>

lemma schedule_from_pairs:
  "schedule_from sch r c = Some ps \<Longrightarrow>
   length ps = c \<and> (\<forall>i < c. get_pair sch (r + of_nat i) = Some (ps ! i))"
proof (induction sch r c arbitrary: ps rule: schedule_from.induct)
  case (2 sch r c)
  then obtain p qs where p: "get_pair sch r = Some p" "schedule_from sch (r + 1) c = Some qs" "ps = p # qs"
    by (auto split: option.splits)
  with 2 have IH: "length qs = c" "\<And>i. i < c \<Longrightarrow> get_pair sch (r + 1 + of_nat i) = Some (qs ! i)" by auto
  have "get_pair sch (r + of_nat i) = Some (ps ! i)" if "i < Suc c" for i
    using that p IH(2) [of "i - 1"] by (cases i) (simp_all add: add.assoc)
  with p IH(1) show ?case by simp
qed simp

lemma schedule_from_defined:
  "2 \<le> num_nodes sch \<Longrightarrow> unat r + c \<le> 2 ^ 63 \<Longrightarrow> schedule_from sch r c \<noteq> None"
proof (induction sch r c rule: schedule_from.induct)
  case (2 sch r c)
  have "r < 2 ^ 63" using 2(3) by (simp add: word_less_nat_alt)
  then have "\<exists>p. get_pair sch r = Some p" using get_pair_total [OF 2(2)] by blast
  moreover have "unat (r + 1) = Suc (unat r)"
    using 2(3) by (subst unat_add_lem [THEN iffD1]) simp_all
  ultimately show ?case using 2 by auto
qed simp

definition valid_pair :: "u32 \<Rightarrow> gossip_pair \<Rightarrow> bool" where
  "valid_pair n p \<longleftrightarrow> sender p < n \<and> receiver p < n \<and> sender p \<noteq> receiver p"

lemma count_pairs_shape:
  "length (count_pairs ps mat) = length mat \<and>
   (\<forall>row \<in> set (count_pairs ps mat). length row = k)"
  if "\<forall>row \<in> set mat. length row = k" and "\<forall>p \<in> set ps. unat (sender p) < length mat"
  using that
proof (induction ps mat rule: count_pairs.induct)
  case (2 p ps mat)
  have "\<forall>row \<in> set (mat[unat (sender p) := (mat ! unat (sender p))[unat (receiver p) := v]]). length row = k" for v
    using 2(2,3) by (auto dest!: set_update_subset_insert [THEN subsetD])
  then show ?case using 2 by (simp add: Let_def)
qed simp

lemma count_pairs_entry:
  "\<forall>row \<in> set mat. length row = k \<Longrightarrow>
   \<forall>p \<in> set ps. unat (sender p) < length mat \<and> unat (receiver p) < k \<Longrightarrow>
   i < length mat \<Longrightarrow> j < k \<Longrightarrow>
   count_pairs ps mat ! i ! j = mat ! i ! j +
     of_nat (length (filter (\<lambda>p. unat (sender p) = i \<and> unat (receiver p) = j) ps))"
proof (induction ps mat rule: count_pairs.induct)
  case (2 p ps mat)
  let ?s = "unat (sender p)" and ?r = "unat (receiver p)"
  let ?m = "mat[?s := (mat ! ?s)[?r := mat ! ?s ! ?r + 1]]"
  have len: "length (mat ! ?s) = k" using 2(2,3) by simp
  have rows: "\<forall>row \<in> set ?m. length row = k"
    using 2(2) len by (auto dest!: set_update_subset_insert [THEN subsetD])
  have "?m ! i ! j = mat ! i ! j + (if ?s = i \<and> ?r = j then 1 else 0)"
    using 2(3,4,5) len by (auto simp: nth_list_update)
  moreover have "count_pairs ps ?m ! i ! j = ?m ! i ! j +
      of_nat (length (filter (\<lambda>p. unat (sender p) = i \<and> unat (receiver p) = j) ps))"
    using 2(1) [OF refl refl rows] 2(3,4,5) by simp
  ultimately show ?case by (simp add: Let_def add.assoc)
qed simp

text \<open>The coverage matrix is square, its diagonal is 0, and every other entry counts the
  rounds from 1 to the given number whose pair it stands for (modulo the 32-bit counter).\<close>
theorem coverage_counts:
  assumes "2 \<le> num_nodes sch" and "rounds < 2 ^ 63"
  shows "\<exists>mat. coverage_matrix sch rounds = Some mat \<and> length mat = unat (num_nodes sch) \<and>
    (\<forall>i < unat (num_nodes sch). length (mat ! i) = unat (num_nodes sch) \<and> mat ! i ! i = 0 \<and>
      (\<forall>j < unat (num_nodes sch). mat ! i ! j =
        of_nat (card {k. k < unat rounds \<and> (\<exists>p. get_pair sch (of_nat (Suc k)) = Some p \<and>
          unat (sender p) = i \<and> unat (receiver p) = j)})))"
proof -
  let ?N = "unat (num_nodes sch)"
  let ?zero = "replicate ?N (replicate ?N (0 :: u32))"
  have b: "unat rounds < 2 ^ 63" using assms(2) by (simp add: word_less_nat_alt)
  obtain ps where ps: "schedule_from sch 1 (unat rounds) = Some ps"
    using schedule_from_defined [OF assms(1), of 1 "unat rounds"] b by auto
  note P = schedule_from_pairs [OF ps]
  have nth: "get_pair sch (of_nat (Suc k)) = Some (ps ! k)" if "k < unat rounds" for k
    using P that by simp
  have valid: "valid_pair (num_nodes sch) p" if "p \<in> set ps" for p
  proof -
    obtain k where k: "k < unat rounds" "p = ps ! k" using \<open>p \<in> set ps\<close> P by (auto simp: in_set_conv_nth)
    have "unat (of_nat (Suc k) :: u64) = Suc k" using k(1) b by (simp add: unat_of_nat del: of_nat_Suc)
    then have "(of_nat (Suc k) :: u64) < 2 ^ 63"
      using k(1) b by (simp add: word_less_nat_alt del: of_nat_Suc)
    from get_pair_total [OF assms(1) this] nth [OF k(1)] k(2) show ?thesis by (auto simp: valid_pair_def)
  qed
  have bounds: "\<forall>p \<in> set ps. unat (sender p) < length ?zero \<and> unat (receiver p) < ?N"
    using valid by (auto simp: valid_pair_def word_less_nat_alt)
  have shape: "length (count_pairs ps ?zero) = ?N" "\<forall>row \<in> set (count_pairs ps ?zero). length row = ?N"
    using count_pairs_shape [of ?zero ?N ps] bounds by auto
  have cardeq: "length (filter Q ps) = card {k. k < unat rounds \<and> (\<exists>p. get_pair sch (of_nat (Suc k)) = Some p \<and> Q p)}" for Q
  proof -
    have "length (filter Q ps) = card {k. k < length ps \<and> Q (ps ! k)}" by (rule length_filter_conv_card)
    also have "{k. k < length ps \<and> Q (ps ! k)} =
        {k. k < unat rounds \<and> (\<exists>p. get_pair sch (of_nat (Suc k)) = Some p \<and> Q p)}"
      using P nth by auto
    finally show ?thesis .
  qed
  have entry: "count_pairs ps ?zero ! i ! j =
      of_nat (length (filter (\<lambda>p. unat (sender p) = i \<and> unat (receiver p) = j) ps))"
    if "i < ?N" "j < ?N" for i j
    using count_pairs_entry [of ?zero ?N ps i j] bounds that by simp
  have "unat (sender p) \<noteq> unat (receiver p)" if "p \<in> set ps" for p
    using valid [OF that] by (simp add: valid_pair_def word_eq_iff_unsigned [where 'a = nat])
  then have diag: "filter (\<lambda>p. unat (sender p) = i \<and> unat (receiver p) = i) ps = []" for i
    by (metis (mono_tags, lifting) filter_False)
  have "rounds \<noteq> - 1" using assms(2) by auto
  then have "coverage_matrix sch rounds = Some (count_pairs ps ?zero)"
    by (simp add: coverage_matrix_def ps)
  moreover have "length (count_pairs ps ?zero ! i) = ?N" "count_pairs ps ?zero ! i ! i = 0" if "i < ?N" for i
    using shape entry [OF that that] diag [of i] that by simp_all
  moreover note shape(1) entry [unfolded cardeq]
  ultimately show ?thesis by (intro exI [of _ "count_pairs ps ?zero"]) blast
qed

theorem coverage_counts_witness:
  "\<exists>mat. coverage_matrix \<lparr>num_nodes = 3\<rparr> 6 = Some mat \<and> length mat = 3 \<and> mat ! 1 ! 1 = 0"
proof -
  have "2 \<le> num_nodes \<lparr>num_nodes = 3\<rparr>" "(6 :: u64) < 2 ^ 63" by simp_all
  from coverage_counts [OF this] show ?thesis by auto
qed

section \<open>The phase offset\<close>

text \<open>For a positive interval the phase offset of every node lies in \<open>[0, interval)\<close>.\<close>
theorem phase_offset_range:
  assumes "0 < interval"
  shows "0 \<le> get_phase_offset node interval \<and> get_phase_offset node interval < interval"
proof -
  let ?x = "ddiv (dmul (double_of_int (uint node)) interval) PHI"
  have "0 \<le> ?x"
    unfolding ddiv_def dmul_def double_of_int_def
    by (intro rnd_nonneg divide_nonneg_nonneg mult_nonneg_nonneg of_int_nonneg unsigned_greater_eq)
       (use assms PHI_range in simp_all)
  then have q: "0 \<le> ?x / interval" using assms by simp
  then have t: "dtrunc (?x / interval) = \<lfloor>?x / interval\<rfloor>" by (simp add: dtrunc_def)
  have "of_int \<lfloor>?x / interval\<rfloor> * interval \<le> ?x / interval * interval"
    "?x / interval * interval < (of_int \<lfloor>?x / interval\<rfloor> + 1) * interval"
    using assms floor_correct [of "?x / interval"] by (simp_all del: times_divide_eq_left)
  then show ?thesis using assms by (simp add: get_phase_offset_def dfmod_def t algebra_simps)
qed

theorem phase_offset_range_witness:
  "get_phase_offset 3 100 < 100 \<and> 0 \<le> get_phase_offset 3 100"
  using phase_offset_range [of 100 3] by simp

end
