(* ===== verification/Gossip.thy ===== *)
theory Gossip
  imports Message Wythoff "HOL-Library.Signed_Division"
begin

text \<open>
  The gossip engine of one node (\<^verbatim>\<open>gossip/gossip_engine.cpp\<close>): its peer table, the
  choice of a peer, one iteration of the gossip thread and the handling of one datagram. Sending is
  a list of datagrams returned. Points of the steady clock are integers in nanoseconds, given as
  arguments, as is the choice of the random generator (\<open>pick n\<close> stands for a draw from
  \<open>0..n-1\<close>). A pointer to a peer is its index in the table. A result of \<open>None\<close> stands
  for undefined behaviour of the arithmetic or of an unchecked read.
\<close>

section \<open>State\<close>

record peer_info =
  peer_node :: string
  peer_host :: string
  peer_port :: u16
  is_alive :: bool
  last_heard :: int

datatype gossip_strategy = RANDOM | ROUND_ROBIN | WYTHOFF

record gossip_engine =
  ge_node :: string
  ge_book :: crdt_book
  peers :: "peer_info list"
  gossip_interval_ms :: int
  heartbeat_interval_ms :: int
  peer_timeout_ms :: int
  strategy :: gossip_strategy
  scheduler :: wythoff_scheduler
  round_no :: u64
  my_node_index :: u32
  rr_index :: nat

type_synonym datagram = "string \<times> u16 \<times> u8 list"

text \<open>\<^verbatim>\<open>std::sort\<close>, then \<^verbatim>\<open>erase(unique(...))\<close>, on the node's own id and its
  peers' ids.\<close>

definition all_ids :: "string \<Rightarrow> peer_info list \<Rightarrow> string list" where
  "all_ids nid ps = remdups_adj (sort (nid # map peer_node ps))"

fun find_index :: "string \<Rightarrow> nat \<Rightarrow> string list \<Rightarrow> u32" where
  "find_index nid i [] = 0"
| "find_index nid i (x # xs) = (if x = nid then of_nat i else find_index nid (Suc i) xs)"

definition new_engine ::
  "string \<Rightarrow> crdt_book \<Rightarrow> peer_info list \<Rightarrow> int \<Rightarrow> int \<Rightarrow> int \<Rightarrow> gossip_strategy \<Rightarrow> gossip_engine" where
  "new_engine nid bk seed gi hi pt strat =
     \<lparr>ge_node = nid, ge_book = bk, peers = seed, gossip_interval_ms = gi, heartbeat_interval_ms = hi,
      peer_timeout_ms = pt, strategy = strat,
      scheduler = \<lparr>num_nodes = of_nat (length seed + 1)\<rparr>, round_no = 0,
      my_node_index = find_index nid 0 (all_ids nid seed), rr_index = 0\<rparr>"

definition get_peers :: "gossip_engine \<Rightarrow> peer_info list" where
  "get_peers ge = peers ge"

section \<open>Choosing a peer\<close>

definition alive_indices :: "peer_info list \<Rightarrow> nat list" where
  "alive_indices ps = filter (\<lambda>i. is_alive (ps ! i)) [0..<length ps]"

definition select_random_peer :: "(nat \<Rightarrow> nat) \<Rightarrow> gossip_engine \<Rightarrow> nat option" where
  "select_random_peer pick ge =
     (let alive = alive_indices (peers ge)
      in if alive = []
         then (if peers ge = [] then None else Some (pick (length (peers ge))))
         else Some (alive ! pick (length alive)))"

text \<open>
  The do-while loop: the index moves to the next peer until that one is alive or the loop is back
  at its start. One turn of fuel per peer is enough.
\<close>

fun rr_loop :: "nat \<Rightarrow> peer_info list \<Rightarrow> nat \<Rightarrow> nat \<Rightarrow> nat option" where
  "rr_loop 0 ps start i = None"
| "rr_loop (Suc fuel) ps start i =
     (let i' = (i + 1) mod length ps
      in if is_alive (ps ! i') then Some i'
         else if i' \<noteq> start then rr_loop fuel ps start i' else Some i')"

definition select_round_robin_peer :: "gossip_engine \<Rightarrow> gossip_engine \<times> nat option" where
  "select_round_robin_peer ge =
     (if peers ge = [] then (ge, None)
      else case rr_loop (length (peers ge)) (peers ge) (rr_index ge) (rr_index ge) of
             None \<Rightarrow> (ge, None)
           | Some i \<Rightarrow> (ge\<lparr>rr_index := i\<rparr>, Some i))"

fun find_peer :: "string \<Rightarrow> nat \<Rightarrow> peer_info list \<Rightarrow> nat option" where
  "find_peer nid i [] = None"
| "find_peer nid i (p # ps) = (if peer_node p = nid then Some i else find_peer nid (Suc i) ps)"

definition select_wythoff_peer :: "gossip_engine \<Rightarrow> (gossip_engine \<times> sync_mode \<times> nat option) option" where
  "select_wythoff_peer ge =
     (if peers ge = [] then Some (ge, PUSH, None)
      else
        let ge1 = ge\<lparr>round_no := round_no ge + 1\<rparr>
        in case (get_pair (scheduler ge1) (round_no ge1), get_sync_mode (round_no ge1)) of
             (Some pair, Some mode) \<Rightarrow>
               if sender pair \<noteq> my_node_index ge1 then Some (ge1, mode, None)
               else
                 let ids = all_ids (ge_node ge1) (peers ge1)
                 in if unat (receiver pair) \<ge> length ids then Some (ge1, mode, None)
                    else Some (ge1, mode, find_peer (ids ! unat (receiver pair)) 0 (peers ge1))
           | _ \<Rightarrow> None)"

section \<open>Sending\<close>

definition send_message :: "message \<Rightarrow> string \<Rightarrow> u16 \<Rightarrow> datagram" where
  "send_message msg host port = (host, port, msg_serialize msg)"

definition send_to_peer :: "gossip_engine \<Rightarrow> nat \<Rightarrow> message \<Rightarrow> datagram" where
  "send_to_peer ge i msg = send_message msg (peer_host (peers ge ! i)) (peer_port (peers ge ! i))"

definition bare_message :: "message_type \<Rightarrow> gossip_engine \<Rightarrow> message" where
  "bare_message ty ge =
     \<lparr>msg_type = ty, sender_id = ge_node ge, sender_clock = get_clock (ge_book ge), operations = []\<rparr>"

text \<open>The last 20 operations of the log (all of them when there are no more).\<close>

definition recent_operations :: "operation list \<Rightarrow> operation list" where
  "recent_operations ops =
     (let max_ops = min (length ops) 20
      in if length ops > max_ops then drop (length ops - max_ops) ops else ops)"

definition request_full_sync :: "gossip_engine \<Rightarrow> peer_info \<Rightarrow> datagram" where
  "request_full_sync ge p =
     send_message (bare_message ANTI_ENTROPY_REQ ge) (peer_host p) (peer_port p)"

definition do_gossip_round :: "(nat \<Rightarrow> nat) \<Rightarrow> gossip_engine \<Rightarrow> (gossip_engine \<times> datagram list) option" where
  "do_gossip_round pick ge =
     (case (case strategy ge of
              RANDOM \<Rightarrow> Some (ge, PUSH, select_random_peer pick ge)
            | ROUND_ROBIN \<Rightarrow> (let (ge', p) = select_round_robin_peer ge in Some (ge', PUSH, p))
            | WYTHOFF \<Rightarrow> select_wythoff_peer ge) of
        None \<Rightarrow> None
      | Some (ge', mode, None) \<Rightarrow> Some (ge', [])
      | Some (ge', mode, Some i) \<Rightarrow>
          if strategy ge' = WYTHOFF \<and> mode = PULL
          then Some (ge', [send_to_peer ge' i (bare_message GOSSIP_PULL ge')])
          else Some (ge', [send_to_peer ge' i
                 ((bare_message (if strategy ge' = WYTHOFF then GOSSIP_PUSH else GOSSIP_PUSH_PULL) ge')
                    \<lparr>operations := recent_operations (get_operation_log (ge_book ge'))\<rparr>)]))"

section \<open>The gossip thread\<close>

definition elapsed_ms :: "int \<Rightarrow> int \<Rightarrow> int" where
  "elapsed_ms now t = (now - t) sdiv 1000000"

definition heartbeat :: "(nat \<Rightarrow> nat) \<Rightarrow> int \<Rightarrow> int \<Rightarrow> gossip_engine \<Rightarrow> int \<times> datagram list" where
  "heartbeat pick now last_heartbeat ge =
     (if elapsed_ms now last_heartbeat \<ge> heartbeat_interval_ms ge
      then (now, case select_random_peer pick ge of None \<Rightarrow> []
                 | Some i \<Rightarrow> [send_to_peer ge i (bare_message HEARTBEAT ge)])
      else (last_heartbeat, []))"

definition check_liveness :: "int \<Rightarrow> gossip_engine \<Rightarrow> gossip_engine" where
  "check_liveness now ge =
     ge\<lparr>peers := map (\<lambda>p. if elapsed_ms now (last_heard p) > peer_timeout_ms ge \<and> is_alive p
                            then p\<lparr>is_alive := False\<rparr> else p) (peers ge)\<rparr>"

definition sleep_ms :: "gossip_engine \<Rightarrow> int" where
  "sleep_ms ge =
     (if strategy ge = WYTHOFF
      then dtrunc (rnd (of_int (gossip_interval_ms ge) +
             get_phase_offset (my_node_index ge) (double_of_int (gossip_interval_ms ge))))
      else gossip_interval_ms ge)"

text \<open>One iteration of \<^verbatim>\<open>gossip_loop\<close>, with its two random draws; the last component
  is how long it sleeps.\<close>

definition gossip_iteration ::
  "(nat \<Rightarrow> nat) \<Rightarrow> (nat \<Rightarrow> nat) \<Rightarrow> int \<Rightarrow> int \<Rightarrow> gossip_engine \<Rightarrow> (gossip_engine \<times> int \<times> datagram list \<times> int) option" where
  "gossip_iteration pick pick' now last_heartbeat ge =
     (case do_gossip_round pick ge of None \<Rightarrow> None
      | Some (ge1, out1) \<Rightarrow>
          let (hb, out2) = heartbeat pick' now last_heartbeat ge1;
              ge2 = check_liveness now ge1
          in Some (ge2, hb, out1 @ out2, sleep_ms ge2))"

section \<open>The receiving thread\<close>

text \<open>The loop over the peers with its \<^verbatim>\<open>break\<close>: the first peer the message can come from
  is marked alive and takes over the sender's id; it is asked for a full sync if it was dead.\<close>

fun touch_peer ::
  "gossip_engine \<Rightarrow> int \<Rightarrow> string \<Rightarrow> string \<Rightarrow> peer_info list \<Rightarrow> peer_info list \<times> datagram list" where
  "touch_peer ge now sid host [] = ([], [])"
| "touch_peer ge now sid host (p # ps) =
     (if peer_node p = sid \<or> peer_host p = host
      then let p' = p\<lparr>is_alive := True, last_heard := now, peer_node := sid\<rparr>
           in (p' # ps, if \<not> is_alive p then [request_full_sync ge p'] else [])
      else let (ps', out) = touch_peer ge now sid host ps in (p # ps', out))"

definition handle_message ::
  "gossip_engine \<Rightarrow> int \<Rightarrow> message \<Rightarrow> string \<Rightarrow> u16 \<Rightarrow> gossip_engine \<times> datagram list" where
  "handle_message ge now msg host port =
     (let (ps, out) = touch_peer ge now (sender_id msg) host (peers ge);
          ge1 = ge\<lparr>peers := ps\<rparr>;
          applied = ge1\<lparr>ge_book := apply_operations (ge_book ge1) (operations msg)\<rparr>;
          reply = (\<lambda>ge ty ops. send_message ((bare_message ty ge)\<lparr>operations := ops\<rparr>) host port)
      in case msg_type msg of
           GOSSIP_PUSH \<Rightarrow> (applied, out)
         | GOSSIP_PUSH_PULL \<Rightarrow>
             (let ours = get_operations_since (ge_book applied) (sender_clock msg)
              in (applied, out @ (if ours = [] then [] else [reply applied GOSSIP_PUSH (take 20 ours)])))
         | GOSSIP_PULL \<Rightarrow>
             (let ours = get_operations_since (ge_book ge1) (sender_clock msg)
              in (ge1, out @ (if ours = [] then [] else [reply ge1 GOSSIP_PUSH ours])))
         | HEARTBEAT \<Rightarrow> (ge1, out)
         | ANTI_ENTROPY_REQ \<Rightarrow>
             (ge1, out @ [reply ge1 ANTI_ENTROPY_RES (get_operations_since (ge_book ge1) (sender_clock msg))])
         | ANTI_ENTROPY_RES \<Rightarrow> (applied, out)
         | MessageType_other b \<Rightarrow> (ge1, out))"

text \<open>One turn of \<^verbatim>\<open>receive_loop\<close>: an empty datagram (or a timeout) is skipped, an exception
  of the reader is logged and dropped.\<close>

definition receive_datagram ::
  "gossip_engine \<Rightarrow> int \<Rightarrow> u8 list \<Rightarrow> string \<Rightarrow> u16 \<Rightarrow> (gossip_engine \<times> datagram list) option" where
  "receive_datagram ge now bytes host port =
     (if bytes = [] then Some (ge, [])
      else case msg_deserialize bytes of
             Inl OutOfBounds \<Rightarrow> None
           | Inl Overrun \<Rightarrow> Some (ge, [])
           | Inr msg \<Rightarrow> Some (handle_message ge now msg host port))"

end
