(* ===== verification/Gossip_Props.thy ===== *)
theory Gossip_Props
  imports Gossip CRDT_Props Message_Props Wythoff_Props
begin

text \<open>
  The properties of the gossip engine: how it chooses peers, what handling a datagram does to the
  node, and the exchange of a full sync over the wire.
\<close>

section \<open>Round robin\<close>

lemma rr_loop_finds:
  assumes "start < length ps" and "j + fuel = length ps" and "0 < fuel"
    and "\<forall>e \<in> {1..j}. \<not> is_alive (ps ! ((start + e) mod length ps))"
  shows "\<exists>d \<in> {1..length ps}. rr_loop fuel ps start ((start + j) mod length ps) = Some ((start + d) mod length ps) \<and>
    (\<forall>e \<in> {1..<d}. \<not> is_alive (ps ! ((start + e) mod length ps))) \<and>
    (is_alive (ps ! ((start + d) mod length ps)) \<or> d = length ps)"
  using assms(2-4)
proof (induction fuel arbitrary: j)
  case (Suc fuel)
  let ?n = "length ps" and ?i = "(start + Suc j) mod length ps"
  have step: "((start + j) mod ?n + 1) mod ?n = ?i" by (simp add: mod_Suc_eq)
  have turn: "rr_loop (Suc fuel) ps start ((start + j) mod ?n) =
      (if is_alive (ps ! ?i) then Some ?i else if ?i \<noteq> start then rr_loop fuel ps start ?i else Some ?i)"
    by (simp only: rr_loop.simps Let_def step)
  have j: "Suc j \<in> {1..?n}" and before: "\<forall>e \<in> {1..<Suc j}. \<not> is_alive (ps ! ((start + e) mod ?n))"
    using Suc.prems by auto
  consider "is_alive (ps ! ?i)" | "\<not> is_alive (ps ! ?i)" "fuel = 0" | "\<not> is_alive (ps ! ?i)" "0 < fuel"
    by blast
  then show ?case
  proof cases
    case 1
    then show ?thesis
      using before unfolding turn by (intro bexI [OF _ j]) simp
  next
    case 2
    then have n: "Suc j = ?n" using Suc.prems(1) by simp
    then have "?i = start" using assms(1) by simp
    then have v: "rr_loop (Suc fuel) ps start ((start + j) mod ?n) = Some ?i"
      unfolding turn using 2 by simp
    show ?thesis by (rule bexI [OF _ j]) (rule conjI [OF v conjI [OF before disjI2 [OF n]]])
  next
    case 3
    then have "Suc j < ?n" using Suc.prems(1) by simp
    then have "?i \<noteq> start"
      using assms(1) by (cases "start + Suc j < ?n") (simp_all add: le_mod_geq)
    moreover have "\<forall>e \<in> {1..Suc j}. \<not> is_alive (ps ! ((start + e) mod ?n))"
      using Suc.prems(3) 3 by (auto simp: le_Suc_eq)
    ultimately show ?thesis
      using Suc.IH [of "Suc j"] Suc.prems(1) 3 unfolding turn by simp
  qed
qed simp

text \<open>C29: round robin takes the first alive peer after the current one in cyclic order, and
  when all are dead comes back to the current one; so with alive peers it never picks a dead one,
  and the loop ends within one round of the table.\<close>
theorem round_robin_next_alive:
  assumes "peers ge \<noteq> []" and "rr_index ge < length (peers ge)"
    and "n = length (peers ge)"
  shows "\<exists>d \<in> {1..n}. let i = (rr_index ge + d) mod n in
    select_round_robin_peer ge = (ge\<lparr>rr_index := i\<rparr>, Some i) \<and>
    (\<forall>e \<in> {1..<d}. \<not> is_alive (peers ge ! ((rr_index ge + e) mod n))) \<and>
    (is_alive (peers ge ! i) \<or> i = rr_index ge \<and> (\<forall>p \<in> set (peers ge). \<not> is_alive p))"
proof -
  let ?s = "rr_index ge"
  have "(?s + 0) mod n = ?s" using assms(2,3) by simp
  with rr_loop_finds [of ?s "peers ge" 0 n] obtain d where d: "d \<in> {1..n}" "rr_loop n (peers ge) ?s ?s = Some ((?s + d) mod n)"
    "\<forall>e \<in> {1..<d}. \<not> is_alive (peers ge ! ((?s + e) mod n))"
    "is_alive (peers ge ! ((?s + d) mod n)) \<or> d = n"
    using assms by fastforce
  have "(?s + d) mod n = ?s \<and> (\<forall>p \<in> set (peers ge). \<not> is_alive p)"
    if dead: "\<not> is_alive (peers ge ! ((?s + d) mod n))"
  proof -
    have n: "d = n" using d(4) dead by simp
    have s: "(?s + n) mod n = ?s" using assms by simp
    have "\<not> is_alive (peers ge ! k)" if k: "k < n" for k
    proof (cases "k = ?s")
      case True
      then show ?thesis using dead n s by simp
    next
      case False
      define e where "e = (if ?s < k then k - ?s else k + n - ?s)"
      have "e \<in> {1..<d}" "(?s + e) mod n = k"
        using False k assms(2,3) n by (auto simp: e_def)
      then show ?thesis using d(3) by blast
    qed
    then show ?thesis using n s assms(3) by (auto simp: in_set_conv_nth)
  qed
  with d assms show ?thesis
    by (intro bexI [of _ d]) (auto simp: select_round_robin_peer_def Let_def)
qed

definition sample_peer :: "string \<Rightarrow> string \<Rightarrow> bool \<Rightarrow> peer_info" where
  "sample_peer n h alive = \<lparr>peer_node = n, peer_host = h, peer_port = 7000, is_alive = alive, last_heard = 0\<rparr>"

definition sample_engine :: gossip_engine where
  "sample_engine = new_engine ''a'' node_a
     [sample_peer ''b'' ''h'' True, sample_peer ''c'' ''h'' False] 100 500 2000 ROUND_ROBIN"

theorem round_robin_next_alive_witness:
  "snd (select_round_robin_peer sample_engine) = Some 0"
proof -
  have h: "peers sample_engine \<noteq> []" "rr_index sample_engine < length (peers sample_engine)"
    "length (peers sample_engine) = 2" "rr_index sample_engine = 0"
    "is_alive (peers sample_engine ! 0)" "\<not> is_alive (peers sample_engine ! 1)"
    by (simp_all add: sample_engine_def new_engine_def sample_peer_def)
  obtain d where "d \<in> {1..2 :: nat}" "snd (select_round_robin_peer sample_engine) = Some (d mod 2)"
    "is_alive (peers sample_engine ! (d mod 2)) \<or> d mod 2 = 0"
    using round_robin_next_alive [OF h(1,2) refl] h(3,4) by (auto simp: Let_def)
  then show ?thesis using h(6) by (cases "d = 1") (auto simp: le_Suc_eq numeral_eq_Suc)
qed

section \<open>Handling a message\<close>

text \<open>Whether handling a message applies its operations.\<close>

definition carries_operations :: "message_type \<Rightarrow> bool" where
  "carries_operations ty \<longleftrightarrow> ty \<in> {GOSSIP_PUSH, GOSSIP_PUSH_PULL, ANTI_ENTROPY_RES}"

lemma handle_message_book:
  "ge_book (fst (handle_message ge now msg host port)) =
     (if carries_operations (msg_type msg) then apply_operations (ge_book ge) (operations msg) else ge_book ge)"
  by (cases "msg_type msg")
     (simp_all add: handle_message_def carries_operations_def Let_def case_prod_beta)

lemma handle_message_peers:
  "peers (fst (handle_message ge now msg host port)) =
     fst (touch_peer ge now (sender_id msg) host (peers ge))"
  by (cases "msg_type msg") (simp_all add: handle_message_def Let_def case_prod_beta)

lemma crdt_inv_apply_operations:
  "crdt_inv st \<Longrightarrow> list_all op_ok ops \<Longrightarrow> crdt_inv (apply_operations st ops)"
  using apply_operations_grows by blast

text \<open>A push, a push-pull and an anti-entropy answer add exactly the unseen operations
  they carry, every other message leaves the book alone; either way the node keeps its invariant,
  and an anti-entropy request is answered, last, by the operations the sender's clock does not
  dominate, sent back to where it came from.\<close>
theorem handle_message_effect:
  assumes "crdt_inv (ge_book ge)" and "list_all op_ok (operations msg)"
    and "handle_message ge now msg host port = (ge', out)"
  shows "crdt_inv (ge_book ge') \<and>
    seen_ops (ge_book ge') = seen_ops (ge_book ge) \<union>
      (if carries_operations (msg_type msg) then op_id ` set (operations msg) else {}) \<and>
    (\<not> carries_operations (msg_type msg) \<longrightarrow> ge_book ge' = ge_book ge) \<and>
    (msg_type msg = ANTI_ENTROPY_REQ \<longrightarrow> out \<noteq> [] \<and>
      last out = (host, port, msg_serialize \<lparr>msg_type = ANTI_ENTROPY_RES, sender_id = ge_node ge,
        sender_clock = clock (ge_book ge), operations = get_operations_since (ge_book ge) (sender_clock msg)\<rparr>))"
proof -
  have bk: "ge_book ge' = (if carries_operations (msg_type msg) then apply_operations (ge_book ge) (operations msg)
      else ge_book ge)"
    using handle_message_book [of ge now msg host port] assms(3) by simp
  moreover have "msg_type msg = ANTI_ENTROPY_REQ \<longrightarrow> out \<noteq> [] \<and>
      last out = (host, port, msg_serialize \<lparr>msg_type = ANTI_ENTROPY_RES, sender_id = ge_node ge,
        sender_clock = clock (ge_book ge), operations = get_operations_since (ge_book ge) (sender_clock msg)\<rparr>)"
    using assms(3)
    by (auto simp: handle_message_def Let_def case_prod_beta send_message_def bare_message_def get_clock_def)
  ultimately show ?thesis
    using crdt_inv_apply_operations [OF assms(1,2)] assms(1) seen_apply_operations by simp
qed

theorem handle_message_effect_witness:
  "seen_ops (ge_book (fst (handle_message (new_engine ''b'' (new_crdt ''b'') [] 100 500 2000 RANDOM) 5
     sample_message ''h'' 7000))) = {''p''}"
proof -
  let ?ge = "new_engine ''b'' (new_crdt ''b'') [] 100 500 2000 RANDOM"
  have h: "crdt_inv (ge_book ?ge)" "list_all op_ok (operations sample_message)"
    by (simp_all add: new_engine_def crdt_inv_new sample_message_def sample_operation_def op_ok_def
        sample_clock_ok order_ok_def sample_order_def)
  have "carries_operations (msg_type sample_message)" "op_id ` set (operations sample_message) = {''p''}"
    "seen_ops (ge_book ?ge) = {}"
    by (simp_all add: carries_operations_def sample_message_def sample_operation_def new_engine_def)
  with handle_message_effect [OF h surjective_pairing] show ?thesis by simp
qed

text \<open>Peers are recognised by host as well as by id, and the first match takes over the
  sender's id: when the first peer of the table shares its host with the sender of a message, the
  table forgets that peer's id and holds the sender's instead, so with several nodes on one host
  the sender's id appears twice and a node becomes unknown.\<close>
theorem same_host_peers_merge:
  assumes "peers ge = p # ps" and "peer_host p = host" and "peer_node p \<noteq> sender_id msg"
    and "sender_id msg \<in> set (map peer_node ps)" and "peer_node p \<notin> set (map peer_node ps)"
    and "handle_message ge now msg host port = (ge', out)"
  shows "peer_node p \<notin> set (map peer_node (peers ge')) \<and> \<not> distinct (map peer_node (peers ge'))"
proof -
  have "peers ge' = p\<lparr>is_alive := True, last_heard := now, peer_node := sender_id msg\<rparr> # ps"
    using handle_message_peers [of ge now msg host port] assms(1,2,6) by (simp add: Let_def)
  then show ?thesis using assms(3-5) by auto
qed

theorem same_host_peers_merge_witness:
  "map peer_node (peers (fst (handle_message sample_engine 5
     \<lparr>msg_type = HEARTBEAT, sender_id = ''c'', sender_clock = new_clock ''c'', operations = []\<rparr> ''h'' 7001)))
     = [''c'', ''c''] \<and> \<not> distinct [''c'', ''c'']"
proof -
  let ?m = "\<lparr>msg_type = HEARTBEAT, sender_id = ''c'', sender_clock = new_clock ''c'', operations = []\<rparr>"
  have h: "peers sample_engine = sample_peer ''b'' ''h'' True # [sample_peer ''c'' ''h'' False]"
    "peer_host (sample_peer ''b'' ''h'' True) = ''h''"
    by (simp_all add: sample_engine_def new_engine_def sample_peer_def)
  have peers: "map peer_node (peers (fst (handle_message sample_engine 5 ?m ''h'' 7001))) = [''c'', ''c'']"
    by (simp add: handle_message_peers h sample_peer_def)
  have "\<not> distinct (map peer_node (peers (fst (handle_message sample_engine 5 ?m ''h'' 7001))))"
    using same_host_peers_merge [OF h, of ?m, OF _ _ _ surjective_pairing] by (simp add: sample_peer_def)
  with peers show ?thesis by metis
qed

end
