(* ===== verification/Gossip_System.thy ===== *)
theory Gossip_System
  imports Gossip_Props
begin

text \<open>
  Properties that span the components: a full sync between two nodes through their datagrams,
  and the agreement of a cluster's schedulers on who acts in a round.
\<close>

section \<open>A full sync over the wire\<close>

text \<open>What has to hold of a node for its answers to fit the wire format.\<close>

definition node_wire_ok :: "gossip_engine \<Rightarrow> bool" where
  "node_wire_ok ge \<longleftrightarrow> short_string (ge_node ge) \<and> clock_wire_ok (clock (ge_book ge)) \<and>
     list_all operation_wire_ok (op_log (ge_book ge)) \<and> length (op_log (ge_book ge)) < 2 ^ 32"

lemma bare_message_ok:
  "node_wire_ok ge \<Longrightarrow> byte_type (type_byte ty) = ty \<Longrightarrow> message_wire_ok (bare_message ty ge)"
  by (simp add: node_wire_ok_def message_wire_ok_def bare_message_def get_clock_def)

lemma since_message_ok:
  assumes "node_wire_ok ge" and "byte_type (type_byte ty) = ty"
  shows "message_wire_ok ((bare_message ty ge)\<lparr>operations := get_operations_since (ge_book ge) vc\<rparr>)"
proof -
  have "length (get_operations_since (ge_book ge) vc) < 2 ^ 32"
    using assms(1) le_less_trans [OF length_filter_le]
    unfolding node_wire_ok_def get_operations_since_def by blast
  moreover have "list_all operation_wire_ok (get_operations_since (ge_book ge) vc)"
    using assms(1) by (auto simp: node_wire_ok_def get_operations_since_def list_all_iff)
  ultimately show ?thesis
    using assms by (simp add: node_wire_ok_def message_wire_ok_def bare_message_def get_clock_def)
qed

text \<open>Receiving the bytes of a message is handling the message as it comes off the wire.\<close>

lemma receive_serialized:
  assumes "message_wire_ok msg"
  shows "receive_datagram ge now (msg_serialize msg) host port =
    Some (handle_message ge now (received_message msg) host port)"
proof -
  have "msg_serialize msg \<noteq> []" by (simp add: msg_serialize_eq write_u8_def)
  then show ?thesis
    using msg_round_trip [OF assms, of "[]"] by (simp add: receive_datagram_def)
qed

lemma received_operation_ok: "op_ok op \<Longrightarrow> op_ok (received_operation op)"
  by (auto simp: op_ok_def received_operation_def received_order_def clock_inv_received order_ok_def)

lemma op_id_received [simp]: "op_id (received_operation op) = op_id op"
  by (simp add: received_operation_def)

text \<open>What a peer answers a full sync request with.\<close>

definition sync_answer :: "gossip_engine \<Rightarrow> gossip_engine \<Rightarrow> message" where
  "sync_answer a b = (bare_message ANTI_ENTROPY_RES a)
     \<lparr>operations := get_operations_since (ge_book a) (received_clock (clock (ge_book b)))\<rparr>"

text \<open>Both halves of a full sync: what the peer answers and what the answer does.\<close>

lemma full_sync_exchange:
  assumes "crdt_inv (ge_book a)" and "crdt_inv (ge_book b)" and "node_wire_ok a" and "node_wire_ok b"
    and "\<forall>op \<in> set (op_log (ge_book a)). clock_fun (op_clock op) \<le> clock_fun (clock (ge_book b)) \<longrightarrow>
      op_id op \<in> seen_ops (ge_book b)"
    and "request_full_sync b p = (h, q, request)"
  shows "\<exists>a' out answer b' out'.
    receive_datagram a now request host port = Some (a', out) \<and> out \<noteq> [] \<and> last out = (host, port, answer) \<and>
    answer = msg_serialize (sync_answer a b) \<and>
    receive_datagram b now' answer host' port' = Some (b', out') \<and>
    crdt_inv (ge_book b') \<and> ge_book a' = ge_book a \<and> seen_ops (ge_book a) \<subseteq> seen_ops (ge_book b')"
proof -
  let ?req = "bare_message ANTI_ENTROPY_REQ b" and ?vc = "received_clock (clock (ge_book b))"
  let ?ops = "get_operations_since (ge_book a) ?vc"
  let ?ans = "(bare_message ANTI_ENTROPY_RES a)\<lparr>operations := ?ops\<rparr>"
  note A = crdt_invD [OF assms(1)] and B = crdt_invD [OF assms(2)]
  have ty: "byte_type (type_byte ANTI_ENTROPY_REQ) = ANTI_ENTROPY_REQ"
    "byte_type (type_byte ANTI_ENTROPY_RES) = ANTI_ENTROPY_RES"
    by (simp_all add: byte_type_def type_byte_def)
  have req: "request = msg_serialize ?req"
    using assms(6) by (simp add: request_full_sync_def send_message_def)
  obtain a' out where a': "handle_message a now (received_message ?req) host port = (a', out)" by fastforce
  have ra: "receive_datagram a now request host port = Some (a', out)"
    unfolding req using receive_serialized [OF bare_message_ok [OF assms(4) ty(1)]] a' by simp
  have last: "out \<noteq> []" "last out = (host, port, msg_serialize ?ans)" "ge_book a' = ge_book a"
    using a' by (auto simp: handle_message_def Let_def case_prod_beta send_message_def bare_message_def
        received_message_def get_clock_def)
  obtain b' out' where b': "handle_message b now' (received_message ?ans) host' port' = (b', out')" by fastforce
  have rb: "receive_datagram b now' (msg_serialize ?ans) host' port' = Some (b', out')"
    using receive_serialized [OF since_message_ok [OF assms(3) ty(2)]] b' by simp
  have bk: "ge_book b' = apply_operations (ge_book b) (map received_operation ?ops)"
    using handle_message_book [of b now' "received_message ?ans" host' port'] b'
    by (simp add: received_message_def bare_message_def carries_operations_def)
  have "list_all op_ok (map received_operation ?ops)"
    using A(6) by (auto simp: list_all_iff get_operations_since_def intro: received_operation_ok)
  then have inv: "crdt_inv (ge_book b')" unfolding bk by (rule crdt_inv_apply_operations [OF assms(2)])
  have "op_id op \<in> seen_ops (ge_book b')" if op: "op \<in> set (op_log (ge_book a))" for op
  proof (cases "clock_fun (op_clock op) \<le> clock_fun (clock (ge_book b))")
    case True
    then show ?thesis using assms(5) op by (simp add: bk seen_apply_operations)
  next
    case False
    then have "\<not> clock_fun (op_clock op) \<le> clock_fun ?vc" by (simp add: clock_fun_received [OF B(2)])
    then have "op \<in> set ?ops" by (rule operations_since_covers [OF assms(1) clock_inv_received op])
    then show ?thesis by (simp add: bk seen_apply_operations image_image)
  qed
  then have "seen_ops (ge_book a) \<subseteq> seen_ops (ge_book b')" using A(5) by auto
  with ra rb last inv show ?thesis by (auto simp: sync_answer_def)
qed

text \<open>A full sync works through the bytes of its two datagrams: a node asks a peer, the
  peer's handling of the request ends with an answer to the place it came from, and handling
  that answer the node keeps its invariant and has then seen every operation the peer has,
  provided it had already seen those its clock dominates.\<close>
theorem full_sync_over_wire:
  assumes "crdt_inv (ge_book a)" and "crdt_inv (ge_book b)" and "node_wire_ok a" and "node_wire_ok b"
    and "\<forall>op \<in> set (op_log (ge_book a)). clock_fun (op_clock op) \<le> clock_fun (clock (ge_book b)) \<longrightarrow>
      op_id op \<in> seen_ops (ge_book b)"
    and "request_full_sync b p = (h, q, request)"
  shows "\<exists>a' out answer b' out'.
    receive_datagram a now request host port = Some (a', out) \<and> out \<noteq> [] \<and> last out = (host, port, answer) \<and>
    receive_datagram b now' answer host' port' = Some (b', out') \<and>
    crdt_inv (ge_book b') \<and> ge_book a' = ge_book a \<and> seen_ops (ge_book a) \<subseteq> seen_ops (ge_book b')"
  using full_sync_exchange [OF assms, of now host port now' host' port'] by blast

definition engine_a :: gossip_engine where
  "engine_a = new_engine ''a'' node_a [sample_peer ''b'' ''b'' True] 100 500 2000 RANDOM"

definition engine_b :: gossip_engine where
  "engine_b = new_engine ''b'' (new_crdt ''b'') [sample_peer ''a'' ''a'' True] 100 500 2000 RANDOM"

lemma sample_engines:
  "ge_book engine_a = node_a" "ge_book engine_b = new_crdt ''b''" "ge_node engine_a = ''a''" "ge_node engine_b = ''b''"
  by (simp_all add: engine_a_def engine_b_def new_engine_def)

lemma sample_sync:
  shows "crdt_inv (ge_book engine_a)" "crdt_inv (ge_book engine_b)" "node_wire_ok engine_a" "node_wire_ok engine_b"
    "\<forall>op \<in> set (op_log (ge_book engine_a)). clock_fun (op_clock op) \<le> clock_fun (clock (ge_book engine_b)) \<longrightarrow>
      op_id op \<in> seen_ops (ge_book engine_b)"
    "seen_ops (ge_book engine_a) = {''p''}"
proof -
  let ?op = "added_op (new_crdt ''a'') SELL 100 5 ''o'' ''p''"
  have clk: "clock node_a = clock_of ''a'' [(''a'', 1)]" "op_clock ?op = clock_of ''a'' [(''a'', 1)]"
    "new_clock ''b'' = clock_of ''b'' [(''b'', 0)]"
    by code_simp+
  have cb: "clock_wire_ok (clock_of ''b'' [(''b'', 0)])"
    by (simp add: clock_wire_ok_def clock_of_def vc_serialize_def write_string_def write_entry_def)
  have opok: "operation_wire_ok ?op"
    unfolding operation_wire_ok_def clk
    by (simp add: sample_clock_ok) (simp add: added_op_def order_wire_ok_def short_string_def fits64_def
        optype_byte_def byte_optype_def side_byte_def byte_side_def)
  show "node_wire_ok engine_a" "node_wire_ok engine_b"
    by (simp_all add: node_wire_ok_def sample_engines clk node_a_log opok short_string_def sample_clock_ok cb)
  have "clock_fun (op_clock ?op) ''a'' = 1" "clock_fun (new_clock ''b'') ''a'' = 0" by code_simp+
  then have nle: "\<not> clock_fun (op_clock ?op) \<le> clock_fun (new_clock ''b'')"
    by (auto simp: le_fun_def intro!: exI [of _ "''a''"])
  show "crdt_inv (ge_book engine_a)" "crdt_inv (ge_book engine_b)"
    by (simp_all add: sample_engines node_a_inv crdt_inv_new)
  show "\<forall>op \<in> set (op_log (ge_book engine_a)). clock_fun (op_clock op) \<le> clock_fun (clock (ge_book engine_b)) \<longrightarrow>
      op_id op \<in> seen_ops (ge_book engine_b)"
    using nle by (simp add: sample_engines node_a_log)
  show "seen_ops (ge_book engine_a) = {''p''}"
    by (simp add: sample_engines crdt_invD(5) [OF node_a_inv] node_a_log) (simp add: added_op_def)
qed

theorem full_sync_over_wire_witness:
  "\<exists>a' out answer b' out'.
    receive_datagram engine_a 5 (snd (snd (request_full_sync engine_b (sample_peer ''a'' ''a'' True)))) ''b'' 7000 =
      Some (a', out) \<and> last out = (''b'', 7000, answer) \<and>
    receive_datagram engine_b 6 answer ''a'' 7000 = Some (b', out') \<and> ''p'' \<in> seen_ops (ge_book b')"
proof -
  obtain h q rq where rq: "request_full_sync engine_b (sample_peer ''a'' ''a'' True) = (h, q, rq)"
    by (metis prod.collapse)
  obtain a' out answer b' out' where "receive_datagram engine_a 5 rq ''b'' 7000 = Some (a', out)"
    "last out = (''b'', 7000, answer)" "receive_datagram engine_b 6 answer ''a'' 7000 = Some (b', out')"
    "seen_ops (ge_book engine_a) \<subseteq> seen_ops (ge_book b')"
    using full_sync_over_wire [OF sample_sync(1-5) rq, of 5 "''b''" 7000 6 "''a''" 7000] by metis
  with rq sample_sync(6) show ?thesis by auto
qed

section \<open>One sender per round\<close>

text \<open>
  A cluster under the WYTHOFF strategy as its nodes set themselves up: each was started with the
  other nodes as seed peers, in any order, and all are about to enter the same round.
\<close>

definition scheduled_cluster :: "string list \<Rightarrow> u64 \<Rightarrow> (string \<Rightarrow> gossip_engine) \<Rightarrow> bool" where
  "scheduled_cluster ids r E \<longleftrightarrow>
     sorted ids \<and> distinct ids \<and> 2 \<le> length ids \<and> length ids < 2 ^ 32 \<and>
     (\<forall>n \<in> set ids. \<exists>bk seed gi hi pt. E n = (new_engine n bk seed gi hi pt WYTHOFF)\<lparr>round_no := r\<rparr> \<and>
        distinct (map peer_node seed) \<and> set (map peer_node seed) = set ids - {n})"

lemma all_ids_eq:
  assumes "sorted ids" and "distinct ids" and "n \<in> set ids" and "distinct (map peer_node seed)"
    and "set (map peer_node seed) = set ids - {n}"
  shows "all_ids n seed = ids" and "length ids = length seed + 1"
proof -
  have d: "distinct (n # map peer_node seed)" using assms(4,5) by simp
  then have "all_ids n seed = sort (n # map peer_node seed)"
    by (simp only: all_ids_def remdups_adj_distinct distinct_sort)
  moreover have eq: "sort (n # map peer_node seed) = ids"
    by (rule sorted_distinct_set_unique)
       (use assms d in \<open>simp_all only: sorted_sort distinct_sort set_sort list.set insert_Diff\<close>)
  ultimately show "all_ids n seed = ids" by (simp only:)
  have "length (sort (n # map peer_node seed)) = length ids" by (simp only: eq)
  then show "length ids = length seed + 1" by (simp only: length_sort list.size length_map)
qed

lemma find_index_nth:
  "distinct xs \<Longrightarrow> k < length xs \<Longrightarrow> find_index (xs ! k) i xs = of_nat (i + k)"
proof (induction xs arbitrary: k i)
  case (Cons x xs)
  then show ?case by (cases k) auto
qed simp

lemma find_peer_found:
  "t \<in> peer_node ` set ps \<Longrightarrow> \<exists>j < length ps. find_peer t i ps = Some (i + j) \<and> peer_node (ps ! j) = t"
proof (induction ps arbitrary: i)
  case (Cons p ps)
  show ?case
  proof (cases "peer_node p = t")
    case False
    then have "t \<in> peer_node ` set ps" using Cons.prems by auto
    from Cons.IH [OF this, of "Suc i"] obtain j where "j < length ps"
      "find_peer t (Suc i) ps = Some (Suc i + j)" "peer_node (ps ! j) = t" by blast
    then show ?thesis using False by (intro exI [of _ "Suc j"]) simp
  qed (intro exI [of _ 0], simp)
qed simp

text \<open>What one node of such a cluster chooses.\<close>

lemma select_scheduled:
  assumes C: "scheduled_cluster ids r E" and k: "k < length ids" and mode: "get_sync_mode (r + 1) = Some mode"
    and pair: "get_pair \<lparr>num_nodes = of_nat (length ids)\<rparr> (r + 1) = Some pair"
    and valid: "unat (receiver pair) < length ids" "sender pair \<noteq> receiver pair"
  shows "\<exists>ge tgt. select_wythoff_peer (E (ids ! k)) = Some (ge, mode, tgt) \<and>
    (if unat (sender pair) = k then \<exists>i < length (peers ge). tgt = Some i \<and> peer_node (peers ge ! i) = ids ! unat (receiver pair)
     else tgt = None)"
proof -
  let ?n = "ids ! k"
  have n: "?n \<in> set ids" using k by simp
  obtain bk seed gi hi pt where E: "E ?n = (new_engine ?n bk seed gi hi pt WYTHOFF)\<lparr>round_no := r\<rparr>"
    and seed: "distinct (map peer_node seed)" "set (map peer_node seed) = set ids - {?n}"
    using C n unfolding scheduled_cluster_def by blast
  have ids: "sorted ids" "distinct ids" "2 \<le> length ids" "length ids < 2 ^ 32"
    using C by (simp_all add: scheduled_cluster_def)
  note A = all_ids_eq [OF ids(1,2) n seed]
  have idx: "find_index ?n 0 ids = of_nat k" using find_index_nth [OF ids(2) k, of 0] by simp
  have seed_ne: "seed \<noteq> []" using A(2) ids(3) by auto
  have cmp: "sender pair = of_nat k \<longleftrightarrow> unat (sender pair) = k"
    using k ids(4) by (auto simp: unat_of_nat)
  have len: "(of_nat (length seed) + 1 :: u32) = of_nat (length ids)" using A(2) by simp
  define ge where "ge = (E ?n)\<lparr>round_no := r + 1\<rparr>"
  have fields: "peers ge = seed" "scheduler ge = \<lparr>num_nodes = of_nat (length ids)\<rparr>" "my_node_index ge = of_nat k"
    "round_no ge = r + 1" "ge_node ge = ?n"
    using A(1) idx len by (simp_all add: ge_def E new_engine_def add.commute)
  have sel: "select_wythoff_peer (E ?n) =
    (if sender pair \<noteq> of_nat k then Some (ge, mode, None)
     else Some (ge, mode, find_peer (ids ! unat (receiver pair)) 0 seed))"
    using fields mode pair valid(1) A(1) seed_ne
    by (simp add: select_wythoff_peer_def Let_def E ge_def [symmetric] new_engine_def)
       (simp add: ge_def E new_engine_def)
  show ?thesis
  proof (cases "unat (sender pair) = k")
    case True
    have "unat (receiver pair) \<noteq> k"
      using valid(2) True by (metis word_eq_iff_unsigned)
    then have "ids ! unat (receiver pair) \<in> set ids - {?n}"
      using valid(1) k ids(2) by (simp add: nth_eq_iff_index_eq)
    then have "ids ! unat (receiver pair) \<in> peer_node ` set seed" using seed(2) by simp
    from find_peer_found [OF this, of 0] show ?thesis
      using sel True cmp fields(1) by auto
  next
    case False
    then show ?thesis using sel cmp by simp
  qed
qed

text \<open>C28: in every one of the first \<open>2 ^ 24\<close> rounds exactly one node of such a cluster acts,
  all nodes agree on push or pull, and the peer the acting node turns to is another node of the
  cluster.\<close>
theorem one_sender_per_round:
  assumes "scheduled_cluster ids r E" and "r < 2 ^ 24"
  shows "\<exists>mode. \<exists>s \<in> set ids. \<exists>t \<in> set ids - {s}. \<forall>n \<in> set ids. \<exists>ge tgt.
    select_wythoff_peer (E n) = Some (ge, mode, tgt) \<and>
    (if n = s then \<exists>i < length (peers ge). tgt = Some i \<and> peer_node (peers ge ! i) = t else tgt = None)"
proof -
  have ids: "distinct ids" "2 \<le> length ids" "length ids < 2 ^ 32"
    using assms(1) by (simp_all add: scheduled_cluster_def)
  have r2: "unat r < 2 ^ 24"
    using assms(2) unat_mono [OF assms(2)] by simp
  then have "unat r + unat (1 :: u64) < 2 ^ LENGTH(64)" by simp
  then have r1: "unat (r + 1) = Suc (unat r)" by (simp add: unat_add_lem [THEN iffD1])
  note r = r1 r2
  have rr: "0 < r + 1" "r + 1 \<le> 2 ^ 24" "r + 1 < 2 ^ 63"
    using r by (simp_all add: word_less_nat_alt word_le_nat_alt)
  obtain mode where mode: "get_sync_mode (r + 1) = Some mode"
    using is_in_beatty_phi_eq [OF rr(1,2)] by (auto simp: get_sync_mode_def)
  have n: "unat (of_nat (length ids) :: u32) = length ids" using ids(3) by (simp add: unat_of_nat)
  have "2 \<le> num_nodes \<lparr>num_nodes = of_nat (length ids)\<rparr>" using ids(2) n by (simp add: word_le_nat_alt)
  from get_pair_total [OF this rr(3)] obtain pair where pair:
    "get_pair \<lparr>num_nodes = of_nat (length ids)\<rparr> (r + 1) = Some pair" "sender pair < of_nat (length ids)"
    "receiver pair < of_nat (length ids)" "sender pair \<noteq> receiver pair" by auto
  then have lt: "unat (sender pair) < length ids" "unat (receiver pair) < length ids"
    using n by (simp_all add: word_less_nat_alt)
  have ne: "unat (sender pair) \<noteq> unat (receiver pair)" using pair(4) by (metis word_eq_iff_unsigned)
  have members: "ids ! unat (sender pair) \<in> set ids"
    "ids ! unat (receiver pair) \<in> set ids - {ids ! unat (sender pair)}"
    using lt ne ids(1) by (simp_all add: nth_eq_iff_index_eq)
  have "\<exists>ge tgt. select_wythoff_peer (E x) = Some (ge, mode, tgt) \<and>
      (if x = ids ! unat (sender pair) then \<exists>i < length (peers ge). tgt = Some i \<and>
         peer_node (peers ge ! i) = ids ! unat (receiver pair) else tgt = None)" if "x \<in> set ids" for x
  proof -
    obtain k where k: "k < length ids" "x = ids ! k" using \<open>x \<in> set ids\<close> by (auto simp: in_set_conv_nth)
    moreover have "unat (sender pair) = k \<longleftrightarrow> x = ids ! unat (sender pair)"
      using k lt(1) ids(1) by (auto simp: nth_eq_iff_index_eq)
    ultimately show ?thesis
      using select_scheduled [OF assms(1) k(1) mode pair(1) lt(2) pair(4)] by simp
  qed
  then show ?thesis
    by (intro exI [of _ mode] bexI [OF _ members(1)] bexI [OF _ members(2)] ballI)
qed

definition two_engines :: "string \<Rightarrow> gossip_engine" where
  "two_engines n = (if n = ''a''
     then (new_engine ''a'' (new_crdt ''a'') [sample_peer ''b'' ''b'' True] 100 500 2000 WYTHOFF)\<lparr>round_no := 0\<rparr>
     else (new_engine ''b'' (new_crdt ''b'') [sample_peer ''a'' ''a'' True] 100 500 2000 WYTHOFF)\<lparr>round_no := 0\<rparr>)"

theorem one_sender_per_round_witness:
  "\<exists>mode s t. {s, t} = {''a'', ''b''} \<and>
     (\<exists>ge i. select_wythoff_peer (two_engines s) = Some (ge, mode, Some i) \<and> peer_node (peers ge ! i) = t) \<and>
     (\<exists>ge. select_wythoff_peer (two_engines t) = Some (ge, mode, None))"
proof -
  have "scheduled_cluster [''a'', ''b''] 0 two_engines"
    unfolding scheduled_cluster_def
  proof (intro conjI ballI)
    fix n assume "n \<in> set [''a'', ''b'']"
    then consider "n = ''a''" | "n = ''b''" by auto
    then show "\<exists>bk seed gi hi pt. two_engines n = (new_engine n bk seed gi hi pt WYTHOFF)\<lparr>round_no := 0\<rparr> \<and>
        distinct (map peer_node seed) \<and> set (map peer_node seed) = set [''a'', ''b''] - {n}"
    proof cases
      case 1
      show ?thesis
        by (intro exI [of _ "new_crdt ''a''"] exI [of _ "[sample_peer ''b'' ''b'' True]"] exI [of _ 100]
            exI [of _ 500] exI [of _ 2000]) (auto simp: 1 two_engines_def sample_peer_def)
    next
      case 2
      show ?thesis
        by (intro exI [of _ "new_crdt ''b''"] exI [of _ "[sample_peer ''a'' ''a'' True]"] exI [of _ 100]
            exI [of _ 500] exI [of _ 2000]) (auto simp: 2 two_engines_def sample_peer_def)
    qed
  qed simp_all
  then have "\<exists>mode. \<exists>s \<in> set [''a'', ''b'']. \<exists>t \<in> set [''a'', ''b''] - {s}. \<forall>n \<in> set [''a'', ''b''].
      \<exists>ge tgt. select_wythoff_peer (two_engines n) = Some (ge, mode, tgt) \<and>
      (if n = s then \<exists>i < length (peers ge). tgt = Some i \<and> peer_node (peers ge ! i) = t else tgt = None)"
    by (rule one_sender_per_round) simp
  then obtain mode s t where s: "s \<in> set [''a'', ''b'']" and t: "t \<in> set [''a'', ''b''] - {s}"
    and sel: "\<forall>n \<in> set [''a'', ''b'']. \<exists>ge tgt. select_wythoff_peer (two_engines n) = Some (ge, mode, tgt) \<and>
      (if n = s then \<exists>i < length (peers ge). tgt = Some i \<and> peer_node (peers ge ! i) = t else tgt = None)"
    by (elim exE bexE) (rule that)
  have t': "t \<in> set [''a'', ''b'']" "t \<noteq> s" using t by simp_all
  have st: "{s, t} = {''a'', ''b''}" using s t by auto
  obtain ge i where a: "select_wythoff_peer (two_engines s) = Some (ge, mode, Some i)" "peer_node (peers ge ! i) = t"
    using bspec [OF sel s] by auto
  obtain ge' where b: "select_wythoff_peer (two_engines t) = Some (ge', mode, None)"
    using bspec [OF sel t'(1)] t'(2) by auto
  show ?thesis
    by (rule exI [of _ mode], rule exI [of _ s], rule exI [of _ t], intro conjI st,
        rule exI [of _ ge], rule exI [of _ i], rule conjI [OF a], rule exI [of _ ge'], rule b)
qed

end
