(* ===== verification/Text_Format.thy ===== *)
theory Text_Format
  imports Binary64 "HOL-Library.Char_ord"
begin

text \<open>
  What the program uses of the C++ standard library's text input and output, in the "C" locale:
  \<^verbatim>\<open>operator<<\<close> of integers and of doubles under \<^verbatim>\<open>fixed << setprecision(4)\<close>,
  hexadecimal with \<^verbatim>\<open>setw\<close> and \<^verbatim>\<open>setfill('0')\<close>, and \<^verbatim>\<open>operator>>\<close>
  of an \<^verbatim>\<open>istringstream\<close> into strings, integers and doubles with its \<^verbatim>\<open>eofbit\<close>
  and \<^verbatim>\<open>failbit\<close>. A \<^verbatim>\<open>char\<close> is a \<^typ>\<open>char\<close>.
\<close>

section \<open>Characters\<close>

definition is_space :: "char \<Rightarrow> bool" where
  "is_space c \<longleftrightarrow> of_char c = (32 :: nat) \<or> 9 \<le> (of_char c :: nat) \<and> of_char c \<le> (13 :: nat)"

definition is_digit :: "char \<Rightarrow> bool" where
  "is_digit c \<longleftrightarrow> 48 \<le> (of_char c :: nat) \<and> of_char c \<le> (57 :: nat)"

definition to_upper_char :: "char \<Rightarrow> char" where
  "to_upper_char c =
     (let n = of_char c :: nat in if 97 \<le> n \<and> n \<le> 122 then char_of (n - 32) else c)"

definition digit_char :: "nat \<Rightarrow> char" where
  "digit_char d = char_of (if d < 10 then 48 + d else 87 + d)"

definition char_digit :: "char \<Rightarrow> nat" where
  "char_digit c = (if is_digit c then of_char c - 48 else of_char c - 87)"

lemma char_digit_char [simp]: "d < 16 \<Longrightarrow> char_digit (digit_char d) = d"
  by (simp add: char_digit_def is_digit_def digit_char_def)

lemma is_digit_digit_char [simp]: "d < 10 \<Longrightarrow> is_digit (digit_char d)"
  by (simp add: is_digit_def digit_char_def)

lemma digit_not_space: "is_digit c \<Longrightarrow> \<not> is_space c"
  by (auto simp: is_digit_def is_space_def)

lemma char_digit_less: "is_digit c \<Longrightarrow> char_digit c < 10"
  by (auto simp: char_digit_def is_digit_def)

section \<open>Printing numbers\<close>

fun show_base :: "nat \<Rightarrow> nat \<Rightarrow> string" where
  "show_base b n =
     (if n < b \<or> b < 2 then [digit_char n] else show_base b (n div b) @ [digit_char (n mod b)])"

declare show_base.simps [simp del]

abbreviation show_nat :: "nat \<Rightarrow> string" where
  "show_nat \<equiv> show_base 10"

definition show_int :: "int \<Rightarrow> string" where
  "show_int i = (if i < 0 then CHR ''-'' # show_nat (nat (- i)) else show_nat (nat i))"

text \<open>\<^verbatim>\<open>setw(w) << setfill('0')\<close> before a number.\<close>

definition pad0 :: "nat \<Rightarrow> string \<Rightarrow> string" where
  "pad0 w s = replicate (w - length s) (CHR ''0'') @ s"

text \<open>\<^verbatim>\<open>fixed << setprecision(4)\<close>: the exact value rounded to four places, ties to even.\<close>

definition show_fixed4 :: "double \<Rightarrow> string" where
  "show_fixed4 x =
     (let n = nat (rne (\<bar>x\<bar> * 10000))
      in (if x < 0 then ''-'' else []) @ show_nat (n div 10000) @ ''.'' @ pad0 4 (show_nat (n mod 10000)))"

definition digits_value :: "nat \<Rightarrow> string \<Rightarrow> nat" where
  "digits_value b s = foldl (\<lambda>n c. b * n + char_digit c) 0 s"

lemma digits_value_snoc [simp]: "digits_value b (s @ [c]) = b * digits_value b s + char_digit c"
  by (simp add: digits_value_def)

lemma digits_value_Nil [simp]: "digits_value b [] = 0"
  by (simp add: digits_value_def)

lemma digits_value_append:
  "digits_value b (s @ t) = digits_value b s * b ^ length t + digits_value b t"
proof (induction t rule: rev_induct)
  case (snoc c t)
  then show ?case by (simp add: algebra_simps flip: append_assoc)
qed simp

lemma digits_value_zeros [simp]: "digits_value b (replicate k (CHR ''0'')) = 0"
proof (induction k)
  case (Suc k)
  have "char_digit (CHR ''0'') = 0" by code_simp
  then show ?case using Suc by (simp add: replicate_append_same [symmetric] del: replicate_append_same)
qed simp

lemma digits_value_pad0 [simp]: "digits_value b (pad0 w s) = digits_value b s"
  by (simp add: pad0_def digits_value_append)

lemma show_base_value: "2 \<le> b \<Longrightarrow> b \<le> 16 \<Longrightarrow> digits_value b (show_base b n) = n"
proof (induction b n rule: show_base.induct)
  case (1 b n)
  have d: "digits_value b [digit_char k] = k" if "k < b" for k
    using that 1 by (simp add: digits_value_def)
  show ?case
  proof (cases "n < b")
    case True
    then show ?thesis using d by (simp add: show_base.simps [of b n])
  next
    case False
    with 1 have "digits_value b (show_base b (n div b)) = n div b" by simp
    moreover have "n mod b < 16" using 1(2,3) by (meson mod_less_divisor order_less_le_trans zero_less_numeral less_le_trans)
    ultimately show ?thesis using False 1(2) by (simp add: show_base.simps [of b n])
  qed
qed

lemma show_nat_digits: "list_all is_digit (show_nat n)"
proof (induction n rule: less_induct)
  case (less n)
  then show ?case by (subst show_base.simps) auto
qed

lemma show_base_ne [simp]: "show_base b n \<noteq> []"
  by (subst show_base.simps) simp

lemma show_base_length:
  assumes "2 \<le> b" shows "n < b ^ k \<Longrightarrow> 0 < k \<Longrightarrow> length (show_base b n) \<le> k"
proof (induction k arbitrary: n)
  case (Suc k)
  show ?case
  proof (cases "n < b")
    case False
    then have "0 < k" using Suc.prems(1) by (cases k) simp_all
    moreover have "n div b < b ^ k" using Suc.prems(1) assms by (simp add: div_less_iff_less_mult mult.commute)
    ultimately have "length (show_base b (n div b)) \<le> k" by (rule Suc.IH [rotated])
    then show ?thesis using False assms by (simp add: show_base.simps [of b n])
  qed (simp add: show_base.simps [of b n])
qed simp

lemma pad0_length: "length s \<le> w \<Longrightarrow> length (pad0 w s) = w"
  by (simp add: pad0_def)

lemma is_digit_0: "is_digit (CHR ''0'')"
  by (simp add: is_digit_def)

lemma pad0_digits: "list_all is_digit s \<Longrightarrow> list_all is_digit (pad0 w s)"
  using is_digit_0 by (auto simp: pad0_def list_all_iff)

section \<open>Reading\<close>

record istream =
  unread :: string
  eofbit :: bool
  failbit :: bool

definition istringstream :: "string \<Rightarrow> istream" where
  "istringstream s = \<lparr>unread = s, eofbit = False, failbit = False\<rparr>"

text \<open>
  The sentry of a formatted input: on a stream that is not \<^verbatim>\<open>good()\<close> it sets
  \<^verbatim>\<open>failbit\<close> and the extraction does not take place; otherwise it skips white space, and
  reaching the end then sets both bits.
\<close>

definition sentry :: "istream \<Rightarrow> istream \<times> bool" where
  "sentry st =
     (if eofbit st \<or> failbit st then (st\<lparr>failbit := True\<rparr>, False)
      else let r = dropWhile is_space (unread st)
           in if r = [] then (\<lparr>unread = [], eofbit = True, failbit = True\<rparr>, False)
              else (st\<lparr>unread := r\<rparr>, True))"

text \<open>\<^verbatim>\<open>ss >> s\<close>; \<open>old\<close> is the value the string keeps when the sentry fails.\<close>

definition read_token :: "istream \<Rightarrow> string \<Rightarrow> istream \<times> string" where
  "read_token st old =
     (let (st1, ok) = sentry st
      in if \<not> ok then (st1, old)
         else let r = dropWhile (\<lambda>c. \<not> is_space c) (unread st1)
              in (st1\<lparr>unread := r, eofbit := r = []\<rparr>, takeWhile (\<lambda>c. \<not> is_space c) (unread st1)))"

text \<open>A sign, if there is one.\<close>

definition read_sign :: "string \<Rightarrow> bool \<times> string" where
  "read_sign s =
     (case s of [] \<Rightarrow> (False, [])
      | c # cs \<Rightarrow> if c = CHR ''-'' then (True, cs) else if c = CHR ''+'' then (False, cs) else (False, s))"

text \<open>
  The field of a decimal integer: the value, clamped to the range of the type, whether the
  extraction failed (no digit, or out of range), and what is left. Without a digit the value is 0.
\<close>

definition int_field :: "int \<Rightarrow> int \<Rightarrow> string \<Rightarrow> int \<times> bool \<times> string" where
  "int_field lo hi s =
     (let (neg, r) = read_sign s;
          ds = takeWhile is_digit r;
          r' = dropWhile is_digit r;
          v = (if neg then - int (digits_value 10 ds) else int (digits_value 10 ds))
      in if ds = [] then (0, True, r')
         else if v < lo then (lo, True, r')
         else if hi < v then (hi, True, r')
         else (v, False, r'))"

definition read_int :: "int \<Rightarrow> int \<Rightarrow> istream \<Rightarrow> int \<Rightarrow> istream \<times> int" where
  "read_int lo hi st old =
     (let (st1, ok) = sentry st
      in if \<not> ok then (st1, old)
         else let (v, bad, r) = int_field lo hi (unread st1)
              in (\<lparr>unread = r, eofbit = r = [], failbit = bad\<rparr>, v))"

abbreviation read_int64 :: "istream \<Rightarrow> int \<Rightarrow> istream \<times> int" where
  "read_int64 \<equiv> read_int (- (2 ^ 63)) (2 ^ 63 - 1)"

abbreviation read_int32 :: "istream \<Rightarrow> int \<Rightarrow> istream \<times> int" where
  "read_int32 \<equiv> read_int (- (2 ^ 31)) (2 ^ 31 - 1)"

text \<open>
  The field of a double: digits with at most one point, then, once there is a digit, an exponent.
  The field is converted as a whole: no digit in the mantissa or in the exponent is a failure with
  value 0, a value beyond the largest double a failure with that double.
\<close>

definition pow10 :: "int \<Rightarrow> rat" where
  "pow10 e = (if 0 \<le> e then 10 ^ nat e else 1 / 10 ^ nat (- e))"

definition max_double :: double where
  "max_double = 2 ^ 1024 - 2 ^ 971"

definition convert_decimal :: "bool \<Rightarrow> string \<Rightarrow> string \<Rightarrow> int \<Rightarrow> double \<times> bool" where
  "convert_decimal neg ip fp e =
     (let x = rnd (of_nat (digits_value 10 (ip @ fp)) * pow10 (e - int (length fp)));
          (y, bad) = (if 2 ^ 1024 \<le> x then (max_double, True) else (x, False))
      in (if neg then - y else y, bad))"

definition double_field :: "string \<Rightarrow> double \<times> bool \<times> string" where
  "double_field s =
     (let (neg, r1) = read_sign s;
          ip = takeWhile is_digit r1;
          r2 = dropWhile is_digit r1;
          (fp, r3) = (if r2 \<noteq> [] \<and> hd r2 = CHR ''.''
                      then (takeWhile is_digit (tl r2), dropWhile is_digit (tl r2)) else ([], r2))
      in if ip @ fp = [] then (0, True, r3)
         else if r3 \<noteq> [] \<and> hd r3 \<in> {CHR ''e'', CHR ''E''}
         then let (eneg, r4) = read_sign (tl r3);
                  ed = takeWhile is_digit r4;
                  e = (if eneg then - int (digits_value 10 ed) else int (digits_value 10 ed));
                  (v, bad) = convert_decimal neg ip fp e
              in if ed = [] then (0, True, dropWhile is_digit r4) else (v, bad, dropWhile is_digit r4)
         else let (v, bad) = convert_decimal neg ip fp 0 in (v, bad, r3))"

definition read_double_text :: "istream \<Rightarrow> double \<Rightarrow> istream \<times> double" where
  "read_double_text st old =
     (let (st1, ok) = sentry st
      in if \<not> ok then (st1, old)
         else let (v, bad, r) = double_field (unread st1)
              in (\<lparr>unread = r, eofbit = r = [], failbit = bad\<rparr>, v))"

end
