(* ===== verification/ClientHandler.thy ===== *)
theory ClientHandler
  imports Text_Format CRDT
begin

text \<open>
  The text protocol of the clients (\<^verbatim>\<open>api/client_handler.cpp\<close>): a request is a line of
  words, the answer a string. \<^verbatim>\<open>price\<close> and \<^verbatim>\<open>qty\<close> are declared without a
  value, so what they hold when an extraction does not take place is an argument (\<open>price0\<close>,
  \<open>qty0\<close>), as are the generated ids (\<open>uuid n\<close> is the \<open>n\<close>th one) and the unassigned
  fields of a cancel's order (\<open>junk\<close>).
\<close>

definition to_upper :: "string \<Rightarrow> string" where
  "to_upper s = map to_upper_char s"

definition parse_side :: "string \<Rightarrow> side option" where
  "parse_side s = (if s = ''BUY'' then Some BUY else if s = ''SELL'' then Some SELL else None)"

definition newline :: string where
  "newline = [char_of (10 :: nat)]"

definition quote :: string where
  "quote = [char_of (34 :: nat)]"

definition handle_add ::
  "double \<Rightarrow> int \<Rightarrow> (nat \<Rightarrow> string) \<Rightarrow> istream \<Rightarrow> crdt_book \<Rightarrow> crdt_book \<times> string" where
  "handle_add price0 qty0 uuid ss st =
     (let (ss1, side_str) = read_token ss [];
          (ss2, pr) = read_double_text ss1 price0;
          (ss3, qty) = read_int64 ss2 qty0
      in case parse_side (to_upper side_str) of
           None \<Rightarrow> (st, ''ERROR invalid_side'')
         | Some sd \<Rightarrow>
             if pr \<le> 0 \<or> qty \<le> 0 then (st, ''ERROR invalid_params'')
             else let (st', oid) = local_add_order st sd pr qty (uuid 0) (uuid 1)
                  in (st', ''OK '' @ oid))"

definition handle_cancel ::
  "order \<Rightarrow> (nat \<Rightarrow> string) \<Rightarrow> istream \<Rightarrow> crdt_book \<Rightarrow> crdt_book \<times> string" where
  "handle_cancel junk uuid ss st =
     (let (ss1, oid) = read_token ss []
      in if oid = [] then (st, ''ERROR missing_order_id'')
         else let (st', ok) = local_cancel_order junk st oid (uuid 0)
              in (st', if ok then ''OK'' else ''ERROR order_not_found''))"

definition show_fill :: "fill \<Rightarrow> string" where
  "show_fill f = newline @ show_fixed4 (fill_price f) @ '' '' @ show_int (fill_quantity f)"

definition handle_market ::
  "int \<Rightarrow> order \<Rightarrow> (nat \<Rightarrow> string) \<Rightarrow> istream \<Rightarrow> crdt_book \<Rightarrow> crdt_book \<times> string" where
  "handle_market qty0 junk uuid ss st =
     (let (ss1, side_str) = read_token ss [];
          (ss2, qty) = read_int64 ss1 qty0
      in case parse_side (to_upper side_str) of
           None \<Rightarrow> (st, ''ERROR invalid_side'')
         | Some sd \<Rightarrow>
             if qty \<le> 0 then (st, ''ERROR invalid_quantity'')
             else let (st', fills) = local_market_order junk uuid st sd qty
                  in (st', ''FILLED '' @ show_nat (length fills) @ concat (map show_fill fills)))"

definition show_level :: "price_level \<Rightarrow> string" where
  "show_level l = newline @ show_fixed4 (level_price l) @ '' '' @ show_int (total_quantity l)"

definition handle_book :: "istream \<Rightarrow> crdt_book \<Rightarrow> string" where
  "handle_book ss st =
     (let (ss1, d) = read_int32 ss 10;
          depth = (if d \<le> 0 then 10 else d);
          snap = crdt_snapshot st depth
      in ''BIDS'' @ concat (map show_level (snap_bids snap)) @
         newline @ ''ASKS'' @ concat (map show_level (snap_asks snap)))"

definition show_entry :: "string \<times> u64 \<Rightarrow> string" where
  "show_entry e = '' '' @ fst e @ ''='' @ show_nat (unat (snd e))"

definition handle_status :: "crdt_book \<Rightarrow> string" where
  "handle_status st =
     (let clk = get_clock st
      in ''NODE '' @ crdt_node st @
         newline @ ''ORDERS '' @ show_nat (get_order_count st) @
         newline @ ''OP_LOG '' @ show_nat (get_op_log_size st) @
         newline @ ''CLOCK'' @ concat (map show_entry (vc_clock clk)))"

definition handle_metrics :: "crdt_book \<Rightarrow> string" where
  "handle_metrics st =
     (let node = quote @ crdt_node st @ quote;
          snap = crdt_snapshot st 1000
      in ''# HELP convergence_orders_total Total active orders'' @ newline @
         ''# TYPE convergence_orders_total gauge'' @ newline @
         ''convergence_orders_total{node='' @ node @ ''} '' @ show_nat (get_order_count st) @ newline @
         ''# HELP convergence_op_log_size Operation log size'' @ newline @
         ''# TYPE convergence_op_log_size gauge'' @ newline @
         ''convergence_op_log_size{node='' @ node @ ''} '' @ show_nat (get_op_log_size st) @ newline @
         ''# HELP convergence_book_depth Number of price levels'' @ newline @
         ''# TYPE convergence_book_depth gauge'' @ newline @
         ''convergence_book_depth{node='' @ node @ '',side='' @ quote @ ''bid'' @ quote @ ''} '' @
           show_nat (length (snap_bids snap)) @ newline @
         ''convergence_book_depth{node='' @ node @ '',side='' @ quote @ ''ask'' @ quote @ ''} '' @
           show_nat (length (snap_asks snap)) @ newline)"

definition handle_request ::
  "double \<Rightarrow> int \<Rightarrow> order \<Rightarrow> (nat \<Rightarrow> string) \<Rightarrow> string \<Rightarrow> crdt_book \<Rightarrow> crdt_book \<times> string" where
  "handle_request price0 qty0 junk uuid request st =
     (let (ss, w) = read_token (istringstream request) [];
          cmd = to_upper w
      in if cmd = ''ADD'' then handle_add price0 qty0 uuid ss st
         else if cmd = ''CANCEL'' then handle_cancel junk uuid ss st
         else if cmd = ''MARKET'' then handle_market qty0 junk uuid ss st
         else if cmd = ''BOOK'' then (st, handle_book ss st)
         else if cmd = ''STATUS'' then (st, handle_status st)
         else if cmd = ''PEERS'' then (st, ''ERROR peers_not_available_here'')
         else if cmd = ''METRICS'' then (st, handle_metrics st)
         else (st, ''ERROR unknown_command''))"

end
