(* ===== verification/Text_Fields.thy ===== *)
theory Text_Fields
  imports Text_Format
begin

text \<open>
  What reading gives back of what was printed. The contract of a formatted input is a locale: what
  it does on a bad stream, at the end, at white space and on the text of a value; strings, 64-bit
  and 32-bit integers and prices are its instances.
\<close>

section \<open>Streams and words\<close>

definition stream_at :: "string \<Rightarrow> istream" where
  "stream_at s = \<lparr>unread = s, eofbit = False, failbit = False\<rparr>"

definition stream_after :: "string \<Rightarrow> istream" where
  "stream_after s = \<lparr>unread = s, eofbit = s = [], failbit = False\<rparr>"

abbreviation spaces :: "string \<Rightarrow> bool" where
  "spaces \<equiv> list_all is_space"

definition word :: "string \<Rightarrow> bool" where
  "word s \<longleftrightarrow> s \<noteq> [] \<and> list_all (\<lambda>c. \<not> is_space c) s"

definition ends :: "string \<Rightarrow> bool" where
  "ends r \<longleftrightarrow> r = [] \<or> is_space (hd r)"

lemma ends_Nil [simp]: "ends []" and ends_Cons [simp]: "ends (c # r) = is_space c"
  by (simp_all add: ends_def)

lemma ends_spaces [simp]: "spaces w \<Longrightarrow> w \<noteq> [] \<Longrightarrow> ends (w @ r)"
  by (cases w) simp_all

lemma ends_only_spaces [simp]: "spaces w \<Longrightarrow> ends w"
  by (cases w) simp_all

lemma istringstream_at: "istringstream s = stream_at s"
  by (simp add: istringstream_def stream_at_def)

lemma after_at: "s \<noteq> [] \<Longrightarrow> stream_after s = stream_at s"
  by (simp add: stream_after_def stream_at_def)

lemma takeWhile_prefix: "list_all P a \<Longrightarrow> b = [] \<or> \<not> P (hd b) \<Longrightarrow> takeWhile P (a @ b) = a"
  by (induction a) (auto simp: takeWhile_eq_Nil_iff)

lemma dropWhile_prefix: "list_all P a \<Longrightarrow> b = [] \<or> \<not> P (hd b) \<Longrightarrow> dropWhile P (a @ b) = b"
  by (induction a) (auto simp: dropWhile_eq_self_iff)

lemma ends_not_digit: "ends r \<Longrightarrow> r = [] \<or> \<not> is_digit (hd r)"
  using digit_not_space by (auto simp: ends_def)

section \<open>The sentry\<close>

lemma sentry_bad [simp]: "eofbit st \<or> failbit st \<Longrightarrow> sentry st = (st\<lparr>failbit := True\<rparr>, False)"
  by (simp add: sentry_def)

lemma sentry_space [simp]: "is_space c \<Longrightarrow> sentry (stream_at (c # s)) = sentry (stream_at s)"
  by (simp add: sentry_def stream_at_def)

lemma sentry_end [simp]: "sentry (stream_at []) = (\<lparr>unread = [], eofbit = True, failbit = True\<rparr>, False)"
  by (simp add: sentry_def stream_at_def)

lemma sentry_word [simp]: "s \<noteq> [] \<Longrightarrow> \<not> is_space (hd s) \<Longrightarrow> sentry (stream_at s) = (stream_at s, True)"
  by (cases s) (simp_all add: sentry_def stream_at_def)

section \<open>The contract of a formatted input\<close>

locale text_field =
  fixes rd :: "istream \<Rightarrow> 'a \<Rightarrow> istream \<times> 'a" and sh :: "'a \<Rightarrow> string" and ok :: "'a \<Rightarrow> bool"
  assumes sh_word: "ok x \<Longrightarrow> word (sh x)"
    and rd_sh: "ok x \<Longrightarrow> ends r \<Longrightarrow> rd (stream_at (sh x @ r)) old = (stream_after r, x)"
    and rd_space: "is_space c \<Longrightarrow> rd (stream_at (c # s)) old = rd (stream_at s) old"
    and rd_bad: "eofbit st \<or> failbit st \<Longrightarrow> rd st old = (st\<lparr>failbit := True\<rparr>, old)"
    and rd_end: "rd (stream_at []) old = (\<lparr>unread = [], eofbit = True, failbit = True\<rparr>, old)"
begin

lemma rd_spaces: "spaces w \<Longrightarrow> rd (stream_at (w @ s)) old = rd (stream_at s) old"
  by (induction w) (simp_all add: rd_space)

lemma rd_next: "spaces w \<Longrightarrow> ok x \<Longrightarrow> ends r \<Longrightarrow> rd (stream_at (w @ sh x @ r)) old = (stream_after r, x)"
  by (simp add: rd_spaces rd_sh)

lemma rd_after: "spaces w \<Longrightarrow> w \<noteq> [] \<Longrightarrow> ok x \<Longrightarrow> ends r \<Longrightarrow> rd (stream_after (w @ sh x @ r)) old = (stream_after r, x)"
  by (simp add: after_at rd_next)

lemma rd_missing: "spaces w \<Longrightarrow> rd (stream_after w) old = (\<lparr>unread = [], eofbit = True, failbit = True\<rparr>, old)"
  using rd_spaces [of w "[]" old] rd_bad [of "stream_after []" old]
  by (cases w) (simp_all add: after_at rd_end, simp add: stream_after_def)

lemma sh_inject: "ok x \<Longrightarrow> ok y \<Longrightarrow> sh x = sh y \<Longrightarrow> x = y"
  using rd_sh [of x "[]"] rd_sh [of y "[]"] by (metis ends_Nil prod.inject)

end

section \<open>Strings\<close>

interpretation token: text_field read_token "\<lambda>s. s" word
proof
  fix x r old
  assume w: "word x" and r: "ends r"
  then have "x @ r \<noteq> []" "\<not> is_space (hd (x @ r))" by (cases x; simp add: word_def)+
  moreover have "r = [] \<or> \<not> (\<not> is_space (hd r))" "list_all (\<lambda>c. \<not> is_space c) x"
    using w r by (auto simp: ends_def word_def)
  ultimately show "read_token (stream_at (x @ r)) old = (stream_after r, x)"
    using takeWhile_prefix [of "\<lambda>c. \<not> is_space c" x r] dropWhile_prefix [of "\<lambda>c. \<not> is_space c" x r]
    by (simp add: read_token_def del: dropWhile_eq_Nil_conv)
       (simp add: stream_at_def stream_after_def del: dropWhile_eq_Nil_conv)
qed (simp_all add: read_token_def)

section \<open>Integers\<close>

lemma show_nat_hd_digit: "is_digit (hd (show_nat n))" and show_nat_word: "word (show_nat n)"
  using show_nat_digits [of n] digit_not_space
  by (cases "show_nat n"; auto simp: word_def list_all_iff)+

lemma show_int_word: "word (show_int i)"
  using show_nat_word by (auto simp: show_int_def word_def is_space_def)

lemma digit_chars: "\<not> is_digit (CHR ''-'')" "\<not> is_digit (CHR ''+'')" "\<not> is_digit (CHR ''.'')"
  "\<not> is_digit (CHR ''e'')" "\<not> is_digit (CHR ''E'')"
  by (simp_all add: is_digit_def)

lemma read_sign_digits: "s \<noteq> [] \<Longrightarrow> is_digit (hd s) \<Longrightarrow> read_sign (s @ r) = (False, s @ r)"
  using digit_chars by (cases s) (auto simp: read_sign_def)

lemma digits_field:
  assumes "list_all is_digit s" and "ends r"
  shows "takeWhile is_digit (s @ r) = s" and "dropWhile is_digit (s @ r) = r"
  using takeWhile_prefix [OF assms(1)] dropWhile_prefix [OF assms(1)] ends_not_digit [OF assms(2)] by simp_all

lemma int_field_show:
  assumes "lo \<le> i" and "i \<le> hi" and "ends r"
  shows "int_field lo hi (show_int i @ r) = (i, False, r)"
proof (cases "i < 0")
  case True
  then show ?thesis
    using assms digits_field [OF show_nat_digits assms(3)]
    by (simp add: int_field_def show_int_def read_sign_def show_base_value)
next
  case False
  then show ?thesis
    using assms digits_field [OF show_nat_digits assms(3)]
      read_sign_digits [OF show_base_ne show_nat_hd_digit]
    by (simp add: int_field_def show_int_def show_base_value)
qed

lemma read_int_field: "text_field (read_int lo hi) show_int (\<lambda>i. lo \<le> i \<and> i \<le> hi)"
proof
  fix i r old
  assume i: "lo \<le> i \<and> i \<le> hi" and r: "ends r"
  have "show_int i @ r \<noteq> []" "\<not> is_space (hd (show_int i @ r))"
    using show_int_word [of i] by (cases "show_int i"; simp add: word_def)+
  then show "read_int lo hi (stream_at (show_int i @ r)) old = (stream_after r, i)"
    using int_field_show [of lo i hi r] i r
    by (simp add: read_int_def) (simp add: stream_at_def stream_after_def)
qed (simp_all add: show_int_word read_int_def)

interpretation int64: text_field read_int64 show_int "\<lambda>i. - (2 ^ 63) \<le> i \<and> i \<le> 2 ^ 63 - 1"
  by (rule read_int_field)

interpretation int32: text_field read_int32 show_int "\<lambda>i. - (2 ^ 31) \<le> i \<and> i \<le> 2 ^ 31 - 1"
  by (rule read_int_field)

section \<open>Prices\<close>

text \<open>The prices that are doubles next to a number of ten-thousandths.\<close>

definition price_of :: "nat \<Rightarrow> double" where
  "price_of n = rnd (of_nat n / 10000)"

definition price_tick :: "double \<Rightarrow> bool" where
  "price_tick p \<longleftrightarrow> (\<exists>n. 0 < n \<and> n < 10000 * 2 ^ 30 \<and> p = price_of n)"

lemma rne_close: "\<bar>y - of_int n\<bar> < 1 / 2 \<Longrightarrow> rne y = n"
proof -
  assume a: "\<bar>y - of_int n\<bar> < 1 / 2"
  have "of_int (rne y) < (of_int (n + 1) :: rat)" "of_int (n - 1) < (of_int (rne y) :: rat)"
    using a rne_error [of y] unfolding abs_le_iff abs_less_iff by simp_all
  then have "rne y < n + 1" "n - 1 < rne y" by (simp_all only: of_int_less_iff)
  then show "rne y = n" by simp
qed

lemma price_of_close:
  assumes "n < 10000 * 2 ^ 30"
  shows "0 \<le> price_of n" and "\<bar>price_of n - of_nat n / 10000\<bar> \<le> 1 / 2 ^ 24"
proof -
  show "0 \<le> price_of n" by (simp add: price_of_def rnd_nonneg)
  have "(of_nat n :: rat) < of_nat (10000 * 2 ^ 30)" using assms by (simp only: of_nat_less_iff)
  then have "(of_nat n :: rat) / 10000 < pow2 (int 30)" by (simp add: pow2_def)
  then have "\<bar>price_of n - of_nat n / 10000\<bar> \<le> pow2 (int 30 - 54)"
    unfolding price_of_def by (intro rnd_error_bound) simp_all
  also have "pow2 (int 30 - 54) = 1 / 2 ^ 24" by (simp add: pow2_def)
  finally show "\<bar>price_of n - of_nat n / 10000\<bar> \<le> 1 / 2 ^ 24" .
qed

definition decimal4 :: "nat \<Rightarrow> string" where
  "decimal4 n = show_nat (n div 10000) @ ''.'' @ pad0 4 (show_nat (n mod 10000))"

lemma show_price:
  assumes "n < 10000 * 2 ^ 30" shows "show_fixed4 (price_of n) = decimal4 n"
proof -
  note c = price_of_close [OF assms]
  have "\<bar>price_of n * 10000 - of_int (int n)\<bar> = 10000 * \<bar>price_of n - of_nat n / 10000\<bar>"
    by (simp add: abs_if field_simps)
  also have "\<dots> \<le> 10000 * (1 / 2 ^ 24)" using c(2) by simp
  also have "\<dots> < 1 / 2" by simp
  finally have "rne (price_of n * 10000) = int n" by (rule rne_close)
  then show ?thesis using c(1) by (simp add: show_fixed4_def decimal4_def)
qed

lemma decimal4_parts:
  "list_all is_digit (show_nat (n div 10000))" "list_all is_digit (pad0 4 (show_nat (n mod 10000)))"
  "length (pad0 4 (show_nat (n mod 10000))) = 4"
  "digits_value 10 (show_nat (n div 10000) @ pad0 4 (show_nat (n mod 10000))) = n"
proof -
  have "length (show_nat (n mod 10000)) \<le> 4" by (rule show_base_length) simp_all
  then show len: "length (pad0 4 (show_nat (n mod 10000))) = 4" by (rule pad0_length)
  then show "digits_value 10 (show_nat (n div 10000) @ pad0 4 (show_nat (n mod 10000))) = n"
    by (simp add: digits_value_append show_base_value)
qed (simp_all add: show_nat_digits pad0_digits)

text \<open>Decimal numbers in general: digits, perhaps a point, perhaps more digits.\<close>

definition decimal_text :: "string \<Rightarrow> string option \<Rightarrow> string" where
  "decimal_text ip fp = ip @ (case fp of None \<Rightarrow> [] | Some ds \<Rightarrow> CHR ''.'' # ds)"

definition places :: "string option \<Rightarrow> string" where
  "places fp = (case fp of None \<Rightarrow> [] | Some ds \<Rightarrow> ds)"

definition decimal_ok :: "string \<Rightarrow> string option \<Rightarrow> bool" where
  "decimal_ok ip fp \<longleftrightarrow> list_all is_digit ip \<and> list_all is_digit (places fp) \<and> ip @ places fp \<noteq> []"

definition decimal_value :: "string \<Rightarrow> string option \<Rightarrow> rat" where
  "decimal_value ip fp = of_nat (digits_value 10 (ip @ places fp)) / 10 ^ length (places fp)"

lemma double_field_decimal:
  assumes "decimal_ok ip fp" and "rnd (decimal_value ip fp) < 2 ^ 1024" and "ends r"
  shows "double_field (decimal_text ip fp @ r) = (rnd (decimal_value ip fp), False, r)"
proof -
  let ?fp = "places fp"
  let ?t = "case fp of None \<Rightarrow> r | Some ds \<Rightarrow> CHR ''.'' # ds @ r"
  have d: "list_all is_digit ip" "list_all is_digit ?fp" "ip @ ?fp \<noteq> []" using assms(1) by (simp_all add: decimal_ok_def)
  have t: "decimal_text ip fp @ r = ip @ ?t" by (simp add: decimal_text_def split: option.split)
  have hd: "?t = [] \<or> \<not> is_digit (hd ?t)"
    using ends_not_digit [OF assms(3)] digit_chars(3) by (simp split: option.split)
  have sgn: "read_sign (ip @ ?t) = (False, ip @ ?t)"
  proof (cases ip)
    case Nil
    then obtain ds where "fp = Some ds" using d(3) by (cases fp) (simp_all add: places_def)
    then show ?thesis using Nil by (simp add: read_sign_def)
  next
    case (Cons c cs)
    then show ?thesis using d(1) read_sign_digits [of ip ?t] by simp
  qed
  have ip: "takeWhile is_digit (ip @ ?t) = ip" "dropWhile is_digit (ip @ ?t) = ?t"
    by (rule takeWhile_prefix [OF d(1) hd], rule dropWhile_prefix [OF d(1) hd])
  have r: "(r \<noteq> [] \<and> (hd r = CHR ''e'' \<or> hd r = CHR ''E'')) = False" "(r \<noteq> [] \<and> hd r = CHR ''.'') = False"
    using assms(3) by (auto simp: ends_def is_space_def)
  have fp: "(if ?t \<noteq> [] \<and> hd ?t = CHR ''.'' then (takeWhile is_digit (tl ?t), dropWhile is_digit (tl ?t)) else ([], ?t)) = (?fp, r)"
    using digits_field [OF d(2) assms(3)] r(2) by (cases fp) (auto simp: places_def)
  have "of_nat (digits_value 10 (ip @ ?fp)) * pow10 (0 - int (length ?fp)) = decimal_value ip fp"
    by (simp add: pow10_def decimal_value_def)
  then have conv: "convert_decimal False ip ?fp 0 = (rnd (decimal_value ip fp), False)"
    using assms(2) by (simp add: convert_decimal_def)
  show ?thesis
    unfolding t double_field_def Let_def sgn prod.case ip fp using d(3) conv by (simp add: r del: de_Morgan_conj de_Morgan_disj)
qed

lemma decimal_text_word: "decimal_ok ip fp \<Longrightarrow> word (decimal_text ip fp)"
  using digit_not_space by (cases fp) (auto simp: decimal_ok_def decimal_text_def places_def word_def list_all_iff is_space_def)

lemma read_decimal_at:
  assumes "decimal_ok ip fp" and "rnd (decimal_value ip fp) < 2 ^ 1024" and "ends r"
  shows "read_double_text (stream_at (decimal_text ip fp @ r)) old = (stream_after r, rnd (decimal_value ip fp))"
proof -
  have "decimal_text ip fp @ r \<noteq> []" "\<not> is_space (hd (decimal_text ip fp @ r))"
    using decimal_text_word [OF assms(1)] by (cases "decimal_text ip fp"; simp add: word_def)+
  then show ?thesis
    using double_field_decimal [OF assms] by (simp add: read_double_text_def) (simp add: stream_at_def stream_after_def)
qed

lemma decimal4_decimal:
  "decimal4 n = decimal_text (show_nat (n div 10000)) (Some (pad0 4 (show_nat (n mod 10000))))"
  "decimal_ok (show_nat (n div 10000)) (Some (pad0 4 (show_nat (n mod 10000))))"
  "decimal_value (show_nat (n div 10000)) (Some (pad0 4 (show_nat (n mod 10000)))) = of_nat n / 10000"
  using decimal4_parts [of n] by (simp_all add: decimal4_def decimal_text_def decimal_ok_def decimal_value_def places_def)

lemma price_of_finite:
  assumes "n < 10000 * 2 ^ 30" shows "price_of n < 2 ^ 1024"
proof -
  have "(of_nat n :: rat) < of_nat (10000 * 2 ^ 30)" using assms by (simp only: of_nat_less_iff)
  then have "price_of n < 2 ^ 31" using price_of_close(2) [OF assms] unfolding abs_le_iff by simp
  also have "(2 :: rat) ^ 31 < 2 ^ 1024" by (rule power_strict_increasing) simp_all
  finally show ?thesis .
qed

interpretation price_text: text_field read_double_text show_fixed4 price_tick
proof
  fix p assume "price_tick p"
  then obtain n where n: "n < 10000 * 2 ^ 30" "p = price_of n" by (auto simp: price_tick_def)
  note D = decimal4_decimal [of n]
  have sh: "show_fixed4 p = decimal4 n" using n by (simp add: show_price)
  show "word (show_fixed4 p)" unfolding sh D(1) by (rule decimal_text_word [OF D(2)])
  fix r old assume "ends r"
  then show "read_double_text (stream_at (show_fixed4 p @ r)) old = (stream_after r, p)"
    using read_decimal_at [OF D(2)] price_of_finite [OF n(1)] unfolding sh D(1,3) by (simp add: n(2) price_of_def)
qed (simp_all add: read_double_text_def)

lemma read_decimal:
  assumes "spaces w" and "w \<noteq> []" and "decimal_ok ip fp" and "rnd (decimal_value ip fp) < 2 ^ 1024" and "ends r"
  shows "read_double_text (stream_after (w @ decimal_text ip fp @ r)) old = (stream_after r, rnd (decimal_value ip fp))"
  using assms(1,2) read_decimal_at [OF assms(3-5)] by (simp add: after_at price_text.rd_spaces)

text \<open>Digits as a 64-bit integer, with or without zeros in front.\<close>

lemma read_digits:
  assumes "spaces w" and "w \<noteq> []" and "list_all is_digit ds" and "ds \<noteq> []" and "digits_value 10 ds < 2 ^ 63" and "ends r"
  shows "read_int64 (stream_after (w @ ds @ r)) old = (stream_after r, int (digits_value 10 ds))"
proof -
  have h: "is_digit (hd ds)" using assms(3,4) by (cases ds) simp_all
  have sgn: "read_sign (ds @ r) = (False, ds @ r)" by (rule read_sign_digits [OF assms(4) h])
  have "ds @ r \<noteq> []" "\<not> is_space (hd (ds @ r))" using assms(4) h digit_not_space by (cases ds; simp)+
  moreover have "int (digits_value 10 ds) < 2 ^ 63" using assms(5) by (simp only: of_nat_less_numeral_power_cancel_iff)
  then have "int_field (- (2 ^ 63)) (2 ^ 63 - 1) (ds @ r) = (int (digits_value 10 ds), False, r)"
    using digits_field [OF assms(3,6)] assms(4) by (simp add: int_field_def sgn)
  ultimately have "read_int64 (stream_at (ds @ r)) old = (stream_after r, int (digits_value 10 ds))"
    by (simp add: read_int_def) (simp add: stream_at_def stream_after_def)
  with int64.rd_spaces [OF assms(1)] show ?thesis using assms(2) by (simp only: after_at append_is_Nil_conv simp_thms)
qed

end
