(* ===== verification/Client_Props.thy ===== *)
theory Client_Props
  imports ClientHandler Text_Fields CRDT_Props
begin

text \<open>
  What the text protocol promises: a well-formed request does what it says, an ill-formed one is
  answered by an error and leaves the books alone, the answers can be read back, and every request
  is one step of the cluster.
\<close>

section \<open>Words of a request\<close>

lemma is_space_to_upper [simp]: "is_space (to_upper_char c) = is_space c"
proof -
  have "(of_char c - 32) mod 256 = (of_char c - 32 :: nat)" if "of_char c \<le> (122 :: nat)"
    by (rule mod_less) (use that in linarith)
  then show ?thesis by (auto simp: to_upper_char_def is_space_def Let_def)
qed

lemma word_to_upper [simp]: "word (to_upper s) = word s"
  by (simp add: word_def to_upper_def list_all_iff)

lemma word_keyword:
  "to_upper s = ''ADD'' \<Longrightarrow> word s" "to_upper s = ''CANCEL'' \<Longrightarrow> word s" "to_upper s = ''MARKET'' \<Longrightarrow> word s"
  "to_upper s = ''BOOK'' \<Longrightarrow> word s" "to_upper s = ''PEERS'' \<Longrightarrow> word s"
  by (subst word_to_upper [symmetric], simp add: word_def is_space_def)+

lemma parse_side_word: "parse_side (to_upper s) = Some sd \<Longrightarrow> word s"
  by (subst word_to_upper [symmetric])
     (auto simp: parse_side_def word_def is_space_def split: if_splits)

lemma price_tick_pos: "price_tick p \<Longrightarrow> 0 < p"
proof -
  assume "price_tick p"
  then obtain n where n: "0 < n" "n < 10000 * 2 ^ 30" "p = price_of n" by (auto simp: price_tick_def)
  have "(1 :: rat) \<le> of_nat n" using n(1) by simp
  then show "0 < p" using price_of_close(2) [OF n(2)] unfolding n(3) abs_le_iff by simp
qed

text \<open>The first word of a request.\<close>

lemma read_command:
  "spaces w \<Longrightarrow> word kw \<Longrightarrow> ends r \<Longrightarrow> read_token (istringstream (w @ kw @ r)) [] = (stream_after r, kw)"
  unfolding istringstream_at by (rule token.rd_next)

section \<open>Adding an order\<close>

lemma handle_add_eq:
  assumes "read_token ss [] = (ss1, sd)" and "read_double_text ss1 price0 = (ss2, p)"
    and "read_int64 ss2 qty0 = (ss3, q)" and "parse_side (to_upper sd) = Some sd'"
  shows "handle_add price0 qty0 uuid ss st =
    (if p \<le> 0 \<or> q \<le> 0 then (st, ''ERROR invalid_params'')
     else (fst (local_add_order st sd' p q (uuid 0) (uuid 1)), ''OK '' @ uuid 0))"
  unfolding handle_add_def assms prod.case Let_def assms(4) option.case
  by (simp add: local_add_order_def Let_def case_prod_beta)

text \<open>C36: an \<open>ADD\<close> request in any case and spacing, with a price written in decimal, with or
  without a point and places, and a quantity written in digits below \<open>2 ^ 63\<close>, is exactly a local add of that
  side, quantity and the double next to the price, answered with the new order's id, when the quantity is not 0 and
  the price is neither rounded to 0 nor beyond the largest double; whatever stands behind the quantity is ignored, and
  nothing depends on what the uninitialised variables held.\<close>
theorem add_request:
  assumes "to_upper kw = ''ADD''" and "parse_side (to_upper sd) = Some sd'"
    and "decimal_ok ip fp" and "p = rnd (decimal_value ip fp)" and "0 < p" and "p < 2 ^ 1024"
    and "list_all is_digit ds" and "ds \<noteq> []" and "0 < digits_value 10 ds" and "digits_value 10 ds < 2 ^ 63"
    and "spaces w0" and "spaces w1" and "spaces w2" and "spaces w3" and "w1 \<noteq> []" and "w2 \<noteq> []" and "w3 \<noteq> []"
    and "ends rest"
  shows "handle_request price0 qty0 junk uuid
      (w0 @ kw @ w1 @ sd @ w2 @ decimal_text ip fp @ w3 @ ds @ rest) st =
    (fst (local_add_order st sd' p (int (digits_value 10 ds)) (uuid 0) (uuid 1)), ''OK '' @ uuid 0)"
proof -
  let ?ss = "\<lambda>r. stream_after (w2 @ decimal_text ip fp @ w3 @ ds @ r)"
  have words: "word kw" "word sd" by (rule word_keyword(1) [OF assms(1)]) (rule parse_side_word [OF assms(2)])
  have cmd: "read_token (istringstream (w0 @ kw @ w1 @ sd @ w2 @ decimal_text ip fp @ w3 @ ds @ rest)) [] =
      (stream_after (w1 @ sd @ w2 @ decimal_text ip fp @ w3 @ ds @ rest), kw)"
    by (rule read_command) (simp_all add: assms words)
  have side: "read_token (stream_after (w1 @ sd @ w2 @ decimal_text ip fp @ w3 @ ds @ rest)) [] = (?ss rest, sd)"
    by (rule token.rd_after) (simp_all add: assms words)
  have pr: "read_double_text (?ss rest) price0 = (stream_after (w3 @ ds @ rest), p)"
    unfolding assms(4) by (rule read_decimal) (use assms in simp_all)
  have qty: "read_int64 (stream_after (w3 @ ds @ rest)) qty0 = (stream_after rest, int (digits_value 10 ds))"
    by (rule read_digits) (use assms in simp_all)
  show ?thesis
    unfolding handle_request_def cmd using handle_add_eq [OF side pr qty assms(2)] assms(1,5,9) by simp
qed

lemma show_digits:
  "digit_char 0 = CHR ''0''" "digit_char (Suc 0) = CHR ''1''" "digit_char 2 = CHR ''2''" "digit_char 5 = CHR ''5''"
  by code_simp+

text \<open>The price 100.25, as a double and as text.\<close>

lemma sample_price: "price_tick (401 / 4)" "show_fixed4 (401 / 4) = ''100.2500''"
proof -
  have "representable (401 / 4)"
    unfolding representable_def by (rule exI [of _ 401], rule exI [of _ "- 2"]) (simp add: pow2_def)
  then have eq: "price_of 1002500 = 401 / 4" using rnd_representable by (simp add: price_of_def)
  then show "price_tick (401 / 4)" unfolding price_tick_def by (intro exI [of _ 1002500]) simp
  have "show_fixed4 (price_of 1002500) = decimal4 1002500" by (rule show_price) simp
  moreover have "decimal4 1002500 = ''100.2500''"
    by (simp add: decimal4_def pad0_def show_base.simps [of 10] show_digits)
  ultimately show "show_fixed4 (401 / 4) = ''100.2500''" by (simp only: eq)
qed

theorem add_request_witness:
  "handle_request 7 9 (sample_order ''junk'' BUY 0 0) (\<lambda>n. if n = 0 then ''o'' else ''p'')
     ''ADD BUY 150.00 100'' (new_crdt ''a'') =
   (fst (local_add_order (new_crdt ''a'') BUY 150 100 ''o'' ''p''), ''OK o'')"
proof -
  have h: "to_upper ''ADD'' = ''ADD''" "parse_side (to_upper ''BUY'') = Some BUY"
    "decimal_ok ''150'' (Some ''00'')" "list_all is_digit ''100''" "spaces []" "spaces '' ''"
    by code_simp+
  have d: "digits_value 10 ''15000'' = 15000" "digits_value 10 ''100'' = 100" by code_simp+
  then have v: "decimal_value ''150'' (Some ''00'') = 150" by (simp add: decimal_value_def places_def)
  have "representable (of_int 150)" by (rule representable_of_int) simp
  then have p: "150 = rnd (decimal_value ''150'' (Some ''00''))" using v rnd_representable by simp
  have "(150 :: rat) < 2 ^ 8" by simp
  also have "(2 :: rat) ^ 8 < 2 ^ 1024" by (rule power_strict_increasing) simp_all
  finally have b: "(150 :: rat) < 2 ^ 1024" .
  show ?thesis
    using add_request [OF h(1-3) p _ b h(4), of "[]" "'' ''" "'' ''" "'' ''" "[]" 7 9 "sample_order ''junk'' BUY 0 0"
        "\<lambda>n. if n = 0 then ''o'' else ''p''" "new_crdt ''a''"] h d
    by (simp add: decimal_text_def)
qed

section \<open>A missing quantity\<close>

text \<open>C37: an \<open>ADD\<close> request without its quantity is not refused: the order is added with
  whatever the uninitialised variable held, unless that happens not to be positive.\<close>
theorem missing_quantity_is_garbage:
  assumes "to_upper kw = ''ADD''" and "parse_side (to_upper sd) = Some sd'" and "price_tick p"
    and "spaces w0" and "spaces w1" and "spaces w2" and "spaces w3" and "w1 \<noteq> []" and "w2 \<noteq> []"
  shows "handle_request price0 qty0 junk uuid (w0 @ kw @ w1 @ sd @ w2 @ show_fixed4 p @ w3) st =
    (if qty0 \<le> 0 then (st, ''ERROR invalid_params'')
     else (fst (local_add_order st sd' p qty0 (uuid 0) (uuid 1)), ''OK '' @ uuid 0))"
proof -
  have words: "word kw" "word sd" by (rule word_keyword(1) [OF assms(1)]) (rule parse_side_word [OF assms(2)])
  have cmd: "read_token (istringstream (w0 @ kw @ w1 @ sd @ w2 @ show_fixed4 p @ w3)) [] =
      (stream_after (w1 @ sd @ w2 @ show_fixed4 p @ w3), kw)"
    by (rule read_command) (simp_all add: assms words)
  have side: "read_token (stream_after (w1 @ sd @ w2 @ show_fixed4 p @ w3)) [] =
      (stream_after (w2 @ show_fixed4 p @ w3), sd)"
    by (rule token.rd_after) (simp_all add: assms words)
  have pr: "read_double_text (stream_after (w2 @ show_fixed4 p @ w3)) price0 = (stream_after w3, p)"
    by (rule price_text.rd_after) (simp_all add: assms)
  note qty = int64.rd_missing [OF assms(7), of qty0]
  show ?thesis
    unfolding handle_request_def cmd
    using handle_add_eq [OF side pr qty assms(2)] price_tick_pos [OF assms(3)] by (simp add: assms(1))
qed

theorem missing_quantity_is_garbage_witness:
  "op_log (fst (handle_request 0 123456 (sample_order ''junk'' BUY 0 0) (\<lambda>n. if n = 0 then ''o'' else ''p'')
     ''ADD SELL 100.2500'' (new_crdt ''a''))) = [added_op (new_crdt ''a'') SELL (401 / 4) 123456 ''o'' ''p'']"
proof -
  have h: "to_upper ''ADD'' = ''ADD''" "parse_side (to_upper ''SELL'') = Some SELL" "spaces []" "spaces '' ''"
    "\<not> has_order (book (new_crdt ''a'')) ''o''" "op_log (new_crdt ''a'') = []"
    by code_simp+
  show ?thesis
    using missing_quantity_is_garbage [OF h(1,2) sample_price(1), of "[]" "'' ''" "'' ''" "[]" 0 123456
        "sample_order ''junk'' BUY 0 0" "\<lambda>n. if n = 0 then ''o'' else ''p''" "new_crdt ''a''"] h
    by (simp add: sample_price(2) local_add_order_eq Let_def)
qed

section \<open>Errors\<close>

definition is_error :: "string \<Rightarrow> bool" where
  "is_error resp \<longleftrightarrow> prefix ''ERROR '' resp"

definition same_books :: "crdt_book \<Rightarrow> crdt_book \<Rightarrow> bool" where
  "same_books st st' \<longleftrightarrow> book st' = book st \<and> op_log st' = op_log st \<and> seen_ops st' = seen_ops st"

lemma same_books_refl [simp]: "same_books st st"
  by (simp add: same_books_def)

lemma handle_add_cases:
  "handle_add price0 qty0 uuid ss st = (st', resp) \<Longrightarrow>
    is_error resp \<and> st' = st \<or> (\<exists>rest. resp = ''OK '' @ rest)"
  by (auto simp: handle_add_def is_error_def Let_def case_prod_beta split: option.splits if_splits)

lemma cancel_order_False: "\<not> snd (cancel_order b oid) \<Longrightarrow> fst (cancel_order b oid) = b"
  by (auto simp: cancel_order_def Let_def split: option.splits if_splits)

lemma local_cancel_False: "local_cancel_order junk st oid opid = (st', False) \<Longrightarrow> same_books st st'"
  by (auto simp: local_cancel_order_def same_books_def Let_def case_prod_beta cancel_order_False split: if_splits)

lemma handle_cancel_cases:
  assumes "handle_cancel junk uuid ss st = (st', resp)"
  shows "is_error resp \<and> same_books st st' \<and> (st' = st \<or> resp = ''ERROR order_not_found'') \<or> resp = ''OK''"
proof (cases "snd (read_token ss []) = []")
  case True
  then show ?thesis using assms by (auto simp: handle_cancel_def is_error_def case_prod_beta)
next
  case False
  obtain st1 ok where l: "local_cancel_order junk st (snd (read_token ss [])) (uuid 0) = (st1, ok)" by fastforce
  then show ?thesis
    using assms False local_cancel_False [of junk st "snd (read_token ss [])" "uuid 0" st1]
    by (cases ok) (auto simp: handle_cancel_def is_error_def case_prod_beta)
qed

lemma handle_market_cases:
  "handle_market qty0 junk uuid ss st = (st', resp) \<Longrightarrow>
    is_error resp \<and> st' = st \<or> (\<exists>rest. resp = ''FILLED '' @ rest)"
  by (auto simp: handle_market_def is_error_def Let_def case_prod_beta split: option.splits if_splits)

text \<open>C38: an error reply changes nothing but perhaps the clock, which a failed cancel of an
  order the book has known moves; every other reply starts with one of the five success words.\<close>
theorem error_replies_harmless:
  assumes "handle_request price0 qty0 junk uuid request st = (st', resp)"
  shows "is_error resp \<and> same_books st st' \<and> (st' = st \<or> resp = ''ERROR order_not_found'') \<or>
    (\<exists>kw \<in> {''OK'', ''FILLED '', ''BIDS'', ''NODE '', ''# HELP ''}. prefix kw resp)"
proof -
  obtain ss w where rt: "read_token (istringstream request) [] = (ss, w)" by fastforce
  note H = assms [unfolded handle_request_def rt prod.case Let_def]
  consider "to_upper w = ''ADD''" | "to_upper w = ''CANCEL''" | "to_upper w = ''MARKET''"
    | "to_upper w \<noteq> ''ADD''" "to_upper w \<noteq> ''CANCEL''" "to_upper w \<noteq> ''MARKET''" by blast
  then show ?thesis
  proof cases
    case 1
    then show ?thesis using H handle_add_cases [of price0 qty0 uuid ss st st' resp] by auto
  next
    case 2
    then show ?thesis using H handle_cancel_cases [of junk uuid ss st st' resp] by auto
  next
    case 3
    then show ?thesis using H handle_market_cases [of qty0 junk uuid ss st st' resp] by auto
  next
    case 4
    then show ?thesis
      using H by (auto simp: is_error_def handle_book_def handle_status_def handle_metrics_def Let_def
          case_prod_beta split: if_splits)
  qed
qed

theorem error_replies_harmless_witness:
  "same_books node_a (fst (handle_request 0 0 (sample_order ''junk'' BUY 0 0) (\<lambda>n. ''q'') ''CANCEL zz'' node_a))"
proof -
  let ?r = "handle_request 0 0 (sample_order ''junk'' BUY 0 0) (\<lambda>n. ''q'') ''CANCEL zz'' node_a"
  have "snd ?r = ''ERROR order_not_found''" by code_simp
  then have ne: "\<not> (\<exists>kw \<in> {''OK'', ''FILLED '', ''BIDS'', ''NODE '', ''# HELP ''}. prefix kw (snd ?r))" by simp
  have "?r = (fst ?r, snd ?r)" by simp
  from error_replies_harmless [OF this] ne show ?thesis by blast
qed

section \<open>A request is a step of the cluster\<close>

lemma read_int_range:
  assumes "lo \<le> 0" and "0 \<le> hi" and "lo \<le> old" and "old \<le> hi"
  shows "lo \<le> snd (read_int lo hi st old) \<and> snd (read_int lo hi st old) \<le> hi"
  using assms by (auto simp: read_int_def int_field_def Let_def case_prod_beta)

lemma read_int64_range: "fits64 old \<Longrightarrow> fits64 (snd (read_int64 st old))"
  using read_int_range [of "- (2 ^ 63)" "2 ^ 63 - 1" old st] by (simp add: fits64_def)

lemma parse_side_cases: "parse_side s = Some sd \<Longrightarrow> sd = BUY \<or> sd = SELL"
  by (auto simp: parse_side_def split: if_splits)

text \<open>Everything a request can do to a node.\<close>

lemma request_effect:
  assumes "fits64 qty0"
  obtains (none) "fst (handle_request price0 qty0 junk uuid request st) = st"
  | (add) sd pr qty where "0 < qty" "qty < 2 ^ 63" "sd = BUY \<or> sd = SELL"
      "fst (handle_request price0 qty0 junk uuid request st) = fst (local_add_order st sd pr qty (uuid 0) (uuid 1))"
  | (cancel) oid where "fst (handle_request price0 qty0 junk uuid request st) =
      fst (local_cancel_order junk st oid (uuid 0))"
  | (market) sd qty where "fits64 qty" "to_upper (snd (read_token (istringstream request) [])) = ''MARKET''"
      "fst (handle_request price0 qty0 junk uuid request st) = fst (local_market_order junk uuid st sd qty)"
proof -
  obtain ss w where rt: "read_token (istringstream request) [] = (ss, w)" by fastforce
  note D = handle_request_def rt prod.case Let_def
  obtain ss1 sd where t: "read_token ss [] = (ss1, sd)" by fastforce
  obtain ss2 p where d: "read_double_text ss1 price0 = (ss2, p)" by fastforce
  obtain ss3 q where i: "read_int64 ss2 qty0 = (ss3, q)" by fastforce
  obtain ss4 q' where i': "read_int64 ss1 qty0 = (ss4, q')" by fastforce
  have q: "fits64 q" "fits64 q'"
    using read_int64_range [OF assms, of ss2] read_int64_range [OF assms, of ss1] by (simp_all only: i i' snd_conv)
  consider "to_upper w = ''ADD''" | "to_upper w = ''CANCEL''" | "to_upper w = ''MARKET''"
    | "to_upper w \<noteq> ''ADD''" "to_upper w \<noteq> ''CANCEL''" "to_upper w \<noteq> ''MARKET''" by blast
  then show thesis
  proof cases
    case 1
    then have H: "handle_request price0 qty0 junk uuid request st = handle_add price0 qty0 uuid ss st"
      unfolding D by simp
    show thesis
    proof (cases "parse_side (to_upper sd)")
      case None
      then show thesis using none H unfolding handle_add_def t prod.case d i Let_def by simp
    next
      case (Some sd')
      then show thesis
        using handle_add_eq [OF t d i Some, of uuid st] H q(1) none add [of q sd' p] parse_side_cases [OF Some]
        by (cases "p \<le> 0 \<or> q \<le> 0") (auto simp: fits64_def)
    qed
  next
    case 2
    then have "handle_request price0 qty0 junk uuid request st = handle_cancel junk uuid ss st"
      unfolding D by simp
    then show thesis
      using none cancel [of sd] unfolding handle_cancel_def t prod.case
      by (cases "sd = []") (simp_all add: case_prod_beta)
  next
    case 3
    then have H: "handle_request price0 qty0 junk uuid request st = handle_market qty0 junk uuid ss st"
      unfolding D by simp
    show thesis
    proof (cases "parse_side (to_upper sd) = None \<or> q' \<le> 0")
      case True
      then show thesis using none H unfolding handle_market_def t prod.case i' Let_def by (auto split: option.splits)
    next
      case False
      then show thesis
        using market [of q'] q(2) 3 rt H unfolding handle_market_def t prod.case i' Let_def
        by (auto simp: case_prod_beta)
    qed
  next
    case 4
    then show thesis using none unfolding D by simp
  qed
qed

text \<open>C35: whatever line a client sends to a node of a cluster, handling it is one step of the
  cluster or none: with fresh generated ids and a clock that has not run out, the node's new book
  is the old one or what a local add, cancel or market order makes of it, and without the word
  \<^verbatim>\<open>MARKET\<close> the step is one of the runs in which replicas converge.\<close>
theorem request_is_cluster_step:
  assumes "fresh_id c (uuid 0)" and "fresh_id c (uuid 1)" and "can_tick (c n)" and "fits64 qty0"
    and "handle_request price0 qty0 junk uuid request (c n) = (st', resp)"
    and "tame \<longrightarrow> to_upper (snd (read_token (istringstream request) [])) \<noteq> ''MARKET''"
  shows "c(n := st') = c \<or> cluster_step tame c (c(n := st'))"
proof -
  have st': "st' = fst (handle_request price0 qty0 junk uuid request (c n))" by (simp add: assms(5))
  show ?thesis
  proof (rule request_effect [OF assms(4), of price0 junk uuid request "c n"])
    assume "fst (handle_request price0 qty0 junk uuid request (c n)) = c n"
    then show ?thesis by (simp add: st')
  next
    fix sd pr qty assume "0 < qty" "qty < 2 ^ 63"
      "fst (handle_request price0 qty0 junk uuid request (c n)) = fst (local_add_order (c n) sd pr qty (uuid 0) (uuid 1))"
    then show ?thesis using cluster_step.add [OF assms(1-3)] by (simp add: st')
  next
    fix oid assume "fst (handle_request price0 qty0 junk uuid request (c n)) = fst (local_cancel_order junk (c n) oid (uuid 0))"
    then show ?thesis using cluster_step.cancel [OF assms(1,3)] by (simp add: st')
  next
    fix sd qty assume "fits64 qty" "to_upper (snd (read_token (istringstream request) [])) = ''MARKET''"
      "fst (handle_request price0 qty0 junk uuid request (c n)) = fst (local_market_order junk uuid (c n) sd qty)"
    then show ?thesis using cluster_step.market [of tame c n qty] assms(3,6) by (auto simp: st')
  qed
qed

theorem request_is_cluster_step_witness:
  "\<exists>st'. handle_request 0 0 (sample_order ''junk'' BUY 0 0) (\<lambda>n. if n = 0 then ''o'' else ''p'') ''ADD BUY 1 2''
      (new_crdt ''a'') = (st', ''OK o'') \<and>
    (new_cluster(''a'' := st') = new_cluster \<or> cluster_step True new_cluster (new_cluster(''a'' := st')))"
proof -
  let ?u = "\<lambda>n :: nat. if n = 0 then ''o'' else ''p''"
  let ?h = "handle_request 0 0 (sample_order ''junk'' BUY 0 0) ?u ''ADD BUY 1 2'' (new_crdt ''a'')"
  have c: "new_cluster ''a'' = new_crdt ''a''" by (simp add: new_cluster_def)
  have h: "fresh_id new_cluster (?u 0)" "fresh_id new_cluster (?u 1)" "can_tick (new_cluster ''a'')"
    "to_upper (snd (read_token (istringstream ''ADD BUY 1 2'') [])) \<noteq> ''MARKET''"
    by (simp_all add: fresh_id_def new_cluster_def new_crdt_def all_ops_def empty_book_def has_order_def) code_simp+
  have "snd ?h = ''OK o''" by code_simp
  then obtain st' where st': "?h = (st', ''OK o'')" by (metis prod.collapse)
  with request_is_cluster_step [of new_cluster ?u "''a''" 0 0 "sample_order ''junk'' BUY 0 0" "''ADD BUY 1 2''" st'
      "''OK o''" True] h c show ?thesis by (simp add: fits64_def)
qed

section \<open>Reading the book\<close>

text \<open>Lines, each behind a newline, can be told apart.\<close>

lemma lines_inject:
  "list_all (\<lambda>b. list_all (\<lambda>c. \<not> is_space c \<or> c = CHR '' '') b) bs \<Longrightarrow>
   list_all (\<lambda>b. list_all (\<lambda>c. \<not> is_space c \<or> c = CHR '' '') b) cs \<Longrightarrow>
   concat (map (\<lambda>b. newline @ b) bs) = concat (map (\<lambda>b. newline @ b) cs) \<Longrightarrow> bs = cs"
proof (induction bs arbitrary: cs)
  case Nil
  then show ?case by (cases cs) (simp_all add: newline_def)
next
  case (Cons b bs)
  let ?P = "\<lambda>c. \<not> is_space c \<or> c = CHR '' ''" and ?l = "\<lambda>bs. concat (map (\<lambda>b. newline @ b) bs)"
  obtain c cs' where cs: "cs = c # cs'" using Cons.prems(3) by (cases cs) (simp_all add: newline_def)
  have "char_of (10 :: nat) \<noteq> CHR '' ''" by code_simp
  then have "?l ds = [] \<or> \<not> ?P (hd (?l ds))" for ds
    by (cases ds) (simp_all add: newline_def is_space_def)
  then have split: "takeWhile ?P (d @ ?l ds) = d" if "list_all ?P d" for d ds
    by (rule takeWhile_prefix [OF that])
  have eq: "b @ ?l bs = c @ ?l cs'" using Cons.prems(3) by (simp add: cs newline_def)
  then have "b = c"
    using split [of b bs] split [of c cs'] Cons.prems(1,2) by (simp add: cs)
  moreover from this have "bs = cs'"
    using Cons.IH [of cs'] Cons.prems(1,2) eq by (simp add: cs)
  ultimately show ?case by (simp add: cs)
qed

definition level_text :: "price_level \<Rightarrow> string" where
  "level_text l = show_fixed4 (level_price l) @ '' '' @ show_int (total_quantity l)"

lemma show_level_text: "show_level = (\<lambda>l. newline @ level_text l)"
  by (rule ext) (simp add: show_level_def level_text_def)

definition level_shown :: "price_level \<Rightarrow> bool" where
  "level_shown l \<longleftrightarrow> price_tick (level_price l) \<and> fits64 (total_quantity l)"

lemma level_text_chars:
  "level_shown l \<Longrightarrow> list_all (\<lambda>c. \<not> is_space c \<or> c = CHR '' '') (level_text l)"
  using price_text.sh_word [of "level_price l"] show_int_word [of "total_quantity l"]
  by (auto simp: level_text_def level_shown_def word_def list_all_iff)

lemma level_text_inject:
  assumes "level_shown l" and "level_shown l'" and "level_text l = level_text l'"
  shows "level_price l = level_price l' \<and> total_quantity l = total_quantity l'"
proof -
  have e: "ends ('' '' @ show_int i)" for i by (simp add: is_space_def)
  have p: "price_tick (level_price l)" "price_tick (level_price l')"
    and q: "fits64 (total_quantity l)" "fits64 (total_quantity l')"
    using assms(1,2) by (simp_all add: level_shown_def)
  have "(stream_after ('' '' @ show_int (total_quantity l)), level_price l) =
      (stream_after ('' '' @ show_int (total_quantity l')), level_price l')"
    using price_text.rd_sh [OF p(1) e, of "total_quantity l" 0] price_text.rd_sh [OF p(2) e, of "total_quantity l'" 0]
      assms(3) by (simp only: level_text_def)
  then have "level_price l = level_price l'" "show_int (total_quantity l) = show_int (total_quantity l')"
    by (simp_all add: stream_after_def)
  moreover from this have "total_quantity l = total_quantity l'"
    by (intro int64.sh_inject) (use q in \<open>simp_all add: fits64_def\<close>)
  ultimately show ?thesis by simp
qed

lemma level_texts_inject:
  "list_all level_shown ls \<Longrightarrow> list_all level_shown ms \<Longrightarrow> map level_text ls = map level_text ms \<Longrightarrow>
    map (\<lambda>l. (level_price l, total_quantity l)) ls = map (\<lambda>l. (level_price l, total_quantity l)) ms"
proof (induction ls arbitrary: ms)
  case (Cons l ls)
  then obtain m ms' where "ms = m # ms'" by (cases ms) auto
  then show ?case using Cons level_text_inject [of l m] by auto
qed simp

lemma level_text_not_asks: "level_text l \<noteq> ''ASKS''"
proof
  assume "level_text l = ''ASKS''"
  then have "CHR '' '' \<in> set ''ASKS''" by (simp only: level_text_def set_append flip: \<open>level_text l = ''ASKS''\<close>) simp
  then show False by simp
qed

text \<open>The depth a \<open>BOOK\<close> request asks for: 10 unless it names a positive 32-bit number.\<close>

definition asked_depth :: "istream \<Rightarrow> int" where
  "asked_depth ss = (let d = snd (read_int32 ss 10) in if d \<le> 0 then 10 else d)"

definition reply_lines :: "book_snapshot \<Rightarrow> string list" where
  "reply_lines snap = map level_text (snap_bids snap) @ ''ASKS'' # map level_text (snap_asks snap)"

lemma handle_book_lines:
  "handle_book ss st = ''BIDS'' @ concat (map (\<lambda>b. newline @ b) (reply_lines (crdt_snapshot st (asked_depth ss))))"
  by (simp add: handle_book_def asked_depth_def reply_lines_def show_level_text case_prod_beta Let_def comp_def)

lemma reply_lines_inject:
  assumes "reply_lines s = reply_lines s'"
  shows "map level_text (snap_bids s) = map level_text (snap_bids s') \<and>
    map level_text (snap_asks s) = map level_text (snap_asks s')"
proof -
  have split: "takeWhile (\<lambda>x. x \<noteq> ''ASKS'') (reply_lines s) = map level_text (snap_bids s)" for s
    unfolding reply_lines_def
    by (rule takeWhile_prefix) (simp_all add: list_all_iff level_text_not_asks)
  have "map level_text (snap_bids s) = map level_text (snap_bids s')" using split assms by metis
  then show ?thesis using assms by (simp add: reply_lines_def)
qed

text \<open>The answer to \<open>BOOK\<close> determines the depth it shows: with prices in ten-thousandths
  below \<open>2 ^ 30\<close> and totals in range, two books that give the same answer to the same request have
  the same prices and totals, level by level, on both sides of the snapshot of the depth asked
  for.\<close>
theorem book_reply_faithful:
  assumes "handle_book ss st = handle_book ss st'" and "d = asked_depth ss"
    and "list_all level_shown (snap_bids (crdt_snapshot st d) @ snap_asks (crdt_snapshot st d))"
    and "list_all level_shown (snap_bids (crdt_snapshot st' d) @ snap_asks (crdt_snapshot st' d))"
  shows "map (\<lambda>l. (level_price l, total_quantity l)) (snap_bids (crdt_snapshot st d)) =
      map (\<lambda>l. (level_price l, total_quantity l)) (snap_bids (crdt_snapshot st' d)) \<and>
    map (\<lambda>l. (level_price l, total_quantity l)) (snap_asks (crdt_snapshot st d)) =
      map (\<lambda>l. (level_price l, total_quantity l)) (snap_asks (crdt_snapshot st' d))"
proof -
  have ok: "list_all (list_all (\<lambda>c. \<not> is_space c \<or> c = CHR '' '')) (reply_lines s)"
    if "list_all level_shown (snap_bids s @ snap_asks s)" for s
    using that level_text_chars by (auto simp: reply_lines_def list_all_iff is_space_def)
  have "concat (map (\<lambda>b. newline @ b) (reply_lines (crdt_snapshot st d))) =
      concat (map (\<lambda>b. newline @ b) (reply_lines (crdt_snapshot st' d)))"
    using assms(1) by (simp add: handle_book_lines assms(2))
  then have "reply_lines (crdt_snapshot st d) = reply_lines (crdt_snapshot st' d)"
    by (rule lines_inject [OF ok [OF assms(3)] ok [OF assms(4)]])
  from reply_lines_inject [OF this] show ?thesis
    using level_texts_inject assms(3,4) by simp
qed

definition sample_level_book :: "int \<Rightarrow> crdt_book" where
  "sample_level_book qty = fst (local_add_order (new_crdt ''a'') BUY (401 / 4) qty ''o'' ''p'')"

lemma sample_level_snapshot:
  "crdt_snapshot (sample_level_book qty) 10 =
     \<lparr>snap_bids = [\<lparr>level_price = 401 / 4, total_quantity = wrap64 qty, level_orders = [''o'']\<rparr>], snap_asks = []\<rparr>"
  by (simp add: sample_level_book_def local_add_order_def new_crdt_def empty_book_def add_order_def place_order_def
      enqueue_def default_level_def crdt_snapshot_def get_snapshot_def log_op_def Let_def case_prod_beta)

theorem book_reply_faithful_witness:
  "handle_book (stream_at []) (sample_level_book 5) \<noteq> handle_book (stream_at []) (sample_level_book 6)"
proof
  assume eq: "handle_book (stream_at []) (sample_level_book 5) = handle_book (stream_at []) (sample_level_book 6)"
  have d: "asked_depth (stream_at []) = 10" unfolding asked_depth_def int32.rd_end by simp
  have w: "wrap64 5 = 5" "wrap64 6 = 6" by (simp_all add: wrap64_id fits64_def)
  have ok: "list_all level_shown (snap_bids (crdt_snapshot (sample_level_book q) 10) @
      snap_asks (crdt_snapshot (sample_level_book q) 10))" for q
    using sample_price(1) by (simp add: sample_level_snapshot level_shown_def)
  from book_reply_faithful [OF eq d [symmetric] ok ok] show False
    by (simp add: sample_level_snapshot w)
qed

end
