(* ===== verification/Sockets.thy ===== *)
theory Sockets
  imports Text_Format Bytes
begin

text \<open>
  What the transports use of the operating system: socket calls with the result the system gave
  them, addresses and their text, address resolution. The calls a function makes are a list; a
  run over the descriptors that are open finds every use of a descriptor that is not, and every
  \<^verbatim>\<open>freeaddrinfo\<close> of a list that is not allocated.
\<close>

section \<open>Addresses\<close>

text \<open>\<^verbatim>\<open>sockaddr_in\<close>: the address and the port, in host byte order.\<close>

type_synonym sockaddr = "u32 \<times> u16"

definition octets :: "u32 \<Rightarrow> nat list" where
  "octets a = map (\<lambda>k. unat a div 256 ^ k mod 256) [3, 2, 1, 0]"

text \<open>\<^verbatim>\<open>inet_ntop(AF_INET, ...)\<close>.\<close>

fun join_dots :: "string list \<Rightarrow> string" where
  "join_dots [] = []"
| "join_dots [s] = s"
| "join_dots (s # t # ss) = s @ CHR ''.'' # join_dots (t # ss)"

definition inet_ntop :: "u32 \<Rightarrow> string" where
  "inet_ntop a = join_dots (map show_nat (octets a))"

text \<open>\<^verbatim>\<open>inet_pton(AF_INET, ...)\<close>: four decimal numbers up to 255, without leading zeros.\<close>

fun split_dots :: "string \<Rightarrow> string \<Rightarrow> string list" where
  "split_dots cur [] = [cur]"
| "split_dots cur (c # cs) = (if c = CHR ''.'' then cur # split_dots [] cs else split_dots (cur @ [c]) cs)"

definition octet_text :: "string \<Rightarrow> bool" where
  "octet_text s \<longleftrightarrow> s \<noteq> [] \<and> list_all is_digit s \<and> length s \<le> 3 \<and> digits_value 10 s < 256 \<and>
     (length s = 1 \<or> hd s \<noteq> CHR ''0'')"

definition inet_pton :: "string \<Rightarrow> u32 option" where
  "inet_pton s =
     (let parts = split_dots [] s
      in if length parts = 4 \<and> list_all octet_text parts
         then Some (of_nat (foldl (\<lambda>v p. 256 * v + digits_value 10 p) 0 parts)) else None)"

text \<open>\<^verbatim>\<open>getaddrinfo\<close> with a decimal port as the service: a host that is an address in text is
  that address, every other name goes to the resolver, an argument.\<close>

definition getaddrinfo :: "(string \<Rightarrow> u32 option) \<Rightarrow> string \<Rightarrow> string \<Rightarrow> sockaddr option" where
  "getaddrinfo dns host service =
     map_option (\<lambda>a. (a, of_nat (digits_value 10 service)))
       (case inet_pton host of Some a \<Rightarrow> Some a | None \<Rightarrow> dns host)"

text \<open>What both transports bind to: the address is zeroed before \<^verbatim>\<open>inet_pton\<close>, whose result is not looked at.\<close>

definition bind_address :: "string \<Rightarrow> u16 \<Rightarrow> sockaddr" where
  "bind_address host port = (case inet_pton host of None \<Rightarrow> (0, port) | Some a \<Rightarrow> (a, port))"

section \<open>Calls\<close>

datatype sock_type = SOCK_STREAM | SOCK_DGRAM

datatype sockopt = SO_REUSEADDR | SO_REUSEPORT | SO_RCVTIMEO int int

text \<open>The last argument of a call that has a result is that result.\<close>

datatype syscall =
    Socket sock_type int
  | Setsockopt int sockopt
  | Bind int sockaddr int
  | Listen int nat int
  | Accept int int
  | Shutdown int
  | Close int
  | Getaddrinfo string string "sockaddr option"
  | Freeaddrinfo
  | Sendto int "u8 list" sockaddr int
  | Recvfrom int nat int
  | Recv int nat string
  | Send int string

text \<open>The descriptors that are open and the number of address lists that are allocated.\<close>

type_synonym resources = "int set \<times> nat"

fun call_ok :: "syscall \<Rightarrow> resources \<Rightarrow> resources option" where
  "call_ok (Socket t r) (fds, n) = Some (if r < 0 then fds else insert r fds, n)"
| "call_ok (Setsockopt fd opt) (fds, n) = (if fd \<in> fds then Some (fds, n) else None)"
| "call_ok (Bind fd a r) (fds, n) = (if fd \<in> fds then Some (fds, n) else None)"
| "call_ok (Listen fd k r) (fds, n) = (if fd \<in> fds then Some (fds, n) else None)"
| "call_ok (Accept fd r) (fds, n) =
     (if fd \<in> fds then Some (if r < 0 then fds else insert r fds, n) else None)"
| "call_ok (Shutdown fd) (fds, n) = (if fd \<in> fds then Some (fds, n) else None)"
| "call_ok (Close fd) (fds, n) = (if fd \<in> fds then Some (fds - {fd}, n) else None)"
| "call_ok (Getaddrinfo h s r) (fds, n) = Some (fds, case r of None \<Rightarrow> n | Some a \<Rightarrow> Suc n)"
| "call_ok Freeaddrinfo (fds, n) = (case n of 0 \<Rightarrow> None | Suc m \<Rightarrow> Some (fds, m))"
| "call_ok (Sendto fd d a r) (fds, n) = (if fd \<in> fds then Some (fds, n) else None)"
| "call_ok (Recvfrom fd k r) (fds, n) = (if fd \<in> fds then Some (fds, n) else None)"
| "call_ok (Recv fd k s) (fds, n) = (if fd \<in> fds then Some (fds, n) else None)"
| "call_ok (Send fd s) (fds, n) = (if fd \<in> fds then Some (fds, n) else None)"

fun calls_ok :: "syscall list \<Rightarrow> resources \<Rightarrow> resources option" where
  "calls_ok [] r = Some r"
| "calls_ok (c # cs) r = (case call_ok c r of None \<Rightarrow> None | Some r' \<Rightarrow> calls_ok cs r')"

lemma calls_ok_append:
  "calls_ok (cs @ ds) r = (case calls_ok cs r of None \<Rightarrow> None | Some r' \<Rightarrow> calls_ok ds r')"
  by (induction cs r rule: calls_ok.induct) (simp_all split: option.split)

text \<open>Calls that leave everything as it was can be repeated.\<close>

lemma calls_ok_concat:
  "(\<And>x. x \<in> set xs \<Longrightarrow> calls_ok (f x) r = Some r) \<Longrightarrow> calls_ok (concat (map f xs)) r = Some r"
  by (induction xs) (simp_all add: calls_ok_append)

section \<open>Address text reads back\<close>

lemma split_dots_none: "CHR ''.'' \<notin> set s \<Longrightarrow> split_dots cur s = [cur @ s]"
  by (induction cur s rule: split_dots.induct) auto

lemma split_dots_dot:
  "CHR ''.'' \<notin> set s \<Longrightarrow> split_dots cur (s @ CHR ''.'' # r) = (cur @ s) # split_dots [] r"
  by (induction cur s rule: split_dots.induct) auto

lemma split_join:
  "ss \<noteq> [] \<Longrightarrow> list_all (\<lambda>s. CHR ''.'' \<notin> set s) ss \<Longrightarrow> split_dots [] (join_dots ss) = ss"
  by (induction ss rule: join_dots.induct) (simp_all add: split_dots_none split_dots_dot)

lemma show_nat_no_dot: "CHR ''.'' \<notin> set (show_nat n)"
proof
  assume "CHR ''.'' \<in> set (show_nat n)"
  then have "is_digit (CHR ''.'')" using show_nat_digits [of n] by (auto simp: list_all_iff)
  then show False by (simp add: is_digit_def)
qed

lemma show_nat_hd: "hd (show_nat n) = CHR ''0'' \<Longrightarrow> length (show_nat n) = 1"
proof (induction n rule: less_induct)
  case (less n)
  show ?case
  proof (cases "n < 10")
    case False
    then have eq: "show_nat n = show_nat (n div 10) @ [digit_char (n mod 10)]" by (simp add: show_base.simps [of 10 n])
    then have "hd (show_nat (n div 10)) = CHR ''0''" using less.prems by simp
    moreover have "n div 10 < n" using False by simp
    ultimately have "length (show_nat (n div 10)) = 1" by (rule less.IH [rotated])
    then have "show_nat (n div 10) = [CHR ''0'']"
      using \<open>hd (show_nat (n div 10)) = CHR ''0''\<close> by (cases "show_nat (n div 10)") auto
    then have "n div 10 = digits_value 10 [CHR ''0'']" using show_base_value [of 10 "n div 10"] by simp
    moreover have "digits_value 10 [CHR ''0''] = 0" by code_simp
    ultimately show ?thesis using False by simp
  qed (simp add: show_base.simps [of 10 n])
qed

lemma octet_text_show: "n < 256 \<Longrightarrow> octet_text (show_nat n)"
  using show_nat_hd [of n] show_base_length [of 10 n 3]
  by (auto simp: octet_text_def show_nat_digits show_base_value)

lemma octets_value: "foldl (\<lambda>v k. 256 * v + k) 0 (octets a) = unat a"
proof -
  define n where "n = unat a"
  have n: "n < 2 ^ 32" using unsigned_less [of a, where ?'a = nat] by (simp add: n_def)
  have split: "n div 2 ^ j = 256 * (n div 2 ^ (j + 8)) + n div 2 ^ j mod 256" for j
    by (simp add: power_add div_mult2_eq)
  have "n div 2 ^ 24 < 256" using n by simp
  then have "foldl (\<lambda>v k. 256 * v + k) 0 (octets a) = n"
    using split [of 0] split [of 8] split [of 16] by (simp add: octets_def n_def [symmetric])
  then show ?thesis by (simp add: n_def)
qed

lemma inet_pton_ntop [simp]: "inet_pton (inet_ntop a) = Some a"
proof -
  have parts: "split_dots [] (inet_ntop a) = map show_nat (octets a)"
    unfolding inet_ntop_def by (rule split_join) (simp_all add: octets_def list_all_iff show_nat_no_dot)
  have "list_all octet_text (map show_nat (octets a))"
    by (simp add: octets_def octet_text_show)
  moreover have "foldl (\<lambda>v p. 256 * v + digits_value 10 p) 0 (map show_nat ks) = foldl (\<lambda>v k. 256 * v + k) 0 ks" for ks
    by (simp add: foldl_map show_base_value)
  ultimately show ?thesis
    by (simp add: inet_pton_def parts Let_def octets_value) (simp add: octets_def)
qed

lemma getaddrinfo_text [simp]:
  "getaddrinfo dns (inet_ntop a) (show_nat (unat (q :: u16))) = Some (a, q)"
  by (simp add: getaddrinfo_def show_base_value)

end
