(* ===== verification/TcpServer.thy ===== *)
theory TcpServer
  imports Sockets
begin

text \<open>
  The TCP server (\<^verbatim>\<open>network/tcp_server.cpp\<close>). One connection (\<^verbatim>\<open>handle_client\<close>): the
  data arrives in segments, one per \<^verbatim>\<open>recv\<close>; an empty segment, or the end of the list, is a
  closed or failed connection. The request handler is an argument that works on a state. Then the
  server itself, with the socket calls it makes: its constructor and the exceptions it throws, the
  accept loop, stopping and destroying it. How its threads run beside each other is the subject of
  \<open>Lifecycle\<close>.
\<close>

abbreviation nl :: char where
  "nl \<equiv> char_of (10 :: nat)"

abbreviation cr :: char where
  "cr \<equiv> char_of (13 :: nat)"

text \<open>The reading loop.\<close>

fun read_request :: "string \<Rightarrow> string list \<Rightarrow> string" where
  "read_request request [] = request"
| "read_request request (buf # segs) =
     (if buf = [] then request
      else let request' = request @ buf
           in if nl \<in> set request' then request' else read_request request' segs)"

text \<open>The loop of \<^verbatim>\<open>pop_back\<close>.\<close>

definition strip_line_end :: "string \<Rightarrow> string" where
  "strip_line_end s = rev (dropWhile (\<lambda>c. c = nl \<or> c = cr) (rev s))"

definition handle_client ::
  "(string \<Rightarrow> 's \<Rightarrow> 's \<times> string) \<Rightarrow> string list \<Rightarrow> 's \<Rightarrow> 's \<times> string option" where
  "handle_client handler segs st =
     (let request = strip_line_end (read_request [] segs)
      in if request = [] then (st, None)
         else let (st', response) = handler request st in (st', Some (response @ [nl])))"

section \<open>The calls of a connection\<close>

text \<open>One \<^verbatim>\<open>recv\<close> per segment as long as the reading loop runs.\<close>

fun read_calls :: "int \<Rightarrow> string \<Rightarrow> string list \<Rightarrow> syscall list" where
  "read_calls client_fd request [] = [Recv client_fd 4096 []]"
| "read_calls client_fd request (buf # segs) =
     Recv client_fd 4096 buf #
     (if buf = [] then []
      else let request' = request @ buf
           in if nl \<in> set request' then [] else read_calls client_fd request' segs)"

section \<open>The server\<close>

record tcp_server =
  server_fd :: int
  tcp_port_no :: u16

definition tcp_open :: "int \<Rightarrow> int \<Rightarrow> int \<Rightarrow> string \<Rightarrow> u16 \<Rightarrow> syscall list \<times> (string + tcp_server)" where
  "tcp_open fd bound listening bind_host bind_port =
     (if fd < 0 then ([Socket SOCK_STREAM fd], Inl ''Failed to create TCP socket'')
      else
        let calls = [Socket SOCK_STREAM fd, Setsockopt fd SO_REUSEADDR,
              Bind fd (bind_address bind_host bind_port) bound]
        in if bound < 0
           then (calls @ [Close fd], Inl (''Failed to bind TCP socket on port '' @ show_nat (unat bind_port)))
           else
             let calls' = calls @ [Listen fd 16 listening]
             in if listening < 0 then (calls' @ [Close fd], Inl ''Failed to listen on TCP socket'')
                else (calls', Inr \<lparr>server_fd = fd, tcp_port_no = bind_port\<rparr>))"

definition tcp_stop :: "tcp_server \<Rightarrow> syscall list" where
  "tcp_stop srv = (if server_fd srv \<ge> 0 then [Shutdown (server_fd srv)] else [])"

text \<open>The destructor stops the server first.\<close>

definition tcp_close :: "tcp_server \<Rightarrow> syscall list" where
  "tcp_close srv = tcp_stop srv @ (if server_fd srv \<ge> 0 then [Close (server_fd srv)] else [])"

text \<open>One turn of \<^verbatim>\<open>accept_loop\<close>, with what \<^verbatim>\<open>accept\<close> returned, and the connection
  it hands to a thread of its own.\<close>

definition accept_turn :: "tcp_server \<Rightarrow> int \<Rightarrow> syscall list \<times> int option" where
  "accept_turn srv client_fd =
     ([Setsockopt (server_fd srv) (SO_RCVTIMEO 1 0), Accept (server_fd srv) client_fd],
      if client_fd < 0 then None else Some client_fd)"

section \<open>Segments\<close>

text \<open>The segments up to the one with the first newline, or all if there is none.\<close>

definition through_newline :: "string list \<Rightarrow> string list" where
  "through_newline segs = take (Suc (length (takeWhile (\<lambda>buf. nl \<notin> set buf) segs))) segs"

lemma through_newline_simps [simp]:
  "through_newline [] = []"
  "through_newline (buf # segs) = (if nl \<in> set buf then [buf] else buf # through_newline segs)"
  by (simp_all add: through_newline_def)

lemma read_request_through:
  "nl \<notin> set request \<Longrightarrow>
    read_request request segs = request @ concat (through_newline (takeWhile (\<lambda>buf. buf \<noteq> []) segs))"
  by (induction segs arbitrary: request) (simp_all add: Let_def)

lemma through_newline_all: "nl \<notin> set (butlast (concat segs)) \<Longrightarrow> [] \<notin> set segs \<Longrightarrow> through_newline segs = segs"
proof (induction segs)
  case (Cons buf segs)
  show ?case
  proof (cases "nl \<in> set buf")
    case True
    then have "concat segs = []"
      using Cons.prems(1) by (cases "concat segs" rule: rev_cases) (auto simp: butlast_append split: if_splits)
    then have "segs = []" using Cons.prems(2) by (cases segs) auto
    then show ?thesis using True by simp
  next
    case False
    have "nl \<notin> set (butlast (concat segs))" using Cons.prems(1)
      by (cases "concat segs = []") (simp_all add: butlast_append del: concat_eq_Nil_conv)
    then show ?thesis using Cons False by simp
  qed
qed simp

text \<open>C39: whatever a connection sends, and however many lines, the handler is called at most once and
  the connection gets at most one answer: the request is what has come up to and with the segment of the first
  newline (or until the connection ends), less its trailing line ends; what comes later is not looked at. So
  if the data has no newline but at its very end, how the network cuts it does not matter.\<close>
theorem segmentation_irrelevant:
  "handle_client handler segs st =
    (let request = strip_line_end (concat (through_newline (takeWhile (\<lambda>buf. buf \<noteq> []) segs)))
     in if request = [] then (st, None)
        else (fst (handler request st), Some (snd (handler request st) @ [nl]))) \<and>
   (nl \<notin> set (butlast (concat segs)) \<and> [] \<notin> set segs \<and> [] \<notin> set segs' \<and> concat segs' = concat segs \<longrightarrow>
     handle_client handler segs' st = handle_client handler segs st)"
proof -
  have all: "read_request [] ss = concat ss" if "nl \<notin> set (butlast (concat ss))" "[] \<notin> set ss" for ss
  proof -
    have eq: "takeWhile (\<lambda>buf. buf \<noteq> []) ss = ss" unfolding takeWhile_eq_all_conv using that(2) by blast
    show ?thesis using read_request_through [of "[]" ss] unfolding eq through_newline_all [OF that] by simp
  qed
  have req: "read_request [] segs = concat (through_newline (takeWhile (\<lambda>buf. buf \<noteq> []) segs))"
    using read_request_through [of "[]" segs] by simp
  have indep: "handle_client handler segs' st = handle_client handler segs st"
    if "nl \<notin> set (butlast (concat segs))" "[] \<notin> set segs" "[] \<notin> set segs'" "concat segs' = concat segs"
    using all [of segs] all [of segs'] that by (simp add: handle_client_def)
  show ?thesis
    by (intro conjI impI, simp add: handle_client_def req Let_def case_prod_beta, elim conjE, rule indep)
qed

theorem segmentation_irrelevant_witness:
  "handle_client (\<lambda>r n. (n + length r, ''OK'')) [''STA'', ''TUS'' @ [nl], ''METRICS'' @ [nl]] 0 = (6 :: nat, Some (''OK'' @ [nl])) \<and>
   handle_client (\<lambda>r n. (n + length r, ''OK'')) [''STATUS'', [nl]] 0 =
     handle_client (\<lambda>r n. (n + length r, ''OK'')) [''STA'', ''TUS'' @ [nl]] (0 :: nat)"
proof -
  let ?h = "\<lambda>r n. (n + length r, ''OK'')"
  have e: "strip_line_end (concat (through_newline (takeWhile (\<lambda>buf. buf \<noteq> []) [''STA'', ''TUS'' @ [nl], ''METRICS'' @ [nl]]))) = ''STATUS''"
    "nl \<notin> set (butlast (concat [''STA'', ''TUS'' @ [nl]]))" "[] \<notin> set [''STA'', ''TUS'' @ [nl]]" "[] \<notin> set [''STATUS'', [nl]]"
    "concat [''STATUS'', [nl]] = concat [''STA'', ''TUS'' @ [nl]]"
    by code_simp+
  have "handle_client ?h [''STA'', ''TUS'' @ [nl], ''METRICS'' @ [nl]] 0 = (6 :: nat, Some (''OK'' @ [nl]))"
    using segmentation_irrelevant [of ?h "[''STA'', ''TUS'' @ [nl], ''METRICS'' @ [nl]]" 0, THEN conjunct1, unfolded e(1)] by simp
  moreover have "handle_client ?h [''STATUS'', [nl]] 0 = handle_client ?h [''STA'', ''TUS'' @ [nl]] (0 :: nat)"
    using segmentation_irrelevant [of ?h "[''STA'', ''TUS'' @ [nl]]" 0 "[''STATUS'', [nl]]", THEN conjunct2] e(2-5) by blast
  ultimately show ?thesis by blast
qed

end
