(* ===== verification/Config.thy ===== *)
theory Config
  imports Text_Format
begin

text \<open>
  The configuration of a node (\<^verbatim>\<open>util/config.cpp\<close>), read from the environment: a map
  from names to values. A number that \<^verbatim>\<open>std::stoi\<close> refuses ends the program with its
  exception.
\<close>

section \<open>Data\<close>

record peer_addr =
  pa_host :: string
  pa_port :: u16

record config =
  cfg_node_id :: string
  bind_host :: string
  udp_port :: u16
  tcp_port :: u16
  seed_peers :: "peer_addr list"
  cfg_gossip_interval_ms :: int
  cfg_heartbeat_interval_ms :: int
  cfg_peer_timeout_ms :: int
  cfg_gossip_strategy :: string

datatype stoi_exn = InvalidArgument | OutOfRange

section \<open>Numbers\<close>

text \<open>\<^verbatim>\<open>std::stoi\<close>: white space, a sign, digits; what follows is ignored.\<close>

definition stoi :: "string \<Rightarrow> stoi_exn + int" where
  "stoi s =
     (let (neg, r) = read_sign (dropWhile is_space s);
          ds = takeWhile is_digit r;
          v = (if neg then - int (digits_value 10 ds) else int (digits_value 10 ds))
      in if ds = [] then Inl InvalidArgument
         else if v < - (2 ^ 31) \<or> 2 ^ 31 - 1 < v then Inl OutOfRange
         else Inr v)"

definition get_env :: "(string \<Rightarrow> string option) \<Rightarrow> string \<Rightarrow> string \<Rightarrow> string" where
  "get_env env name default_val = (case env name of None \<Rightarrow> default_val | Some val \<Rightarrow> val)"

definition get_env_int :: "(string \<Rightarrow> string option) \<Rightarrow> string \<Rightarrow> int \<Rightarrow> stoi_exn + int" where
  "get_env_int env name default_val = (case env name of None \<Rightarrow> Inr default_val | Some val \<Rightarrow> stoi val)"

text \<open>\<^verbatim>\<open>static_cast<uint16_t>\<close> of an \<^verbatim>\<open>int\<close>.\<close>

definition to_u16 :: "int \<Rightarrow> u16" where
  "to_u16 i = word_of_int i"

section \<open>The list of peers\<close>

text \<open>The successive results of \<^verbatim>\<open>std::getline(ss, peer, d)\<close>: the last piece counts only
  when it is not empty.\<close>

fun getlines :: "char \<Rightarrow> string \<Rightarrow> string \<Rightarrow> string list" where
  "getlines d cur [] = (if cur = [] then [] else [cur])"
| "getlines d cur (c # cs) = (if c = d then cur # getlines d [] cs else getlines d (cur @ [c]) cs)"

text \<open>\<^verbatim>\<open>rfind(':')\<close> with the two \<^verbatim>\<open>substr\<close> around it.\<close>

definition split_last_colon :: "string \<Rightarrow> (string \<times> string) option" where
  "split_last_colon s =
     (if CHR '':'' \<in> set s
      then Some (rev (tl (dropWhile (\<lambda>c. c \<noteq> CHR '':'') (rev s))), rev (takeWhile (\<lambda>c. c \<noteq> CHR '':'') (rev s)))
      else None)"

fun parse_peers :: "string list \<Rightarrow> peer_addr list \<Rightarrow> stoi_exn + peer_addr list" where
  "parse_peers [] acc = Inr acc"
| "parse_peers (peer # ps) acc =
     (case split_last_colon peer of
        None \<Rightarrow> parse_peers ps acc
      | Some (host, port) \<Rightarrow>
          (case stoi port of
             Inl e \<Rightarrow> Inl e
           | Inr v \<Rightarrow> parse_peers ps (acc @ [\<lparr>pa_host = host, pa_port = to_u16 v\<rparr>])))"

section \<open>The configuration\<close>

definition default_config :: "string \<Rightarrow> config" where
  "default_config nid =
     \<lparr>cfg_node_id = nid, bind_host = ''0.0.0.0'', udp_port = 7000, tcp_port = 8000, seed_peers = [],
      cfg_gossip_interval_ms = 100, cfg_heartbeat_interval_ms = 500, cfg_peer_timeout_ms = 2000,
      cfg_gossip_strategy = ''RANDOM''\<rparr>"

definition from_env :: "(string \<Rightarrow> string option) \<Rightarrow> stoi_exn + config" where
  "from_env env =
     (let cfg = (default_config (get_env env ''NODE_ID'' ''node-standalone''))
                  \<lparr>bind_host := get_env env ''BIND_HOST'' ''0.0.0.0''\<rparr>
      in rbind (get_env_int env ''UDP_PORT'' 7000) (\<lambda>udp.
         rbind (get_env_int env ''TCP_PORT'' 8000) (\<lambda>tcp.
         rbind (get_env_int env ''GOSSIP_INTERVAL_MS'' 100) (\<lambda>gi.
         rbind (get_env_int env ''HEARTBEAT_INTERVAL_MS'' 500) (\<lambda>hi.
         rbind (get_env_int env ''PEER_TIMEOUT_MS'' 2000) (\<lambda>pt.
           let peers_str = get_env env ''SEED_PEERS'' []
           in rbind (if peers_str = [] then Inr [] else parse_peers (getlines (CHR '','') [] peers_str) [])
                (\<lambda>ps. Inr (cfg\<lparr>udp_port := to_u16 udp, tcp_port := to_u16 tcp, seed_peers := ps,
                   cfg_gossip_interval_ms := gi, cfg_heartbeat_interval_ms := hi, cfg_peer_timeout_ms := pt,
                   cfg_gossip_strategy := get_env env ''GOSSIP_STRATEGY'' ''RANDOM''\<rparr>))))))))"

end
