(* ===== verification/Config_Props.thy ===== *)
theory Config_Props
  imports Config Text_Fields
begin

text \<open>
  Which configurations are read and which environments end the program.
\<close>

section \<open>The list of seed peers as text\<close>

definition peer_text :: "peer_addr \<Rightarrow> string" where
  "peer_text p = pa_host p @ '':'' @ show_nat (unat (pa_port p))"

fun peers_text :: "peer_addr list \<Rightarrow> string" where
  "peers_text [] = []"
| "peers_text [p] = peer_text p"
| "peers_text (p # q # ps) = peer_text p @ '','' @ peers_text (q # ps)"

lemma getlines_piece:
  "d \<notin> set s \<Longrightarrow> getlines d cur (s @ d # r) = (cur @ s) # getlines d [] r"
  by (induction s arbitrary: cur) auto

lemma getlines_last: "d \<notin> set s \<Longrightarrow> cur @ s \<noteq> [] \<Longrightarrow> getlines d cur s = [cur @ s]"
  by (induction s arbitrary: cur) auto

lemma digits_no_char: "\<not> is_digit c \<Longrightarrow> c \<notin> set (show_nat n)"
  using show_nat_digits [of n] by (auto simp: list_all_iff)

lemma peer_chars: "\<not> is_digit (CHR '','')" "\<not> is_digit (CHR '':'')" "\<not> is_space (CHR '','')"
  by (simp_all add: is_digit_def is_space_def)

lemma peer_text_no_comma: "CHR '','' \<notin> set (pa_host p) \<Longrightarrow> CHR '','' \<notin> set (peer_text p)"
  using digits_no_char peer_chars by (auto simp: peer_text_def)

lemma getlines_peers:
  "list_all (\<lambda>p. CHR '','' \<notin> set (pa_host p)) ps \<Longrightarrow> getlines (CHR '','') [] (peers_text ps) = map peer_text ps"
proof (induction ps rule: peers_text.induct)
  case (2 p)
  then show ?case
    using getlines_last [OF peer_text_no_comma, of p "[]"] by (simp add: peer_text_def)
next
  case (3 p q ps)
  then show ?case
    using getlines_piece [OF peer_text_no_comma, of p "[]" "peers_text (q # ps)"] by simp
qed simp

lemma split_peer_text: "split_last_colon (peer_text p) = Some (pa_host p, show_nat (unat (pa_port p)))"
proof -
  let ?n = "show_nat (unat (pa_port p))" and ?P = "\<lambda>c. c \<noteq> CHR '':''"
  have r: "rev (peer_text p) = rev ?n @ CHR '':'' # rev (pa_host p)" by (simp add: peer_text_def)
  have n: "list_all ?P (rev ?n)"
    using digits_no_char [OF peer_chars(2)] by (auto simp: list_all_iff)
  have "takeWhile ?P (rev (peer_text p)) = rev ?n" "dropWhile ?P (rev (peer_text p)) = CHR '':'' # rev (pa_host p)"
    unfolding r by (rule takeWhile_prefix [OF n], simp, rule dropWhile_prefix [OF n], simp)
  then show ?thesis by (simp add: split_last_colon_def) (simp add: peer_text_def)
qed

lemma stoi_show_nat: "n < 2 ^ 31 \<Longrightarrow> stoi (show_nat n) = Inr (int n)"
proof -
  assume n: "n < 2 ^ 31"
  have "show_nat n \<noteq> []" "\<not> is_space (hd (show_nat n))"
    using show_nat_hd_digit digit_not_space by simp_all
  then have s: "dropWhile is_space (show_nat n) = show_nat n" by (simp add: dropWhile_eq_self_iff)
  have t: "takeWhile is_digit (show_nat n) = show_nat n"
    using digits_field(1) [OF show_nat_digits, of "[]"] by simp
  have sgn: "read_sign (show_nat n) = (False, show_nat n)"
    using read_sign_digits [OF show_base_ne show_nat_hd_digit, of n "[]"] by simp
  show "stoi (show_nat n) = Inr (int n)"
    unfolding stoi_def s sgn prod.case Let_def t using n by (simp add: show_base_value)
qed

lemma parse_peers_texts: "parse_peers (map peer_text ps) acc = Inr (acc @ ps)"
proof (induction ps arbitrary: acc)
  case (Cons p ps)
  have "unat (pa_port p) < 2 ^ 31" using unsigned_less [where ?'a = nat, of "pa_port p"] by simp
  then show ?case
    using Cons by (simp add: split_peer_text stoi_show_nat to_u16_def)
qed simp

lemma peers_text_empty: "peers_text ps = [] \<longleftrightarrow> ps = []"
  by (cases ps rule: peers_text.cases) (simp_all add: peer_text_def)

text \<open>Numbers as text, with their sign.\<close>

lemma stoi_show_int:
  assumes "- (2 ^ 31) \<le> i" and "i < 2 ^ 31"
  shows "stoi (show_int i) = Inr i"
proof (cases "i < 0")
  case True
  have s: "dropWhile is_space (show_int i) = show_int i" using True by (simp add: show_int_def is_space_def)
  have t: "takeWhile is_digit (show_nat (nat (- i))) = show_nat (nat (- i))"
    using digits_field(1) [OF show_nat_digits, of "[]"] by simp
  have "read_sign (show_int i) = (True, show_nat (nat (- i)))" using True by (simp add: show_int_def read_sign_def)
  then show ?thesis using True assms unfolding stoi_def s by (simp add: t show_base_value)
next
  case False
  then have "nat i < 2 ^ 31" using assms(2) by simp
  then show ?thesis using False stoi_show_nat [of "nat i"] by (simp add: show_int_def)
qed

section \<open>A configuration as an environment\<close>

text \<open>The environment that sets every variable; the ports are any numbers that \<^verbatim>\<open>int\<close> holds.\<close>

definition env_of :: "int \<Rightarrow> int \<Rightarrow> config \<Rightarrow> string \<Rightarrow> string option" where
  "env_of udp tcp cfg =
     [''NODE_ID'' \<mapsto> cfg_node_id cfg, ''BIND_HOST'' \<mapsto> bind_host cfg, ''UDP_PORT'' \<mapsto> show_int udp, ''TCP_PORT'' \<mapsto> show_int tcp,
      ''SEED_PEERS'' \<mapsto> peers_text (seed_peers cfg), ''GOSSIP_INTERVAL_MS'' \<mapsto> show_int (cfg_gossip_interval_ms cfg),
      ''HEARTBEAT_INTERVAL_MS'' \<mapsto> show_int (cfg_heartbeat_interval_ms cfg),
      ''PEER_TIMEOUT_MS'' \<mapsto> show_int (cfg_peer_timeout_ms cfg), ''GOSSIP_STRATEGY'' \<mapsto> cfg_gossip_strategy cfg]"

text \<open>What a configuration is when only the variables of \<open>V\<close> are set.\<close>

definition set_or_default :: "string set \<Rightarrow> int \<Rightarrow> int \<Rightarrow> config \<Rightarrow> config" where
  "set_or_default V udp tcp cfg =
     \<lparr>cfg_node_id = (if ''NODE_ID'' \<in> V then cfg_node_id cfg else ''node-standalone''),
      bind_host = (if ''BIND_HOST'' \<in> V then bind_host cfg else ''0.0.0.0''),
      udp_port = (if ''UDP_PORT'' \<in> V then word_of_int (udp mod 65536) else 7000),
      tcp_port = (if ''TCP_PORT'' \<in> V then word_of_int (tcp mod 65536) else 8000),
      seed_peers = (if ''SEED_PEERS'' \<in> V then seed_peers cfg else []),
      cfg_gossip_interval_ms = (if ''GOSSIP_INTERVAL_MS'' \<in> V then cfg_gossip_interval_ms cfg else 100),
      cfg_heartbeat_interval_ms = (if ''HEARTBEAT_INTERVAL_MS'' \<in> V then cfg_heartbeat_interval_ms cfg else 500),
      cfg_peer_timeout_ms = (if ''PEER_TIMEOUT_MS'' \<in> V then cfg_peer_timeout_ms cfg else 2000),
      cfg_gossip_strategy = (if ''GOSSIP_STRATEGY'' \<in> V then cfg_gossip_strategy cfg else ''RANDOM'')\<rparr>"

abbreviation int_value :: "int \<Rightarrow> bool" where
  "int_value i \<equiv> - (2 ^ 31) \<le> i \<and> i < 2 ^ 31"

definition writable :: "config \<Rightarrow> bool" where
  "writable cfg \<longleftrightarrow> list_all (\<lambda>p. CHR '','' \<notin> set (pa_host p)) (seed_peers cfg) \<and> int_value (cfg_gossip_interval_ms cfg) \<and>
     int_value (cfg_heartbeat_interval_ms cfg) \<and> int_value (cfg_peer_timeout_ms cfg)"

lemma get_env_set: "env name = Some v \<Longrightarrow> get_env (env |` V) name d = (if name \<in> V then v else d)"
  by (simp add: get_env_def restrict_map_def)

lemma get_env_int_set:
  "env name = Some (show_int i) \<Longrightarrow> int_value i \<Longrightarrow> get_env_int (env |` V) name d = Inr (if name \<in> V then i else d)"
  by (simp add: get_env_int_def restrict_map_def stoi_show_int)

lemma env_of_values:
  "env_of udp tcp cfg ''NODE_ID'' = Some (cfg_node_id cfg)" "env_of udp tcp cfg ''BIND_HOST'' = Some (bind_host cfg)"
  "env_of udp tcp cfg ''UDP_PORT'' = Some (show_int udp)" "env_of udp tcp cfg ''TCP_PORT'' = Some (show_int tcp)"
  "env_of udp tcp cfg ''SEED_PEERS'' = Some (peers_text (seed_peers cfg))"
  "env_of udp tcp cfg ''GOSSIP_INTERVAL_MS'' = Some (show_int (cfg_gossip_interval_ms cfg))"
  "env_of udp tcp cfg ''HEARTBEAT_INTERVAL_MS'' = Some (show_int (cfg_heartbeat_interval_ms cfg))"
  "env_of udp tcp cfg ''PEER_TIMEOUT_MS'' = Some (show_int (cfg_peer_timeout_ms cfg))"
  "env_of udp tcp cfg ''GOSSIP_STRATEGY'' = Some (cfg_gossip_strategy cfg)"
  by (simp_all add: env_of_def)

lemma peers_read:
  assumes "list_all (\<lambda>p. CHR '','' \<notin> set (pa_host p)) ps"
  shows "(if peers_text ps = [] then Inr [] else parse_peers (getlines (CHR '','') [] (peers_text ps)) []) = Inr ps"
  using parse_peers_texts [of ps "[]"] by (simp add: getlines_peers [OF assms] peers_text_empty)

lemma to_u16_mod: "to_u16 i = word_of_int (i mod 65536)"
  by (simp add: to_u16_def word_of_int_eq_iff take_bit_eq_mod)



section \<open>Environments that end the program\<close>

definition bad_number :: "(string \<Rightarrow> string option) \<Rightarrow> string \<Rightarrow> bool" where
  "bad_number env name \<longleftrightarrow> (\<exists>v. env name = Some v \<and> isl (stoi v))"

definition bad_peer :: "string \<Rightarrow> bool" where
  "bad_peer peer \<longleftrightarrow> (\<exists>h p. split_last_colon peer = Some (h, p) \<and> isl (stoi p))"

lemma isl_parse_peers: "isl (parse_peers ps acc) \<longleftrightarrow> (\<exists>peer \<in> set ps. bad_peer peer)"
  by (induction ps arbitrary: acc) (auto simp: bad_peer_def split: option.splits sum.splits)

lemma isl_get_env_int: "isl (get_env_int env name v) \<longleftrightarrow> bad_number env name"
  by (auto simp: get_env_int_def bad_number_def split: option.splits)

lemma isl_rbind: "isl (rbind m f) \<longleftrightarrow> isl m \<or> isl (f (projr m))"
  by (cases m) simp_all

text \<open>Reading the configuration ends in an exception exactly when one of the five numeric
  variables is set to something that does not start with a number of 32 bits, or a seed peer has a
  colon and what follows its last colon is no such number; pieces without a colon are skipped.\<close>
theorem config_refused:
  "isl (from_env env) \<longleftrightarrow>
    (\<exists>name \<in> {''UDP_PORT'', ''TCP_PORT'', ''GOSSIP_INTERVAL_MS'', ''HEARTBEAT_INTERVAL_MS'', ''PEER_TIMEOUT_MS''}.
       bad_number env name) \<or>
    (\<exists>peer \<in> set (getlines (CHR '','') [] (get_env env ''SEED_PEERS'' [])). bad_peer peer)"
proof -
  have "isl (if s = [] then Inr [] else parse_peers (getlines (CHR '','') [] s) []) \<longleftrightarrow>
      (\<exists>peer \<in> set (getlines (CHR '','') [] s). bad_peer peer)" for s
    by (simp add: isl_parse_peers)
  then show ?thesis
    unfolding from_env_def Let_def isl_rbind isl_get_env_int by (auto simp only: sum.disc insert_iff empty_iff bex_simps)
qed

end
