(* ===== verification/Uuid.thy ===== *)
theory Uuid
  imports Text_Format
begin

text \<open>
  The generator of order and operation ids (\<^verbatim>\<open>util/uuid.cpp\<close>). The six draws of the
  random generator are arguments; the text is the usual five groups of hexadecimal digits with the
  version and the variant set.
\<close>

definition hex :: "nat \<Rightarrow> nat \<Rightarrow> string" where
  "hex w n = pad0 w (show_base 16 n)"

definition generate_uuid :: "u32 \<Rightarrow> u32 \<Rightarrow> u32 \<Rightarrow> u32 \<Rightarrow> u32 \<Rightarrow> u32 \<Rightarrow> string" where
  "generate_uuid r1 r2 r3 r4 r5 r6 =
     (let a = r1;
          b = ucast r2 :: u16;
          c = ucast (or (and r3 0x0FFF) 0x4000) :: u16;
          d = ucast (or (and r4 0x3FFF) 0x8000) :: u16;
          e1 = ucast r5 :: u16;
          e2 = r6
      in hex 8 (unat a) @ ''-'' @ hex 4 (unat b) @ ''-'' @ hex 4 (unat c) @ ''-'' @ hex 4 (unat d) @ ''-'' @
         hex 4 (unat e1) @ hex 8 (unat e2))"

lemma hex_length: "n < 16 ^ w \<Longrightarrow> 0 < w \<Longrightarrow> length (hex w n) = w"
  unfolding hex_def by (intro pad0_length show_base_length) simp_all

lemma hex_inject: "hex w n = hex w m \<longleftrightarrow> n = m"
proof
  assume "hex w n = hex w m"
  then have "digits_value 16 (hex w n) = digits_value 16 (hex w m)" by simp
  then show "n = m" by (simp add: hex_def show_base_value)
qed simp

lemma hex_lengths:
  "length (hex 8 (unat (x :: u32))) = 8" "length (hex 4 (unat (y :: u16))) = 4"
  using unsigned_less [of x] unsigned_less [of y] by (intro hex_length; simp)+

lemma hex_hd: "16 ^ 3 * k \<le> n \<Longrightarrow> n < 16 ^ 3 * (k + 1) \<Longrightarrow> 0 < k \<Longrightarrow> k < 16 \<Longrightarrow> hd (hex 4 n) = digit_char k"
proof -
  assume k: "16 ^ 3 * k \<le> n" "n < 16 ^ 3 * (k + 1)" "0 < k" "k < 16"
  have q: "n div 4096 = k" by (rule div_nat_eqI) (use k in simp_all)
  have "4096 \<le> n" using k(1,3) by simp
  then have big: "16 \<le> n" "16 \<le> n div 16" "16 \<le> n div 16 div 16"
    by (simp_all add: less_eq_div_iff_mult_less_eq)
  have "show_base 16 n = show_base 16 (n div 16 div 16 div 16) @
      [digit_char (n div 16 div 16 mod 16), digit_char (n div 16 mod 16), digit_char (n mod 16)]"
    using big by (simp add: show_base.simps [of 16 n] show_base.simps [of 16 "n div 16"]
        show_base.simps [of 16 "n div 16 div 16"])
  also have "n div 16 div 16 div 16 = k" using q by (simp add: div_mult2_eq [symmetric])
  also have "show_base 16 k = [digit_char k]" using k(4) by (simp add: show_base.simps)
  finally show ?thesis by (simp add: hex_def pad0_def)
qed

lemma low_bits_eq:
  fixes x y :: u32
  assumes "k \<le> 32" shows "and x (mask k) = and y (mask k) \<longleftrightarrow> (\<forall>n < k. bit x n = bit y n)"
proof
  assume eq: "and x (mask k) = and y (mask k)"
  show "\<forall>n < k. bit x n = bit y n"
  proof (intro allI impI)
    fix n assume "n < k"
    then show "bit x n = bit y n"
      using arg_cong [OF eq, of "\<lambda>w. bit w n"] assms by (simp add: bit_simps)
  qed
next
  assume "\<forall>n < k. bit x n = bit y n"
  then show "and x (mask k) = and y (mask k)" by (intro bit_eqI) (auto simp: bit_simps)
qed

lemma ucast_eq:
  fixes x y :: u32
  shows "(ucast x :: u16) = ucast y \<longleftrightarrow> (\<forall>n < 16. bit x n = bit y n)"
proof
  assume eq: "(ucast x :: u16) = ucast y"
  show "\<forall>n < 16. bit x n = bit y n"
  proof (intro allI impI)
    fix n :: nat assume "n < 16"
    then show "bit x n = bit y n"
      using arg_cong [OF eq, of "\<lambda>w. bit w n"] by (simp add: bit_simps)
  qed
next
  assume "\<forall>n < 16. bit x n = bit y n"
  then show "(ucast x :: u16) = ucast y" by (intro bit_eqI) (auto simp: bit_simps)
qed

text \<open>A field that keeps \<open>k\<close> bits and sets one above them.\<close>

lemma masked_eq:
  fixes x y :: u32
  assumes "k \<le> j" and "j < 16"
  shows "(ucast (or (and x (mask k)) (push_bit j 1)) :: u16) = ucast (or (and y (mask k)) (push_bit j 1)) \<longleftrightarrow>
    and x (mask k) = and y (mask k)"
proof -
  have "bit (or (and x (mask k)) (push_bit j 1)) n = (n < k \<and> bit x n \<or> n = j)" if "n < 16" for n and x :: u32
    using that assms by (auto simp: bit_simps)
  then have "(ucast (or (and x (mask k)) (push_bit j 1)) :: u16) = ucast (or (and y (mask k)) (push_bit j 1)) \<longleftrightarrow>
      (\<forall>n < 16. (n < k \<and> bit x n \<or> n = j) = (n < k \<and> bit y n \<or> n = j))"
    by (simp add: ucast_eq)
  also have "\<dots> \<longleftrightarrow> (\<forall>n < k. bit x n = bit y n)"
  proof
    assume *: "\<forall>n < 16. (n < k \<and> bit x n \<or> n = j) = (n < k \<and> bit y n \<or> n = j)"
    show "\<forall>n < k. bit x n = bit y n"
    proof (intro allI impI)
      fix n assume "n < k"
      with assms have "n < 16" "n \<noteq> j" by simp_all
      with * \<open>n < k\<close> show "bit x n = bit y n" by blast
    qed
  qed blast
  also have "\<dots> \<longleftrightarrow> and x (mask k) = and y (mask k)"
    by (rule low_bits_eq [symmetric]) (use assms in simp)
  finally show ?thesis .
qed

lemma uuid_masks:
  "(0xFFFF :: u32) = mask 16" "(0x0FFF :: u32) = mask 12" "(0x3FFF :: u32) = mask 14"
  "(0x4000 :: u32) = push_bit 14 1" "(0x8000 :: u32) = push_bit 15 1"
  by (simp_all add: mask_eq_exp_minus_1)

text \<open>Two generated ids are the same text exactly when the two runs of draws agree on the
  122 bits the format keeps: all of the first and last draw, the low 16 bits of the second and
  fifth, 12 of the third and 14 of the fourth.\<close>
theorem uuid_faithful:
  "generate_uuid r1 r2 r3 r4 r5 r6 = generate_uuid s1 s2 s3 s4 s5 s6 \<longleftrightarrow>
    r1 = s1 \<and> and r2 0xFFFF = and s2 0xFFFF \<and> and r3 0x0FFF = and s3 0x0FFF \<and>
    and r4 0x3FFF = and s4 0x3FFF \<and> and r5 0xFFFF = and s5 0xFFFF \<and> r6 = s6"
proof -
  have w: "unat x = unat y \<longleftrightarrow> x = y" for x y :: "'a::len word" by (simp add: word_unat_eq_iff)
  have u: "(ucast x :: u16) = ucast y \<longleftrightarrow> and x (mask 16) = and y (mask 16)" for x y :: u32
    by (simp add: ucast_eq low_bits_eq)
  have m: "(ucast (or (and x (mask 12)) (push_bit 14 1)) :: u16) = ucast (or (and y (mask 12)) (push_bit 14 1)) \<longleftrightarrow>
      and x (mask 12) = and y (mask 12)"
    "(ucast (or (and x (mask 14)) (push_bit 15 1)) :: u16) = ucast (or (and y (mask 14)) (push_bit 15 1)) \<longleftrightarrow>
      and x (mask 14) = and y (mask 14)" for x y :: u32
    by (rule masked_eq; simp)+
  show ?thesis
    unfolding generate_uuid_def Let_def uuid_masks
    by (simp only: append_eq_append_conv hex_lengths append.simps list.inject hex_inject w m simp_thms)
       (simp only: u)
qed

section \<open>The format\<close>

lemma masked_value:
  fixes x :: u32
  assumes "k \<le> j" and "j < 16"
  shows "unat (ucast (or (and x (mask k)) (push_bit j 1)) :: u16) = take_bit k (unat x) + 2 ^ j"
proof -
  have t: "take_bit k (unat x) < 2 ^ j" using assms(1) by (meson take_bit_nat_less_exp order_less_le_trans power_increasing one_le_numeral)
  have j: "(2::nat) ^ j \<le> 2 ^ 15" using assms(2) by (intro power_increasing) simp_all
  have p: "unat (push_bit j 1 :: u32) = 2 ^ j"
    using assms(2) j by (simp add: unsigned_push_bit_eq take_bit_nat_eq_self del: push_bit_of_1)
  have "or (and x (mask k)) (push_bit j 1) = take_bit k x + push_bit j 1"
    unfolding take_bit_eq_mask
    by (rule disjunctive_add [symmetric]) (use assms in \<open>auto simp: bit_simps\<close>)
  moreover have "unat (take_bit k x + push_bit j 1) = take_bit k (unat x) + 2 ^ j"
    using t j by (subst unat_add_lem [THEN iffD1]) (simp_all add: p unsigned_take_bit_eq del: push_bit_of_1)
  ultimately show ?thesis
    using t j by (simp add: unsigned_ucast_eq take_bit_nat_eq_self del: push_bit_of_1)
qed

lemma nth_hd: "hd s = c \<Longrightarrow> s \<noteq> [] \<Longrightarrow> s ! 0 = c"
  by (simp add: hd_conv_nth)

text \<open>A generated id has the 36 characters of a version 4 id: dashes behind the 8th, 13th,
  18th and 23rd, the digit 4 at the start of the third group and one of 8, 9, a, b at the start of
  the fourth.\<close>
theorem uuid_format:
  "length (generate_uuid r1 r2 r3 r4 r5 r6) = 36 \<and>
    map (\<lambda>i. generate_uuid r1 r2 r3 r4 r5 r6 ! i) [8, 13, 18, 23] = ''----'' \<and>
    generate_uuid r1 r2 r3 r4 r5 r6 ! 14 = CHR ''4'' \<and>
    generate_uuid r1 r2 r3 r4 r5 r6 ! 19 \<in> {CHR ''8'', CHR ''9'', CHR ''a'', CHR ''b''}"
proof -
  define a where "a = hex 8 (unat r1)"
  define b where "b = hex 4 (unat (ucast r2 :: u16))"
  define c where "c = hex 4 (unat (ucast (or (and r3 0x0FFF) 0x4000) :: u16))"
  define d where "d = hex 4 (unat (ucast (or (and r4 0x3FFF) 0x8000) :: u16))"
  define e where "e = hex 4 (unat (ucast r5 :: u16)) @ hex 8 (unat r6)"
  have len: "length a = 8" "length b = 4" "length c = 4" "length d = 4" "length e = 12"
    by (simp_all add: a_def b_def c_def d_def e_def hex_lengths)
  have s: "generate_uuid r1 r2 r3 r4 r5 r6 = a @ ''-'' @ b @ ''-'' @ c @ ''-'' @ d @ ''-'' @ e"
    by (simp add: generate_uuid_def a_def b_def c_def d_def e_def)
  have "take_bit 12 (unat r3) < 2 ^ 12" by (rule take_bit_nat_less_exp)
  then have "hd c = digit_char 4"
    unfolding c_def uuid_masks by (intro hex_hd) (simp_all add: masked_value del: push_bit_of_1)
  moreover have "digit_char 4 = CHR ''4''" by code_simp
  ultimately have c: "c ! 0 = CHR ''4''" using len by (intro nth_hd) auto
  define v where "v = take_bit 14 (unat r4) div 4096"
  have "take_bit 14 (unat r4) < 2 ^ 14" by (rule take_bit_nat_less_exp)
  then have v: "v < 4" by (simp add: v_def less_mult_imp_div_less)
  have "4096 * v \<le> take_bit 14 (unat r4)" "take_bit 14 (unat r4) < 4096 * (v + 1)"
    unfolding v_def by (simp_all add: mult.commute dividend_less_times_div)
  then have "hd d = digit_char (8 + v)"
    unfolding d_def uuid_masks
    by (intro hex_hd) (use v in \<open>simp_all add: masked_value del: push_bit_of_1\<close>)
  moreover have "digit_char (8 + v) \<in> {CHR ''8'', CHR ''9'', CHR ''a'', CHR ''b''}"
  proof -
    have "v \<in> {0, 1, 2, 3}" using v by auto
    moreover have "digit_char 8 = CHR ''8''" "digit_char 9 = CHR ''9''" "digit_char 10 = CHR ''a''"
      "digit_char 11 = CHR ''b''" by code_simp+
    ultimately show ?thesis by auto
  qed
  ultimately have d: "d ! 0 \<in> {CHR ''8'', CHR ''9'', CHR ''a'', CHR ''b''}"
    using nth_hd [of d] len by fastforce
  show ?thesis using len c d by (simp add: s nth_append)
qed

end
