(* ===== verification/Logger.thy ===== *)
theory Logger
  imports Text_Fields
begin

text \<open>
  The logger (\<^verbatim>\<open>util/logger.h\<close>): levels in their order, a threshold, and the line of JSON
  text written for a message at or above it. The clock is an argument, the line written is the
  result.
\<close>

section \<open>Levels\<close>

datatype log_level = DEBUG | INFO | WARN | ERROR

fun level_rank :: "log_level \<Rightarrow> nat" where
  "level_rank DEBUG = 0"
| "level_rank INFO = 1"
| "level_rank WARN = 2"
| "level_rank ERROR = 3"

lemma level_rank_inject: "level_rank a = level_rank b \<longleftrightarrow> a = b"
  by (cases a; cases b) simp_all

instantiation log_level :: linorder
begin

definition less_eq_log_level :: "log_level \<Rightarrow> log_level \<Rightarrow> bool" where
  "less_eq_log_level a b \<longleftrightarrow> level_rank a \<le> level_rank b"

definition less_log_level :: "log_level \<Rightarrow> log_level \<Rightarrow> bool" where
  "less_log_level a b \<longleftrightarrow> level_rank a < level_rank b"

instance
  by standard (auto simp: less_eq_log_level_def less_log_level_def level_rank_inject)

end

fun level_str :: "log_level \<Rightarrow> string" where
  "level_str DEBUG = ''DEBUG''"
| "level_str INFO = ''INFO''"
| "level_str WARN = ''WARN''"
| "level_str ERROR = ''ERROR''"

section \<open>The logger\<close>

record logger =
  log_node :: string
  log_threshold :: log_level

definition new_logger :: logger where
  "new_logger = \<lparr>log_node = ''unknown'', log_threshold = INFO\<rparr>"

definition set_node_id :: "logger \<Rightarrow> string \<Rightarrow> logger" where
  "set_node_id lg nid = lg\<lparr>log_node := nid\<rparr>"

definition set_level :: "logger \<Rightarrow> log_level \<Rightarrow> logger" where
  "set_level lg l = lg\<lparr>log_threshold := l\<rparr>"

abbreviation dquote :: string where
  "dquote \<equiv> [char_of (34 :: nat)]"

definition log_line :: "int \<Rightarrow> string \<Rightarrow> log_level \<Rightarrow> string \<Rightarrow> string" where
  "log_line millis node l msg =
     ''{'' @ dquote @ ''ts'' @ dquote @ '':'' @ show_int millis @
     '','' @ dquote @ ''node'' @ dquote @ '':'' @ dquote @ node @
     dquote @ '','' @ dquote @ ''level'' @ dquote @ '':'' @ dquote @ level_str l @
     dquote @ '','' @ dquote @ ''msg'' @ dquote @ '':'' @ dquote @ msg @ dquote @ ''}'' @ [char_of (10 :: nat)]"

definition log_msg :: "logger \<Rightarrow> int \<Rightarrow> log_level \<Rightarrow> string \<Rightarrow> string list" where
  "log_msg lg millis l msg =
     (if l < log_threshold lg then [] else [log_line millis (log_node lg) l msg])"

section \<open>Lines\<close>

text \<open>A text up to a quote is recovered from what starts with it.\<close>

lemma quoted_inject:
  assumes "char_of (34 :: nat) \<notin> set a" and "char_of (34 :: nat) \<notin> set b"
    and "a @ char_of (34 :: nat) # r = b @ char_of (34 :: nat) # s"
  shows "a = b \<and> r = s"
proof -
  let ?P = "\<lambda>c. c \<noteq> char_of (34 :: nat)"
  have "takeWhile ?P (a @ char_of (34 :: nat) # r) = a" "takeWhile ?P (b @ char_of (34 :: nat) # s) = b"
    by (rule takeWhile_prefix; use assms(1,2) in \<open>auto simp: list_all_iff\<close>)+
  with assms(3) show ?thesis by simp
qed

lemma show_int_comma: "CHR '','' \<notin> set (show_int i)"
  using show_nat_digits [of "nat i"] show_nat_digits [of "nat (- i)"]
  by (auto simp: show_int_def list_all_iff is_digit_def)

lemma show_int_inject: "show_int i = show_int j \<Longrightarrow> i = j"
  by (rule text_field.sh_inject [OF read_int_field, of "min i j" i "max i j" j]) simp_all

lemma level_str_inject: "level_str a = level_str b \<longleftrightarrow> a = b"
  by (cases a; cases b) simp_all

lemma level_str_quote: "char_of (34 :: nat) \<notin> set (level_str l)"
proof -
  have "char_of (34 :: nat) \<notin> set ''DEBUGINFOWARNERROR''" by code_simp
  then show ?thesis by (cases l) simp_all
qed

lemma log_line_inject:
  assumes eq: "log_line t n l m = log_line t' n' l' m'"
    and q: "char_of (34 :: nat) \<notin> set n" "char_of (34 :: nat) \<notin> set n'"
  shows "t = t' \<and> n = n' \<and> l = l' \<and> m = m'"
proof -
  let ?r = "\<lambda>n l m. dquote @ ''node'' @ dquote @ '':'' @ dquote @ n @
     dquote @ '','' @ dquote @ ''level'' @ dquote @ '':'' @ dquote @ level_str l @
     dquote @ '','' @ dquote @ ''msg'' @ dquote @ '':'' @ dquote @ m @ dquote @ ''}'' @ [char_of (10 :: nat)]"
  let ?P = "\<lambda>c. c \<noteq> CHR '',''"
  have split: "show_int t @ CHR '','' # ?r n l m = show_int t' @ CHR '','' # ?r n' l' m'"
    using eq by (simp add: log_line_def)
  have "takeWhile ?P (show_int t @ CHR '','' # ?r n l m) = show_int t" for t n l m
    by (rule takeWhile_prefix) (use show_int_comma [of t] in \<open>auto simp: list_all_iff\<close>)
  then have t: "show_int t = show_int t'" using split by metis
  with split have "n @ char_of (34 :: nat) # ('','' @ dquote @ ''level'' @ dquote @ '':'' @ dquote @ level_str l @
      dquote @ '','' @ dquote @ ''msg'' @ dquote @ '':'' @ dquote @ m @ dquote @ ''}'' @ [char_of (10 :: nat)]) =
    n' @ char_of (34 :: nat) # ('','' @ dquote @ ''level'' @ dquote @ '':'' @ dquote @ level_str l' @
      dquote @ '','' @ dquote @ ''msg'' @ dquote @ '':'' @ dquote @ m' @ dquote @ ''}'' @ [char_of (10 :: nat)])"
    by simp
  from quoted_inject [OF q this] have n: "n = n'"
    and "level_str l @ char_of (34 :: nat) # ('','' @ dquote @ ''msg'' @ dquote @ '':'' @ dquote @ m @ dquote @ ''}'' @
      [char_of (10 :: nat)]) =
    level_str l' @ char_of (34 :: nat) # ('','' @ dquote @ ''msg'' @ dquote @ '':'' @ dquote @ m' @ dquote @ ''}'' @
      [char_of (10 :: nat)])"
    by simp_all
  from quoted_inject [OF level_str_quote level_str_quote this(2)] show ?thesis
    using show_int_inject [OF t] n by (simp add: level_str_inject)
qed

text \<open>A message is logged exactly when its level is not below the threshold, as one line; and
  as long as the ids of nodes contain no quote, that line determines the time, the node, the level
  and the message.\<close>
theorem log_line_unambiguous:
  assumes "char_of (34 :: nat) \<notin> set (log_node lg)" and "char_of (34 :: nat) \<notin> set (log_node lg')"
    and "log_msg lg t l m = log_msg lg' t' l' m'"
  shows "(log_msg lg t l m = [] \<longleftrightarrow> l < log_threshold lg) \<and>
    (l < log_threshold lg \<longleftrightarrow> l' < log_threshold lg') \<and>
    (l < log_threshold lg \<or> t = t' \<and> log_node lg = log_node lg' \<and> l = l' \<and> m = m')"
  using log_line_inject [of t "log_node lg" l m t' "log_node lg'" l' m'] assms
  by (auto simp: log_msg_def split: if_splits)

theorem log_line_unambiguous_witness:
  "log_msg (set_node_id new_logger ''a'') 5 WARN ''x'' \<noteq> log_msg (set_node_id new_logger ''a'') 6 WARN ''x''"
proof
  have q: "char_of (34 :: nat) \<notin> set (log_node (set_node_id new_logger ''a''))"
    unfolding set_node_id_def by code_simp
  assume "log_msg (set_node_id new_logger ''a'') 5 WARN ''x'' = log_msg (set_node_id new_logger ''a'') 6 WARN ''x''"
  from log_line_unambiguous [OF q q this] show False
    by (simp add: set_node_id_def new_logger_def less_log_level_def)
qed

end
