(* ===== verification/Node.thy ===== *)
theory Node
  imports TcpServer ClientHandler Gossip Config
begin

text \<open>
  One running node (\<^verbatim>\<open>main.cpp\<close>): how the configuration sets up the engine, and the
  request handler, which answers \<^verbatim>\<open>PEERS\<close> from the engine's table and leaves everything
  else to the client handler. The state of a node is its engine, which holds the replicated book.
\<close>

section \<open>Starting\<close>

definition peers_of_config :: "int \<Rightarrow> peer_addr list \<Rightarrow> peer_info list" where
  "peers_of_config now addrs =
     map (\<lambda>pa. \<lparr>peer_node = pa_host pa, peer_host = pa_host pa, peer_port = pa_port pa, is_alive = True,
            last_heard = now\<rparr>) addrs"

definition strategy_of_config :: "string \<Rightarrow> gossip_strategy" where
  "strategy_of_config s =
     (if s = ''WYTHOFF'' then WYTHOFF else if s = ''ROUND_ROBIN'' then ROUND_ROBIN else RANDOM)"

text \<open>The name the engine logs when it starts is the one that configures it.\<close>

definition strategy_name :: "gossip_strategy \<Rightarrow> string" where
  "strategy_name s = (case s of RANDOM \<Rightarrow> ''RANDOM'' | ROUND_ROBIN \<Rightarrow> ''ROUND_ROBIN'' | WYTHOFF \<Rightarrow> ''WYTHOFF'')"

lemma strategy_of_name: "strategy_of_config (strategy_name s) = s"
  by (cases s) (simp_all add: strategy_of_config_def strategy_name_def)

definition start_node :: "int \<Rightarrow> config \<Rightarrow> gossip_engine" where
  "start_node now cfg =
     new_engine (cfg_node_id cfg) (new_crdt (cfg_node_id cfg)) (peers_of_config now (seed_peers cfg))
       (cfg_gossip_interval_ms cfg) (cfg_heartbeat_interval_ms cfg) (cfg_peer_timeout_ms cfg)
       (strategy_of_config (cfg_gossip_strategy cfg))"

section \<open>Requests\<close>

definition show_peer :: "peer_info \<Rightarrow> string" where
  "show_peer p =
     [nl] @ peer_node p @ '' '' @ peer_host p @ '':'' @ show_nat (unat (peer_port p)) @
     '' '' @ (if is_alive p then ''ALIVE'' else ''DEAD'')"

definition peers_reply :: "gossip_engine \<Rightarrow> string" where
  "peers_reply ge =
     (let ps = get_peers ge in ''PEERS '' @ show_nat (length ps) @ concat (map show_peer ps))"

definition main_handler ::
  "double \<Rightarrow> int \<Rightarrow> order \<Rightarrow> (nat \<Rightarrow> string) \<Rightarrow> string \<Rightarrow> gossip_engine \<Rightarrow> gossip_engine \<times> string" where
  "main_handler price0 qty0 junk uuid request ge =
     (if take 5 request = ''PEERS'' then (ge, peers_reply ge)
      else let (bk, response) = handle_request price0 qty0 junk uuid request (ge_book ge)
           in (ge\<lparr>ge_book := bk\<rparr>, response))"

text \<open>A client's connection to a node.\<close>

definition serve_client ::
  "double \<Rightarrow> int \<Rightarrow> order \<Rightarrow> (nat \<Rightarrow> string) \<Rightarrow> string list \<Rightarrow> gossip_engine \<Rightarrow> gossip_engine \<times> string option" where
  "serve_client price0 qty0 junk uuid segs ge = handle_client (main_handler price0 qty0 junk uuid) segs ge"

end
