(* ===== verification/Deployment.thy ===== *)
theory Deployment
  imports Node Client_Props Gossip_System
begin

text \<open>
  A deployment: nodes with their engines, and the datagrams that have been sent. A step is a
  client's connection to a node, one iteration of a node's gossip thread, or the arrival of any
  datagram ever sent at any node, so datagrams may be lost, repeated, reordered and misdirected.
  The invariant says what every node and every datagram looks like.
\<close>

section \<open>The system\<close>

record deployment =
  nodes :: "string \<Rightarrow> gossip_engine"
  net :: "datagram set"

definition initial :: "int \<Rightarrow> (string \<Rightarrow> config) \<Rightarrow> deployment" where
  "initial now cfg = \<lparr>nodes = \<lambda>n. start_node now (cfg n), net = {}\<rparr>"

text \<open>The generated ids are short and new to the node; the unassigned fields of a cancel's order
  hold values of their types; no log outgrows a 32-bit count.\<close>

definition request_ok :: "int \<Rightarrow> order \<Rightarrow> (nat \<Rightarrow> string) \<Rightarrow> gossip_engine \<Rightarrow> bool" where
  "request_ok qty0 junk uuid ge \<longleftrightarrow>
     (\<forall>i < 2. short_string (uuid i) \<and> uuid i \<notin> seen_ops (ge_book ge) \<and> \<not> has_order (book (ge_book ge)) (uuid i)) \<and>
     fits64 qty0 \<and> order_wire_ok (default_order junk) \<and> can_tick (ge_book ge)"

abbreviation room :: "gossip_engine \<Rightarrow> bool" where
  "room ge \<equiv> length (op_log (ge_book ge)) < 2 ^ 32"

inductive deployment_step :: "string set \<Rightarrow> deployment \<Rightarrow> deployment \<Rightarrow> bool" for K where
  serve: "n \<in> K \<Longrightarrow> request_ok qty0 junk uuid (nodes s n) \<Longrightarrow>
    serve_client price0 qty0 junk uuid segs (nodes s n) = (ge', answer) \<Longrightarrow> room ge' \<Longrightarrow>
    deployment_step K s (s\<lparr>nodes := (nodes s)(n := ge')\<rparr>)"
| gossip: "n \<in> K \<Longrightarrow>
    gossip_iteration pick pick' now hb (nodes s n) = Some (ge', hb', out, ms) \<Longrightarrow>
    deployment_step K s (s\<lparr>nodes := (nodes s)(n := ge'), net := net s \<union> set out\<rparr>)"
| receive: "n \<in> K \<Longrightarrow> (h, q, bytes) \<in> net s \<Longrightarrow>
    receive_datagram (nodes s n) now bytes host port = Some (ge', out) \<Longrightarrow> room ge' \<Longrightarrow>
    deployment_step K s (s\<lparr>nodes := (nodes s)(n := ge'), net := net s \<union> set out\<rparr>)"

inductive deployed :: "string set \<Rightarrow> deployment \<Rightarrow> deployment \<Rightarrow> bool" for K s0 where
  init: "deployed K s0 s0"
| step: "deployed K s0 s \<Longrightarrow> deployment_step K s s' \<Longrightarrow> deployed K s0 s'"

section \<open>The invariant\<close>

text \<open>A deployment has at most 1024 nodes, with names a datagram has room for.\<close>

definition names_ok :: "string set \<Rightarrow> bool" where
  "names_ok K \<longleftrightarrow> finite K \<and> card K \<le> 1024 \<and> (\<forall>n \<in> K. short_string n)"

definition clock_ok :: "string set \<Rightarrow> vector_clock \<Rightarrow> bool" where
  "clock_ok K vc \<longleftrightarrow> clock_inv vc \<and> vc_node vc \<in> K \<and> fst ` set (vc_clock vc) \<subseteq> K"

definition named_op :: "string set \<Rightarrow> operation \<Rightarrow> bool" where
  "named_op K op \<longleftrightarrow> op_ok op \<and> byte_optype (optype_byte (op_type op)) = op_type op \<and>
     order_wire_ok (op_order op) \<and> short_string (cancel_order_id op) \<and> origin_node op \<in> K \<and>
     short_string (op_id op) \<and> clock_ok K (op_clock op)"

definition book_ok :: "string set \<Rightarrow> crdt_book \<Rightarrow> bool" where
  "book_ok K st \<longleftrightarrow> crdt_inv st \<and> crdt_node st \<in> K \<and> clock_ok K (clock st) \<and>
     list_all (named_op K) (op_log st) \<and> (\<forall>i. has_order (book st) i \<longrightarrow> short_string i)"

definition message_ok :: "string set \<Rightarrow> message \<Rightarrow> bool" where
  "message_ok K msg \<longleftrightarrow> byte_type (type_byte (msg_type msg)) = msg_type msg \<and> sender_id msg \<in> K \<and>
     clock_ok K (sender_clock msg) \<and> list_all (named_op K) (operations msg) \<and> length (operations msg) < 2 ^ 32"

definition engine_ok :: "string set \<Rightarrow> gossip_engine \<Rightarrow> bool" where
  "engine_ok K ge \<longleftrightarrow> book_ok K (ge_book ge) \<and> room ge \<and> ge_node ge = crdt_node (ge_book ge) \<and>
     length (peers ge) + 1 < 2 ^ 32 \<and> num_nodes (scheduler ge) = of_nat (length (peers ge) + 1) \<and>
     (peers ge = [] \<or> rr_index ge < length (peers ge))"

definition deployment_ok :: "string set \<Rightarrow> deployment \<Rightarrow> bool" where
  "deployment_ok K s \<longleftrightarrow> (\<forall>n \<in> K. engine_ok K (nodes s n) \<and> ge_node (nodes s n) = n) \<and>
     (\<forall>(h, q, bytes) \<in> net s. \<exists>msg. message_ok K msg \<and> bytes = msg_serialize msg)"

section \<open>Everything named fits on the wire\<close>

lemma entries_length:
  "list_all (\<lambda>e. short_string (fst e)) es \<Longrightarrow> length (concat (map write_entry es)) \<le> length es * 65545"
  by (induction es) (auto simp: write_entry_def write_string_def be16_def be64_def be32_def short_string_def)

lemma clock_ok_wire:
  assumes "names_ok K" and "clock_ok K vc" shows "clock_wire_ok vc"
proof -
  have K: "finite K" "card K \<le> 1024" "\<And>n. n \<in> K \<Longrightarrow> short_string n" using assms(1) by (auto simp: names_ok_def)
  have vc: "distinct (map fst (vc_clock vc))" "vc_node vc \<in> K" "fst ` set (vc_clock vc) \<subseteq> K"
    using assms(2) by (simp_all add: clock_ok_def clock_inv_def)
  have "length (vc_clock vc) = card (fst ` set (vc_clock vc))"
    using distinct_card [OF vc(1)] by simp
  also have "\<dots> \<le> card K" by (rule card_mono [OF K(1) vc(3)])
  finally have len: "length (vc_clock vc) \<le> 1024" using K(2) by simp
  have short: "list_all (\<lambda>e. short_string (fst e)) (vc_clock vc)"
    using vc(3) K(3) by (auto simp: list_all_iff)
  have "length (vc_serialize vc) \<le> 2 + length (vc_node vc) + 4 + length (vc_clock vc) * 65545"
    using entries_length [OF short] by (simp add: vc_serialize_def write_string_def be16_def be32_def)
  moreover have "length (vc_node vc) < 2 ^ 16" using K(3) [OF vc(2)] by (simp add: short_string_def)
  ultimately show ?thesis
    using len short by (simp add: clock_wire_ok_def short_string_def)
qed

lemma named_op_wire: "names_ok K \<Longrightarrow> named_op K op \<Longrightarrow> operation_wire_ok op"
  using clock_ok_wire [of K "op_clock op"] by (auto simp: named_op_def operation_wire_ok_def names_ok_def)

lemma message_ok_wire: "names_ok K \<Longrightarrow> message_ok K msg \<Longrightarrow> message_wire_ok msg"
  using clock_ok_wire [of K "sender_clock msg"] named_op_wire [of K]
  by (auto simp: message_ok_def message_wire_ok_def names_ok_def list_all_iff)

lemma keys_assign_entries:
  "fst ` set m \<subseteq> S \<Longrightarrow> fst ` set es \<subseteq> S \<Longrightarrow> fst ` set (assign_entries m es) \<subseteq> S"
  by (induction m es rule: assign_entries.induct) (simp_all add: dom_update)

lemma clock_ok_received: "clock_ok K vc \<Longrightarrow> clock_ok K (received_clock vc)"
  using clock_inv_received [of vc]
  by (simp add: clock_ok_def received_clock_def keys_assign_entries)

lemma named_op_received: "named_op K op \<Longrightarrow> named_op K (received_operation op)"
  using received_operation_ok [of op] clock_ok_received [of K "op_clock op"]
  by (auto simp: named_op_def received_operation_def received_order_def order_wire_ok_def)

lemma message_ok_received: "message_ok K msg \<Longrightarrow> message_ok K (received_message msg)"
  using named_op_received clock_ok_received
  by (auto simp: message_ok_def received_message_def list_all_iff)

section \<open>The operations of a book\<close>

lemma clock_ok_new: "n \<in> K \<Longrightarrow> clock_ok K (new_clock n)"
  using clock_inv_new [of n] by (simp add: clock_ok_def) (simp add: new_clock_def)

lemma clock_ok_tick: "clock_ok K vc \<Longrightarrow> clock_ok K (fst (tick vc))"
  using clock_inv_tick [of vc] by (auto simp: clock_ok_def tick_def Let_def dom_update)

lemma keys_merge_entries:
  "fst ` set m \<subseteq> S \<Longrightarrow> fst ` set es \<subseteq> S \<Longrightarrow> fst ` set (merge_entries m es) \<subseteq> S"
  by (induction m es rule: merge_entries.induct) (simp_all add: dom_update Let_def)

lemma clock_ok_merge: "clock_ok K vc \<Longrightarrow> clock_ok K vc' \<Longrightarrow> clock_ok K (merge vc vc')"
  using clock_inv_merge [of vc vc'] by (simp add: clock_ok_def) (simp add: merge_def keys_merge_entries)

lemma has_order_effect_new:
  "has_order (store_effect b op) i \<Longrightarrow> has_order b i \<or> op_type op = ADD_ORDER \<and> i = order_id (op_order op)"
  by (auto simp: effect_def has_order_def lookup_insert_replicated lookup_apply_cancel split: if_splits)

lemma book_ok_new: "n \<in> K \<Longrightarrow> book_ok K (new_crdt n)"
  using crdt_inv_new [of n] clock_ok_new [of n K]
  by (auto simp: book_ok_def new_crdt_def)

text \<open>The one shape of a change: the book after an operation, a later clock, the operation logged.\<close>

lemma book_ok_logged:
  assumes "book_ok K st" and "clock_ok K clk" and "named_op K op"
    and "crdt_inv (log_op op (st\<lparr>book := store_effect (book st) op, clock := clk\<rparr>))"
  shows "book_ok K (log_op op (st\<lparr>book := store_effect (book st) op, clock := clk\<rparr>))"
  using assms has_order_effect_new [of "book st" op]
  by (auto simp: book_ok_def named_op_def order_wire_ok_def)

lemma book_ok_add:
  assumes "names_ok K" and "book_ok K st" and "can_tick st" and "\<not> has_order (book st) oid"
    and "opid \<notin> seen_ops st" and "short_string oid" and "short_string opid"
    and "0 < qty" and "qty < 2 ^ 63" and "sd = BUY \<or> sd = SELL"
  shows "book_ok K (fst (local_add_order st sd pr qty oid opid))"
proof -
  let ?op = "added_op st sd pr qty oid opid"
  have st: "crdt_inv st" "clock_ok K (clock st)" "crdt_node st \<in> K" using assms(2) by (simp_all add: book_ok_def)
  have "byte_side (side_byte sd) = sd" using assms(10) by (auto simp: byte_side_def side_byte_def)
  then have "named_op K ?op"
    using added_op_ok [OF st(1) assms(8,9), of sd pr oid opid] assms(1,6-9) st(3) clock_ok_tick [OF st(2)]
    by (auto simp: named_op_def order_wire_ok_def names_ok_def fits64_def added_op_def short_string_def
        optype_byte_def byte_optype_def)
  moreover have "crdt_inv (log_op ?op (st\<lparr>book := store_effect (book st) ?op, clock := fst (tick (clock st))\<rparr>))"
    using crdt_inv_add [OF st(1) assms(3-5,8,9), of sd pr] by (simp add: local_add_order_eq [OF assms(4)] Let_def)
  ultimately show ?thesis
    using book_ok_logged [OF assms(2) clock_ok_tick [OF st(2)]]
    by (simp add: local_add_order_eq [OF assms(4)] Let_def)
qed

lemma book_ok_tick:
  "book_ok K st \<Longrightarrow> can_tick st \<Longrightarrow> book_ok K (st\<lparr>clock := fst (tick (clock st))\<rparr>)"
  using crdt_inv_tick [of st "book st"] clock_ok_tick [of K "clock st"]
  by (auto simp: book_ok_def crdt_invD(1))

lemma book_ok_cancel:
  assumes "book_ok K st" and "can_tick st" and "opid \<notin> seen_ops st" and "short_string opid"
    and "order_wire_ok (default_order junk)"
  shows "book_ok K (fst (local_cancel_order junk st oid opid))"
proof -
  let ?st1 = "st\<lparr>clock := fst (tick (clock st))\<rparr>"
  let ?op = "cancel_operation junk ?st1 oid opid"
  have st: "crdt_inv st" "clock_ok K (clock st)" "crdt_node st \<in> K" using assms(1) by (simp_all add: book_ok_def)
  have "op_ok ?op" by (rule cancel_operation_ok) (simp add: crdt_invD [OF st(1)] clock_inv_tick)
  then have "named_op K ?op" if "has_order (book st) oid"
    using that assms(1,4,5) clock_ok_tick [OF st(2)] st(3)
    by (auto simp: named_op_def cancel_operation_def book_ok_def optype_byte_def byte_optype_def)
  moreover have "crdt_inv (fst (local_cancel_order junk st oid opid))"
    by (rule crdt_inv_cancel [OF st(1) assms(2,3)])
  ultimately show ?thesis
    using assms(1) book_ok_tick [OF assms(1,2)] book_ok_logged [OF assms(1) clock_ok_tick [OF st(2)], of ?op]
    by (auto simp: local_cancel_order_eq Let_def split: if_splits)
qed

lemma book_ok_market:
  assumes "book_ok K st" and "can_tick st" and "fits64 qty"
  shows "book_ok K (fst (local_market_order junk uuid st sd qty))"
proof -
  have st: "crdt_inv st" "clock_ok K (clock st)" using assms(1) by (simp_all add: book_ok_def)
  show ?thesis
    using crdt_inv_market [OF st(1) assms(2,3), of junk uuid sd] assms(1) clock_ok_tick [OF st(2)]
      match_market_order_no_new [OF crdt_invD(1) [OF st(1)], of sd qty]
    by (auto simp: local_market_order_eq [OF crdt_invD(1) [OF st(1)] assms(3)] book_ok_def)
qed

lemma book_ok_remote:
  assumes "book_ok K st" and "named_op K op"
  shows "book_ok K (fst (apply_remote_operation st op))"
  using book_ok_logged [OF assms(1) clock_ok_merge assms(2), of "clock st" "op_clock op"]
    crdt_inv_remote [of st op] assms
  by (auto simp: apply_remote_operation_eq book_ok_def named_op_def)

lemma book_ok_operations:
  "book_ok K st \<Longrightarrow> list_all (named_op K) ops \<Longrightarrow> book_ok K (apply_operations st ops)"
  by (induction st ops rule: apply_operations.induct) (auto intro: book_ok_remote)

lemma book_ok_request:
  assumes "names_ok K" and "book_ok K (ge_book ge)" and "request_ok qty0 junk uuid ge"
  shows "book_ok K (fst (handle_request price0 qty0 junk uuid request (ge_book ge)))"
proof -
  have r: "fits64 qty0" "order_wire_ok (default_order junk)" "can_tick (ge_book ge)"
    "short_string (uuid 0)" "uuid 0 \<notin> seen_ops (ge_book ge)" "\<not> has_order (book (ge_book ge)) (uuid 0)"
    "short_string (uuid 1)" "uuid 1 \<notin> seen_ops (ge_book ge)"
    using assms(3) by (auto simp: request_ok_def)
  show ?thesis
  proof (rule request_effect [OF r(1), of price0 junk uuid request "ge_book ge"])
  qed (use assms(1,2) r book_ok_add book_ok_cancel book_ok_market in auto)
qed

end
