(* ===== verification/Deployment_Props.thy ===== *)
theory Deployment_Props
  imports Deployment
begin

text \<open>
  Every step of a deployment keeps its invariant; so no datagram ever faults a receiver, no node
  gets stuck, and a client's line has the effect it asks for.
\<close>

section \<open>What a node sends\<close>

text \<open>A message of a node: its own id and clock, and operations of its log.\<close>

definition own_message :: "gossip_engine \<Rightarrow> message \<Rightarrow> bool" where
  "own_message ge msg \<longleftrightarrow> byte_type (type_byte (msg_type msg)) = msg_type msg \<and> sender_id msg = ge_node ge \<and>
     sender_clock msg = clock (ge_book ge) \<and> set (operations msg) \<subseteq> set (op_log (ge_book ge)) \<and>
     length (operations msg) \<le> length (op_log (ge_book ge))"

definition sent_by :: "gossip_engine \<Rightarrow> datagram \<Rightarrow> bool" where
  "sent_by ge d \<longleftrightarrow> (\<exists>msg h q. own_message ge msg \<and> d = (h, q, msg_serialize msg))"

lemma known_types [simp]:
  "byte_type (type_byte GOSSIP_PUSH) = GOSSIP_PUSH" "byte_type (type_byte GOSSIP_PULL) = GOSSIP_PULL"
  "byte_type (type_byte GOSSIP_PUSH_PULL) = GOSSIP_PUSH_PULL" "byte_type (type_byte HEARTBEAT) = HEARTBEAT"
  "byte_type (type_byte ANTI_ENTROPY_REQ) = ANTI_ENTROPY_REQ"
  "byte_type (type_byte ANTI_ENTROPY_RES) = ANTI_ENTROPY_RES"
  by (simp_all add: byte_type_def type_byte_def)

lemma own_bare: "byte_type (type_byte ty) = ty \<Longrightarrow> own_message ge (bare_message ty ge)"
  by (simp add: own_message_def bare_message_def get_clock_def)

lemma own_with_operations:
  "byte_type (type_byte ty) = ty \<Longrightarrow> set ops \<subseteq> set (op_log (ge_book ge)) \<Longrightarrow>
    length ops \<le> length (op_log (ge_book ge)) \<Longrightarrow> own_message ge ((bare_message ty ge)\<lparr>operations := ops\<rparr>)"
  by (simp add: own_message_def bare_message_def get_clock_def)

lemma sent_byI: "own_message ge msg \<Longrightarrow> sent_by ge (send_message msg h q)"
  by (auto simp: sent_by_def send_message_def)

lemma recent_operations_own:
  "set (recent_operations ops) \<subseteq> set ops" "length (recent_operations ops) \<le> length ops"
  by (auto simp: recent_operations_def Let_def dest: in_set_dropD)

lemma since_own:
  "set (get_operations_since st vc) \<subseteq> set (op_log st)" "length (get_operations_since st vc) \<le> length (op_log st)"
  by (simp_all add: get_operations_since_def)

lemma own_message_ok: "engine_ok K ge \<Longrightarrow> own_message ge msg \<Longrightarrow> message_ok K msg"
  by (auto simp: engine_ok_def own_message_def message_ok_def book_ok_def list_all_iff)

lemma sent_by_ok: "engine_ok K ge \<Longrightarrow> sent_by ge (h, q, bytes) \<Longrightarrow> \<exists>msg. message_ok K msg \<and> bytes = msg_serialize msg"
  using own_message_ok by (auto simp: sent_by_def)

text \<open>Only the book and the id of a node show in what it sends.\<close>

lemma sent_by_cong: "ge_node ge' = ge_node ge \<Longrightarrow> ge_book ge' = ge_book ge \<Longrightarrow> sent_by ge' = sent_by ge"
  by (rule ext) (simp add: sent_by_def own_message_def)

lemma request_full_sync_sent: "sent_by ge (request_full_sync ge p)"
  by (simp add: request_full_sync_def sent_byI own_bare)

lemma touch_peer_length: "length (fst (touch_peer ge now sid host ps)) = length ps"
  by (induction ge now sid host ps rule: touch_peer.induct) (auto simp: Let_def split: prod.splits)

lemma touch_peer_sent: "list_all (sent_by ge) (snd (touch_peer ge now sid host ps))"
  by (induction ge now sid host ps rule: touch_peer.induct)
     (auto simp: Let_def request_full_sync_sent split: prod.splits)

section \<open>Receiving\<close>

text \<open>What handling a message leaves of the engine, and what it sends.\<close>

lemma handle_message_engine:
  assumes "handle_message ge now msg host port = (ge', out)"
  shows "ge_node ge' = ge_node ge" "length (peers ge') = length (peers ge)" "scheduler ge' = scheduler ge"
    "rr_index ge' = rr_index ge"
  using assms touch_peer_length [of ge now "sender_id msg" host "peers ge"]
  by (cases "msg_type msg"; auto simp: handle_message_def Let_def case_prod_beta)+

lemma handle_message_sent:
  assumes "handle_message ge now msg host port = (ge', out)"
  shows "list_all (\<lambda>d. sent_by ge d \<or> sent_by ge' d) out"
proof -
  define t where "t = snd (touch_peer ge now (sender_id msg) host (peers ge))"
  have t: "list_all (sent_by ge) t" unfolding t_def by (rule touch_peer_sent)
  have reply: "sent_by e (send_message ((bare_message ty e)\<lparr>operations := get_operations_since st vc\<rparr>) host port)"
    "sent_by e (send_message ((bare_message ty e)\<lparr>operations := take k (get_operations_since st vc)\<rparr>) host port)"
    if "byte_type (type_byte ty) = ty" "ge_book e = st" for e ty st vc k
    using that since_own [of st vc] set_take_subset [of k "get_operations_since st vc"]
    by (auto intro!: sent_byI own_with_operations)
  show ?thesis
    using assms t
    by (cases "msg_type msg")
       (auto simp: handle_message_def Let_def case_prod_beta t_def [symmetric] list_all_iff reply split: if_splits)
qed

lemma engine_ok_message:
  assumes "engine_ok K ge" and "message_ok K msg" and "handle_message ge now msg host port = (ge', out)"
    and "room ge'"
  shows "engine_ok K ge'"
proof -
  have "ge_book ge' = (if carries_operations (msg_type msg) then apply_operations (ge_book ge) (operations msg) else ge_book ge)"
    using handle_message_book [of ge now msg host port] assms(3) by simp
  moreover have "book_ok K (apply_operations (ge_book ge) (operations msg))"
    using assms(1,2) by (intro book_ok_operations) (simp_all add: engine_ok_def message_ok_def)
  ultimately show ?thesis
    using assms(1,4) handle_message_engine [OF assms(3)] by (auto simp: engine_ok_def)
qed

section \<open>Gossiping\<close>

lemma rr_loop_range: "rr_loop fuel ps start i = Some k \<Longrightarrow> ps \<noteq> [] \<Longrightarrow> k < length ps"
  by (induction fuel ps start i rule: rr_loop.induct) (auto simp: Let_def split: if_splits)

lemma do_gossip_round_engine:
  assumes "do_gossip_round pick ge = Some (ge', out)"
  shows "ge_node ge' = ge_node ge" "ge_book ge' = ge_book ge" "peers ge' = peers ge" "scheduler ge' = scheduler ge"
    "list_all (sent_by ge') out" "peers ge = [] \<or> rr_index ge < length (peers ge) \<Longrightarrow>
      peers ge' = [] \<or> rr_index ge' < length (peers ge')"
proof -
  obtain ge1 mode p where sel: "(case strategy ge of
              RANDOM \<Rightarrow> Some (ge, PUSH, select_random_peer pick ge)
            | ROUND_ROBIN \<Rightarrow> (let (ge', p) = select_round_robin_peer ge in Some (ge', PUSH, p))
            | WYTHOFF \<Rightarrow> select_wythoff_peer ge) = Some (ge1, mode, p)"
    using assms unfolding do_gossip_round_def by (auto split: option.splits prod.splits)
  then have ge1: "ge_node ge1 = ge_node ge" "ge_book ge1 = ge_book ge" "peers ge1 = peers ge" "scheduler ge1 = scheduler ge"
    by (auto simp: select_round_robin_peer_def select_wythoff_peer_def Let_def
        split: gossip_strategy.splits if_splits option.splits)
  have rr: "peers ge1 = [] \<or> rr_index ge1 < length (peers ge1)" if "peers ge = [] \<or> rr_index ge < length (peers ge)"
    using sel that rr_loop_range
    by (auto simp: select_round_robin_peer_def select_wythoff_peer_def Let_def
        split: gossip_strategy.splits if_splits option.splits)
  have "ge' = ge1 \<and> list_all (sent_by ge1) out"
    using assms recent_operations_own [of "op_log (ge_book ge1)"]
    unfolding do_gossip_round_def sel
    by (auto simp: send_to_peer_def get_operation_log_def intro!: sent_byI own_bare own_with_operations
        split: option.splits if_splits)
  with ge1 show "ge_node ge' = ge_node ge" "ge_book ge' = ge_book ge" "peers ge' = peers ge" "scheduler ge' = scheduler ge"
    "list_all (sent_by ge') out" "peers ge = [] \<or> rr_index ge < length (peers ge) \<Longrightarrow>
      peers ge' = [] \<or> rr_index ge' < length (peers ge')" using rr by simp_all
qed

lemma heartbeat_sent: "list_all (sent_by ge) (snd (heartbeat pick now hb ge))"
  by (auto simp: heartbeat_def send_to_peer_def intro!: sent_byI own_bare split: option.splits)

lemma gossip_iteration_engine:
  assumes "gossip_iteration pick pick' now hb ge = Some (ge', hb', out, ms)"
  shows "ge_node ge' = ge_node ge" "ge_book ge' = ge_book ge" "length (peers ge') = length (peers ge)"
    "scheduler ge' = scheduler ge" "list_all (sent_by ge') out" "peers ge = [] \<or> rr_index ge < length (peers ge) \<Longrightarrow>
      peers ge' = [] \<or> rr_index ge' < length (peers ge')"
proof -
  obtain ge1 out1 where r: "do_gossip_round pick ge = Some (ge1, out1)"
    using assms by (auto simp: gossip_iteration_def split: option.splits)
  then have ge': "ge' = check_liveness now ge1" "out = out1 @ snd (heartbeat pick' now hb ge1)"
    using assms by (auto simp: gossip_iteration_def Let_def case_prod_beta)
  note R = do_gossip_round_engine [OF r]
  have c: "ge_node (check_liveness now ge1) = ge_node ge1" "ge_book (check_liveness now ge1) = ge_book ge1"
    by (simp_all add: check_liveness_def)
  show "ge_node ge' = ge_node ge" "ge_book ge' = ge_book ge" "length (peers ge') = length (peers ge)"
    "scheduler ge' = scheduler ge" "peers ge = [] \<or> rr_index ge < length (peers ge) \<Longrightarrow>
      peers ge' = [] \<or> rr_index ge' < length (peers ge')"
    using R by (simp_all add: ge' check_liveness_def)
  show "list_all (sent_by ge') out"
    using R(5) heartbeat_sent by (simp add: ge' sent_by_cong [OF c])
qed

lemma engine_ok_gossip:
  "engine_ok K ge \<Longrightarrow> gossip_iteration pick pick' now hb ge = Some (ge', hb', out, ms) \<Longrightarrow> engine_ok K ge'"
  using gossip_iteration_engine [of pick pick' now hb ge ge' hb' out ms] by (auto simp: engine_ok_def)

section \<open>Serving clients\<close>

lemma crdt_node_cancel_filled: "crdt_node (cancel_filled junk uuid n fs st) = crdt_node st"
  by (induction junk uuid n fs st rule: cancel_filled.induct) simp_all

lemma crdt_node_request:
  assumes "fits64 qty0"
  shows "crdt_node (fst (handle_request price0 qty0 junk uuid request st)) = crdt_node st"
proof (rule request_effect [OF assms, of price0 junk uuid request st])
qed (auto simp: local_add_order_def local_cancel_order_def local_market_order_def Let_def case_prod_beta
     crdt_node_cancel_filled)

lemma main_handler_engine:
  assumes "names_ok K" and "engine_ok K ge" and "request_ok qty0 junk uuid ge"
    and "fst (main_handler price0 qty0 junk uuid request ge) = ge'" and "room ge'"
  shows "engine_ok K ge' \<and> ge_node ge' = ge_node ge \<and> ge' = ge\<lparr>ge_book := ge_book ge'\<rparr>"
proof -
  have "fits64 qty0" using assms(3) by (simp add: request_ok_def)
  then show ?thesis
    using assms(2,4,5) book_ok_request [OF assms(1) _ assms(3)] crdt_node_request
    by (auto simp: main_handler_def case_prod_beta engine_ok_def split: if_splits)
qed

lemma serve_client_engine:
  assumes "names_ok K" and "engine_ok K ge" and "request_ok qty0 junk uuid ge"
    and "serve_client price0 qty0 junk uuid segs ge = (ge', answer)" and "room ge'"
  shows "engine_ok K ge' \<and> ge_node ge' = ge_node ge \<and> ge' = ge\<lparr>ge_book := ge_book ge'\<rparr>"
  using main_handler_engine [OF assms(1-3)] assms(2,4,5)
  by (auto simp: serve_client_def handle_client_def Let_def case_prod_beta split: if_splits)

section \<open>The invariant\<close>

lemma initial_ok:
  assumes "\<forall>n \<in> K. cfg_node_id (cfg n) = n \<and> length (seed_peers (cfg n)) < 2 ^ 31"
  shows "deployment_ok K (initial now cfg)"
proof -
  have "engine_ok K (start_node now (cfg n)) \<and> ge_node (start_node now (cfg n)) = n" if "n \<in> K" for n
    using assms that book_ok_new [of n K]
    by (auto simp: engine_ok_def start_node_def new_engine_def peers_of_config_def new_crdt_def)
  then show ?thesis by (simp add: deployment_ok_def initial_def)
qed

lemma deployment_ok_step:
  assumes "names_ok K" and "deployment_ok K s" and "deployment_step K s s'"
  shows "deployment_ok K s'"
  using assms(3)
proof cases
  case (serve n qty0 junk uuid price0 segs ge' answer)
  have "engine_ok K (nodes s n)" using assms(2) serve(2) by (simp add: deployment_ok_def)
  from serve_client_engine [OF assms(1) this serve(3,4,5)] show ?thesis
    using assms(2) serve(1,2) by (auto simp: deployment_ok_def)
next
  case (gossip n pick pick' now hb ge' hb' out ms)
  have e: "engine_ok K (nodes s n)" using assms(2) gossip(2) by (simp add: deployment_ok_def)
  note e' = engine_ok_gossip [OF e gossip(3)] and G = gossip_iteration_engine [OF gossip(3)]
  then have "\<exists>msg. message_ok K msg \<and> bytes = msg_serialize msg" if "(h, q, bytes) \<in> set out" for h q bytes
    using that sent_by_ok [OF e'] by (auto simp: list_all_iff)
  then show ?thesis
    using assms(2) gossip(1,2) e' G(1) by (auto simp: deployment_ok_def)
next
  case (receive n h q bytes now host port ge' out)
  have e: "engine_ok K (nodes s n)" using assms(2) receive(2) by (simp add: deployment_ok_def)
  obtain msg where msg: "message_ok K msg" "bytes = msg_serialize msg"
    using assms(2) receive(3) by (force simp: deployment_ok_def)
  have h: "handle_message (nodes s n) now (received_message msg) host port = (ge', out)"
    using receive(4) receive_serialized [OF message_ok_wire [OF assms(1) msg(1)]] by (simp add: msg(2))
  have e': "engine_ok K ge'"
    by (rule engine_ok_message [OF e message_ok_received [OF msg(1)] h receive(5)])
  have "\<exists>msg. message_ok K msg \<and> bytes = msg_serialize msg" if "(h, q, bytes) \<in> set out" for h q bytes
    using that handle_message_sent [OF h] sent_by_ok [OF e] sent_by_ok [OF e'] by (auto simp: list_all_iff)
  then show ?thesis
    using assms(2) receive(1,2) e' handle_message_engine(1) [OF h] by (auto simp: deployment_ok_def)
qed

lemma deployed_ok:
  assumes "names_ok K" and "deployed K s0 s" and "deployment_ok K s0" shows "deployment_ok K s"
  using assms(2) by induction (use assms(1,3) deployment_ok_step in auto)

definition config_ok :: "string set \<Rightarrow> (string \<Rightarrow> config) \<Rightarrow> bool" where
  "config_ok K cfg \<longleftrightarrow> names_ok K \<and> (\<forall>n \<in> K. cfg_node_id (cfg n) = n \<and> length (seed_peers (cfg n)) < 2 ^ 31)"

lemma deployment_invariant:
  assumes "config_ok K cfg" and "deployed K (initial now0 cfg) s"
  shows "names_ok K" and "n \<in> K \<Longrightarrow> engine_ok K (nodes s n) \<and> ge_node (nodes s n) = n"
    and "(h, q, bytes) \<in> net s \<Longrightarrow> \<exists>msg. message_ok K msg \<and> bytes = msg_serialize msg"
proof -
  show K: "names_ok K" using assms(1) by (simp add: config_ok_def)
  have "deployment_ok K s"
    by (rule deployed_ok [OF K assms(2) initial_ok]) (use assms(1) in \<open>simp add: config_ok_def\<close>)
  then show "n \<in> K \<Longrightarrow> engine_ok K (nodes s n) \<and> ge_node (nodes s n) = n"
    and "(h, q, bytes) \<in> net s \<Longrightarrow> \<exists>msg. message_ok K msg \<and> bytes = msg_serialize msg"
    by (auto simp: deployment_ok_def)
qed

section \<open>The properties\<close>

text \<open>In every reachable state of a deployment, every node can read every datagram any node
  has ever sent, whoever it was for: its bytes are a message, reading them raises no exception and
  never leaves the buffer, and the node handles it.\<close>
theorem no_datagram_faults:
  assumes "config_ok K cfg" and "deployed K (initial now0 cfg) s" and "(h, q, bytes) \<in> net s" and "n \<in> K"
  shows "\<exists>msg ge' out. msg_deserialize bytes = Inr msg \<and>
    receive_datagram (nodes s n) now bytes host port = Some (ge', out)"
proof -
  obtain msg where msg: "message_ok K msg" "bytes = msg_serialize msg"
    using deployment_invariant(3) [OF assms(1-3)] by blast
  have w: "message_wire_ok msg" by (rule message_ok_wire [OF deployment_invariant(1) [OF assms(1,2)] msg(1)])
  have "msg_deserialize bytes = Inr (received_message msg)"
    using msg_round_trip [OF w, of "[]"] by (simp add: msg(2))
  moreover have "receive_datagram (nodes s n) now bytes host port =
      Some (handle_message (nodes s n) now (received_message msg) host port)"
    unfolding msg(2) by (rule receive_serialized [OF w])
  ultimately show ?thesis by (metis prod.collapse)
qed

definition pair_config :: "string \<Rightarrow> config" where
  "pair_config n = (default_config n)\<lparr>seed_peers := [\<lparr>pa_host = ''b'', pa_port = 7000\<rparr>]\<rparr>"

lemma pair_config_ok: "config_ok {''a'', ''b''} pair_config"
  by (simp add: config_ok_def names_ok_def pair_config_def default_config_def short_string_def)

lemma pair_gossips:
  obtains ge' hb' out ms d where
    "gossip_iteration (\<lambda>_. 0) (\<lambda>_. 0) 0 0 (nodes (initial 0 pair_config) ''a'') = Some (ge', hb', d # out, ms)"
  by (simp add: gossip_iteration_def do_gossip_round_def initial_def start_node_def pair_config_def default_config_def
      new_engine_def strategy_of_config_def peers_of_config_def select_random_peer_def alive_indices_def Let_def
      case_prod_beta)

theorem no_datagram_faults_witness:
  "\<exists>s d msg. deployed {''a'', ''b''} (initial 0 pair_config) s \<and> d \<in> net s \<and> msg_deserialize (snd (snd d)) = Inr msg"
proof -
  let ?i = "initial 0 pair_config"
  obtain ge' hb' out ms d where
    g: "gossip_iteration (\<lambda>_. 0) (\<lambda>_. 0) 0 0 (nodes ?i ''a'') = Some (ge', hb', d # out, ms)"
    by (rule pair_gossips)
  let ?s = "?i\<lparr>nodes := (nodes ?i)(''a'' := ge'), net := net ?i \<union> set (d # out)\<rparr>"
  have s: "deployed {''a'', ''b''} ?i ?s"
    by (rule deployed.step [OF deployed.init deployment_step.gossip [OF _ g]]) simp
  obtain h q bytes where d: "d = (h, q, bytes)" by (cases d)
  then have "(h, q, bytes) \<in> net ?s" by simp
  from no_datagram_faults [OF pair_config_ok s this] obtain msg where "msg_deserialize bytes = Inr msg" by blast
  with s d show ?thesis by (intro exI [of _ ?s] exI [of _ d] exI [of _ msg]) simp
qed

text \<open>In every reachable state every node keeps the invariant of its book, under its own
  name: sorted price levels that hold exactly the live orders, unique operation ids, and clocks
  that only count nodes of the deployment.\<close>
theorem deployed_nodes_consistent:
  assumes "config_ok K cfg" and "deployed K (initial now0 cfg) s" and "n \<in> K"
  shows "crdt_inv (ge_book (nodes s n)) \<and> ge_node (nodes s n) = n \<and> crdt_node (ge_book (nodes s n)) = n \<and>
    fst ` set (vc_clock (clock (ge_book (nodes s n)))) \<subseteq> K"
  using deployment_invariant(2) [OF assms(1,2), of n] assms(3)
  by (auto simp: engine_ok_def book_ok_def clock_ok_def)

theorem deployed_nodes_consistent_witness:
  "\<exists>s. deployed {''a'', ''b''} (initial 0 pair_config) s \<and> net s \<noteq> {} \<and> crdt_inv (ge_book (nodes s ''a''))"
proof -
  let ?i = "initial 0 pair_config"
  obtain ge' hb' out ms d where
    g: "gossip_iteration (\<lambda>_. 0) (\<lambda>_. 0) 0 0 (nodes ?i ''a'') = Some (ge', hb', d # out, ms)"
    by (rule pair_gossips)
  let ?s = "?i\<lparr>nodes := (nodes ?i)(''a'' := ge'), net := net ?i \<union> set (d # out)\<rparr>"
  have s: "deployed {''a'', ''b''} ?i ?s"
    by (rule deployed.step [OF deployed.init deployment_step.gossip [OF _ g]]) simp
  from deployed_nodes_consistent [OF pair_config_ok s] have "crdt_inv (ge_book (nodes ?s ''a''))" by blast
  with s show ?thesis by (intro exI [of _ ?s]) simp
qed

lemma gossip_defined:
  assumes "engine_ok K ge" and "round_no ge < 2 ^ 24" shows "\<exists>r. gossip_iteration pick pick' now hb ge = Some r"
proof -
  have "\<exists>x. select_wythoff_peer ge = Some x" if p: "peers ge \<noteq> []"
  proof -
    have r2: "unat (round_no ge) < 2 ^ 24" using unat_mono [OF assms(2)] by simp
    then have "unat (round_no ge) + unat (1 :: u64) < 2 ^ LENGTH(64)" by simp
    then have "unat (round_no ge + 1) = Suc (unat (round_no ge))" by (simp add: unat_add_lem [THEN iffD1])
    with r2 have rr: "0 < round_no ge + 1" "round_no ge + 1 \<le> 2 ^ 24" "round_no ge + 1 < 2 ^ 63"
      by (simp_all add: word_less_nat_alt word_le_nat_alt)
    obtain mode where mode: "get_sync_mode (round_no ge + 1) = Some mode"
      using is_in_beatty_phi_eq [OF rr(1,2)] by (auto simp: get_sync_mode_def)
    define m where "m = length (peers ge) + 1"
    have m: "num_nodes (scheduler ge) = of_nat m" "m < 2 ^ 32"
      using assms(1) by (simp_all add: engine_ok_def m_def)
    have "2 \<le> m" using p by (cases "peers ge") (simp_all add: m_def)
    then have "2 \<le> num_nodes (scheduler ge)" using m(2) by (simp add: m(1) word_le_nat_alt unat_of_nat)
    from get_pair_total [OF this rr(3)] obtain pair where "get_pair (scheduler ge) (round_no ge + 1) = Some pair" by blast
    with mode p show ?thesis by (simp add: select_wythoff_peer_def Let_def)
  qed
  moreover have "\<exists>x. select_wythoff_peer ge = Some x" if "peers ge = []"
    using that by (simp add: select_wythoff_peer_def)
  ultimately obtain x where x: "select_wythoff_peer ge = Some x" by blast
  obtain ge1 mode p where y: "(case strategy ge of
              RANDOM \<Rightarrow> Some (ge, PUSH, select_random_peer pick ge)
            | ROUND_ROBIN \<Rightarrow> (let (ge', p) = select_round_robin_peer ge in Some (ge', PUSH, p))
            | WYTHOFF \<Rightarrow> select_wythoff_peer ge) = Some (ge1, mode, p)"
    using x by (cases "strategy ge"; cases x) (auto simp: case_prod_beta)
  have "\<exists>r. do_gossip_round pick ge = Some r"
    unfolding do_gossip_round_def y by (auto split: option.splits)
  then show ?thesis by (auto simp: gossip_iteration_def Let_def case_prod_beta)
qed

text \<open>A node of a deployment never gets stuck: during its first \<open>2 ^ 24\<close> rounds every
  iteration of its gossip thread, with whatever strategy, random draws and times, runs to its end
  without undefined arithmetic and is a step the deployment can take.\<close>
theorem gossip_never_stuck:
  assumes "config_ok K cfg" and "deployed K (initial now0 cfg) s" and "n \<in> K" and "round_no (nodes s n) < 2 ^ 24"
  shows "\<exists>ge' hb' out ms. gossip_iteration pick pick' now hb (nodes s n) = Some (ge', hb', out, ms) \<and>
    deployment_step K s (s\<lparr>nodes := (nodes s)(n := ge'), net := net s \<union> set out\<rparr>)"
proof -
  have "engine_ok K (nodes s n)" using deployment_invariant(2) [OF assms(1,2)] assms(3) by blast
  from gossip_defined [OF this assms(4)] obtain r where "gossip_iteration pick pick' now hb (nodes s n) = Some r" by blast
  moreover obtain ge' hb' out ms where "r = (ge', hb', out, ms)" by (cases r)
  ultimately show ?thesis using deployment_step.gossip [OF assms(3)] by blast
qed

theorem gossip_never_stuck_witness:
  "\<exists>ge' hb' out ms. gossip_iteration (\<lambda>_. 0) (\<lambda>_. 0) 7 0 (nodes (initial 0 pair_config) ''b'') = Some (ge', hb', out, ms)"
proof -
  have "round_no (nodes (initial 0 pair_config) ''b'') < 2 ^ 24"
    by (simp add: initial_def start_node_def new_engine_def)
  from gossip_never_stuck [OF pair_config_ok deployed.init _ this] show ?thesis by blast
qed

section \<open>How an order travels\<close>

lemma has_order_apply: "has_order (book st) i \<Longrightarrow> has_order (book (apply_operations st ops)) i"
  by (induction st ops rule: apply_operations.induct) (auto simp: apply_remote_operation_eq has_order_effect)

lemma has_order_delivered:
  "op \<in> set ops \<Longrightarrow> distinct (map op_id ops) \<Longrightarrow> op_id op \<notin> seen_ops st \<Longrightarrow> op_type op = ADD_ORDER \<Longrightarrow>
    has_order (book (apply_operations st ops)) (order_id (op_order op))"
proof (induction st ops rule: apply_operations.induct)
  case (2 st o' ops)
  show ?case
  proof (cases "op = o'")
    case True
    then show ?thesis
      using 2(4,5) has_order_effect_add [of op "book st"]
      by (auto simp: apply_remote_operation_eq intro!: has_order_apply)
  next
    case False
    then have "op \<in> set ops" using 2(2) by simp
    moreover from this have "op_id op \<noteq> op_id o'" using 2(3) by (metis distinct.simps(2) image_eqI list.set_map list.simps(9))
    ultimately have "op \<in> set ops" "op_id op \<noteq> op_id o'" by simp_all
    then show ?thesis using 2 by (auto simp: apply_remote_operation_eq)
  qed
qed simp

lemma recent_distinct: "distinct (map f xs) \<Longrightarrow> distinct (map f (recent_operations xs))"
  by (simp add: recent_operations_def Let_def drop_map [symmetric] flip: drop_map)

lemma pushing_round:
  assumes "strategy ge \<noteq> WYTHOFF" and "peers ge \<noteq> []" and "rr_index ge < length (peers ge)"
  shows "\<exists>ge' i. do_gossip_round pick ge = Some (ge', [send_to_peer ge' i
      ((bare_message GOSSIP_PUSH_PULL ge')\<lparr>operations := recent_operations (op_log (ge_book ge))\<rparr>)]) \<and>
    ge_node ge' = ge_node ge \<and> ge_book ge' = ge_book ge"
proof (cases "strategy ge")
  case RANDOM
  have "\<exists>i. select_random_peer pick ge = Some i"
    using assms(2) by (simp add: select_random_peer_def Let_def)
  then obtain i where "select_random_peer pick ge = Some i" by blast
  then show ?thesis
    by (intro exI [of _ ge] exI [of _ i]) (simp add: do_gossip_round_def RANDOM get_operation_log_def)
next
  case ROUND_ROBIN
  have "(rr_index ge + 0) mod length (peers ge) = rr_index ge" using assms(3) by simp
  with rr_loop_finds [OF assms(3), of 0 "length (peers ge)"] obtain i where
    "rr_loop (length (peers ge)) (peers ge) (rr_index ge) (rr_index ge) = Some i"
    using assms(2) by auto
  then have "select_round_robin_peer ge = (ge\<lparr>rr_index := i\<rparr>, Some i)"
    using assms(2) by (simp add: select_round_robin_peer_def)
  then show ?thesis
    by (intro exI [of _ "ge\<lparr>rr_index := i\<rparr>"] exI [of _ i])
       (simp add: do_gossip_round_def ROUND_ROBIN get_operation_log_def)
next
  case WYTHOFF
  then show ?thesis using assms(1) by simp
qed


text \<open>Node a after a client has added an order to it.\<close>

definition sample_junk :: order where
  "sample_junk = sample_order ''junk'' BUY 0 0"

definition sample_ids :: "nat \<Rightarrow> string" where
  "sample_ids n = (if n = 0 then ''o'' else ''p'')"

definition served_a :: gossip_engine where
  "served_a = fst (serve_client 0 0 sample_junk sample_ids [''ADD BUY 1 2'' @ [nl]] (nodes (initial 0 pair_config) ''a''))"

lemma read_one: "read_double_text (stream_after '' 1 2'') 0 = (stream_after '' 2'', 1)"
proof -
  have "digits_value 10 ''1'' = 1" "pow10 0 = 1" by code_simp+
  moreover have "rnd 1 = 1" using rnd_representable [OF representable_of_int [of 1]] by simp
  ultimately have cd: "convert_decimal False ''1'' [] 0 = (1, False)" by (simp add: convert_decimal_def)
  have s: "sentry (stream_after '' 1 2'') = (stream_at ''1 2'', True)" by code_simp
  have "read_sign ''1 2'' = (False, ''1 2'')" "takeWhile is_digit ''1 2'' = ''1''" "dropWhile is_digit ''1 2'' = '' 2''" by code_simp+
  then have "double_field (unread (stream_at ''1 2'')) = (1, False, '' 2'')"
    by (simp add: double_field_def stream_at_def cd)
  with s show ?thesis by (simp add: read_double_text_def) (simp add: stream_after_def)
qed
lemma served_a_book:
  "ge_book served_a = fst (local_add_order (new_crdt ''a'') BUY 1 2 ''o'' ''p'')"
proof -
  let ?req = "''ADD BUY 1 2''"
  have req: "strip_line_end (read_request [] [''ADD BUY 1 2'' @ [nl]]) = ?req" by code_simp
  have t: "read_token (istringstream ?req) [] = (stream_after '' BUY 1 2'', ''ADD'')"
    "read_token (stream_after '' BUY 1 2'') [] = (stream_after '' 1 2'', ''BUY'')"
    "read_int64 (stream_after '' 2'') 0 = (stream_after [], 2)" "to_upper ''ADD'' = ''ADD''"
    "parse_side (to_upper ''BUY'') = Some BUY" by code_simp+
  have "ge_book (nodes (initial 0 pair_config) ''a'') = new_crdt ''a''"
    by (simp add: initial_def start_node_def new_engine_def pair_config_def default_config_def)
  then have "ge_book served_a = fst (handle_request 0 0 sample_junk sample_ids ?req (new_crdt ''a''))"
    unfolding served_a_def serve_client_def handle_client_def Let_def req by (simp add: main_handler_def case_prod_beta)
  also have "\<dots> = fst (local_add_order (new_crdt ''a'') BUY 1 2 ''o'' ''p'')"
    unfolding handle_request_def t(1) prod.case Let_def
    using handle_add_eq [OF t(2) read_one t(3,5)] t(4) by (simp add: sample_ids_def)
  finally show ?thesis .
qed

lemma served_a_op: "op_log (ge_book served_a) = [added_op (new_crdt ''a'') BUY 1 2 ''o'' ''p'']"
  by (simp add: served_a_book local_add_order_eq new_crdt_def has_order_def empty_book_def Let_def)

lemma served_a_log: "map op_id (op_log (ge_book served_a)) = [''p'']"
  by (simp add: served_a_op added_op_def)

lemma sample_request_ok: "request_ok 0 sample_junk sample_ids (nodes (initial 0 pair_config) n)"
  by (auto simp: request_ok_def initial_def start_node_def new_engine_def pair_config_def default_config_def
      new_crdt_def fits64_def sample_ids_def sample_junk_def short_string_def order_wire_ok_def default_order_def
      sample_order_def byte_side_def side_byte_def get_local_time_def new_clock_def entry_def)

lemma served_a_eq:
  "serve_client 0 0 sample_junk sample_ids [''ADD BUY 1 2'' @ [nl]] (nodes (initial 0 pair_config) ''a'') =
    (served_a, snd (serve_client 0 0 sample_junk sample_ids [''ADD BUY 1 2'' @ [nl]] (nodes (initial 0 pair_config) ''a'')))"
  by (simp add: served_a_def)

lemma served_a_room: "room served_a"
  using arg_cong [OF served_a_log, of length] by simp

lemma served_a_fields: "strategy served_a = RANDOM" "peers served_a \<noteq> []"
proof -
  have "deployment_ok {''a'', ''b''} (initial 0 pair_config)"
    by (rule initial_ok) (use pair_config_ok in \<open>simp add: config_ok_def\<close>)
  then have "engine_ok {''a'', ''b''} (nodes (initial 0 pair_config) ''a'')" by (simp add: deployment_ok_def)
  from serve_client_engine [OF _ this sample_request_ok served_a_eq served_a_room]
  have eq: "served_a = (nodes (initial 0 pair_config) ''a'')\<lparr>ge_book := ge_book served_a\<rparr>"
    using pair_config_ok by (simp add: config_ok_def)
  have "strategy served_a = strategy (nodes (initial 0 pair_config) ''a'')"
    "peers served_a = peers (nodes (initial 0 pair_config) ''a'')"
    by (subst eq, simp)+
  then show "strategy served_a = RANDOM" "peers served_a \<noteq> []"
    by (simp_all add: initial_def start_node_def new_engine_def pair_config_def default_config_def
        strategy_of_config_def peers_of_config_def)
qed

lemma served_deployment:
  "deployed {''a'', ''b''} (initial 0 pair_config)
     ((initial 0 pair_config)\<lparr>nodes := (nodes (initial 0 pair_config))(''a'' := served_a)\<rparr>)"
  by (rule deployed.step [OF deployed.init], rule deployment_step.serve [OF _ sample_request_ok served_a_eq served_a_room]) simp


section \<open>The peers command\<close>

text \<open>The command for the peer table is recognised only in capitals and without anything before
  it, while every other command may be in any case and indented; other spellings end in the client
  handler, which says that the table is not available to it.\<close>
theorem peers_command_literal:
  assumes "to_upper kw = ''PEERS''" and "spaces w" and "ends r"
  shows "main_handler price0 qty0 junk uuid (w @ kw @ r) ge =
    (ge, if w = [] \<and> kw = ''PEERS'' then peers_reply ge else ''ERROR peers_not_available_here'')"
proof -
  have len: "length kw = 5" using arg_cong [OF assms(1), of length] by (simp add: to_upper_def)
  have "take 5 (w @ kw @ r) = ''PEERS'' \<longleftrightarrow> w = [] \<and> kw = ''PEERS''"
  proof (cases w)
    case (Cons c w')
    then have "is_space c" using assms(2) by simp
    then have "c \<noteq> CHR ''P''" by (auto simp: is_space_def)
    then show ?thesis by (simp add: Cons take_Cons')
  qed (simp add: len)
  moreover have "handle_request price0 qty0 junk uuid (w @ kw @ r) st = (st, ''ERROR peers_not_available_here'')" for st
    unfolding handle_request_def read_command [OF assms(2) word_keyword(5) [OF assms(1)] assms(3)]
    by (simp add: assms(1))
  ultimately show ?thesis by (simp add: main_handler_def)
qed

end
