(* ===== verification/UdpTransport.thy ===== *)
theory UdpTransport
  imports Sockets "HOL-Library.Signed_Division"
begin

text \<open>
  The UDP transport (\<^verbatim>\<open>network/udp_transport.cpp\<close>): its constructor with the two
  exceptions it throws, its destructor, sending and receiving. Every function returns the socket
  calls it makes beside its result; what the system answers is an argument. An exception is its
  message.
\<close>

section \<open>The object\<close>

record udp_transport =
  sockfd :: int
  udp_port_no :: u16

definition get_port :: "udp_transport \<Rightarrow> u16" where
  "get_port t = udp_port_no t"

definition udp_open :: "int \<Rightarrow> int \<Rightarrow> string \<Rightarrow> u16 \<Rightarrow> syscall list \<times> (string + udp_transport)" where
  "udp_open fd bound bind_host bind_port =
     (if fd < 0 then ([Socket SOCK_DGRAM fd], Inl ''Failed to create UDP socket'')
      else
        let calls = [Socket SOCK_DGRAM fd, Setsockopt fd SO_REUSEADDR, Setsockopt fd SO_REUSEPORT,
              Bind fd (bind_address bind_host bind_port) bound]
        in if bound < 0
           then (calls @ [Close fd], Inl (''Failed to bind UDP socket on port '' @ show_nat (unat bind_port)))
           else (calls, Inr \<lparr>sockfd = fd, udp_port_no = bind_port\<rparr>))"

definition udp_close :: "udp_transport \<Rightarrow> syscall list" where
  "udp_close t = (if sockfd t \<ge> 0 then [Close (sockfd t)] else [])"

section \<open>Sending and receiving\<close>

text \<open>\<open>sendto\<close> is how many bytes the system takes, negative when it refuses.\<close>

definition send_to ::
  "(string \<Rightarrow> u32 option) \<Rightarrow> (sockaddr \<Rightarrow> u8 list \<Rightarrow> int) \<Rightarrow> udp_transport \<Rightarrow> string \<Rightarrow> u16 \<Rightarrow> u8 list
    \<Rightarrow> syscall list \<times> bool" where
  "send_to dns sendto t host port data =
     (let service = show_nat (unat port);
          res = getaddrinfo dns host service
      in case res of
           None \<Rightarrow> ([Getaddrinfo host service res], False)
         | Some addr \<Rightarrow>
             let sent = sendto addr data
             in ([Getaddrinfo host service res, Sendto (sockfd t) data addr sent, Freeaddrinfo],
                 sent = int (length data)))"

text \<open>What \<^verbatim>\<open>recvfrom\<close> meets: nothing within the timeout (or an error), or a datagram, of
  which it copies what the buffer holds.\<close>

datatype arrival = Timeout | Datagram sockaddr "u8 list"

definition recv_from ::
  "udp_transport \<Rightarrow> string \<Rightarrow> u16 \<Rightarrow> int \<Rightarrow> arrival \<Rightarrow> syscall list \<times> u8 list \<times> string \<times> u16" where
  "recv_from t sender_host sender_port timeout_ms arr =
     (let opt = SO_RCVTIMEO (timeout_ms sdiv 1000) ((timeout_ms smod 1000) * 1000);
          n = (case arr of Timeout \<Rightarrow> -1 | Datagram addr bytes \<Rightarrow> min 65535 (int (length bytes)));
          calls = [Setsockopt (sockfd t) opt, Recvfrom (sockfd t) 65535 n]
      in if n \<le> 0 then (calls, [], sender_host, sender_port)
         else case arr of
                Timeout \<Rightarrow> (calls, [], sender_host, sender_port)
              | Datagram (a, q) bytes \<Rightarrow> (calls, take (nat n) bytes, inet_ntop a, q))"

section \<open>A transport's life\<close>

datatype transport_use = Use_send string u16 "u8 list" | Use_recv int arrival

definition use_calls ::
  "(string \<Rightarrow> u32 option) \<Rightarrow> (sockaddr \<Rightarrow> u8 list \<Rightarrow> int) \<Rightarrow> udp_transport \<Rightarrow> transport_use \<Rightarrow> syscall list" where
  "use_calls dns sendto t u =
     (case u of Use_send host port data \<Rightarrow> fst (send_to dns sendto t host port data)
      | Use_recv timeout arr \<Rightarrow> fst (recv_from t [] 0 timeout arr))"

text \<open>Constructed, used, destroyed; nothing more when the constructor throws.\<close>

definition udp_life ::
  "(string \<Rightarrow> u32 option) \<Rightarrow> (sockaddr \<Rightarrow> u8 list \<Rightarrow> int) \<Rightarrow> int \<Rightarrow> int \<Rightarrow> string \<Rightarrow> u16 \<Rightarrow> transport_use list
    \<Rightarrow> syscall list" where
  "udp_life dns sendto fd bound host port us =
     (case udp_open fd bound host port of
        (calls, Inl e) \<Rightarrow> calls
      | (calls, Inr t) \<Rightarrow> calls @ concat (map (use_calls dns sendto t) us) @ udp_close t)"

lemma send_to_calls_ok: "sockfd t \<in> fds \<Longrightarrow> calls_ok (fst (send_to dns sendto t h q d)) (fds, n) = Some (fds, n)"
  by (simp add: send_to_def Let_def split: option.split)

lemma recv_from_calls_ok: "sockfd t \<in> fds \<Longrightarrow> calls_ok (fst (recv_from t h q ms arr)) (fds, n) = Some (fds, n)"
  by (cases arr) (simp_all add: recv_from_def Let_def split: prod.split)

lemma use_calls_ok: "sockfd t \<in> fds \<Longrightarrow> calls_ok (use_calls dns sendto t u) (fds, n) = Some (fds, n)"
  by (cases u) (simp_all add: use_calls_def send_to_calls_ok recv_from_calls_ok)

text \<open>The transport is safe with its descriptor: whatever the system answers, its socket is
  used only while it is open, an address list is freed once, and in the end, also when the
  constructor throws, nothing is left open or allocated.\<close>
theorem udp_releases_everything:
  assumes "fd \<notin> fds"
  shows "calls_ok (udp_life dns sendto fd bound host port us) (fds, n) = Some (fds, n)"
proof (cases "fd < 0 \<or> bound < 0")
  case True
  then show ?thesis using assms by (auto simp: udp_life_def udp_open_def Let_def)
next
  case False
  define t where "t = \<lparr>sockfd = fd, udp_port_no = port\<rparr>"
  have "calls_ok (concat (map (use_calls dns sendto t) us)) (insert fd fds, n) = Some (insert fd fds, n)"
    by (rule calls_ok_concat) (simp add: use_calls_ok t_def)
  then show ?thesis
    using False assms by (simp add: udp_life_def udp_open_def Let_def t_def [symmetric] calls_ok_append)
      (simp add: t_def udp_close_def)
qed

theorem udp_releases_everything_witness:
  "calls_ok (udp_life (\<lambda>_. None) (\<lambda>a d. int (length d)) 5 0 ''0.0.0.0'' 7000
      [Use_send ''10.0.0.1'' 7000 [1, 2], Use_send ''nowhere'' 7000 [3], Use_recv 500 Timeout,
       Use_recv 500 (Datagram (0x0A000001, 7000) [4])]) ({0, 1, 2}, 0) = Some ({0, 1, 2}, 0)"
  by (rule udp_releases_everything) simp

section \<open>Addresses of senders\<close>

lemma recv_from_datagram:
  "bytes \<noteq> [] \<Longrightarrow> length bytes \<le> 65535 \<Longrightarrow>
    snd (recv_from t h q ms (Datagram (a, p) bytes)) = (bytes, inet_ntop a, p)"
  by (cases bytes) (simp_all add: recv_from_def Let_def)

lemma recv_from_timeout: "snd (recv_from t h q ms Timeout) = ([], h, q)"
  by (simp add: recv_from_def)

lemma send_to_text:
  "send_to dns sendto t (inet_ntop a) q data =
    ([Getaddrinfo (inet_ntop a) (show_nat (unat q)) (Some (a, q)), Sendto (sockfd t) data (a, q) (sendto (a, q) data),
      Freeaddrinfo], sendto (a, q) data = int (length data))"
  by (simp add: send_to_def Let_def)

end
