(* ===== verification/Gossip_Transport.thy ===== *)
theory Gossip_Transport
  imports Deployment_Props UdpTransport
begin

text \<open>
  The gossip engine on its transport (\<^verbatim>\<open>gossip/gossip_engine.cpp\<close>): its two loops, with
  the transport's calls in them, and what the limits of a UDP datagram mean for what it sends.
\<close>

section \<open>The loops\<close>

text \<open>One turn of \<^verbatim>\<open>receive_loop\<close>; \<open>junk\<close> is what the port variable holds before it
  is assigned.\<close>

definition receive_turn ::
  "udp_transport \<Rightarrow> u16 \<Rightarrow> arrival \<Rightarrow> int \<Rightarrow> gossip_engine \<Rightarrow> (gossip_engine \<times> datagram list) option" where
  "receive_turn t junk arr now ge =
     (let (calls, data, sender_host, sender_port) = recv_from t [] junk 500 arr
      in if data = [] then Some (ge, []) else receive_datagram ge now data sender_host sender_port)"

text \<open>The turns until the running flag is found cleared, each with what arrives and the time.\<close>

fun receive_loop ::
  "udp_transport \<Rightarrow> u16 \<Rightarrow> (arrival \<times> int) list \<Rightarrow> gossip_engine \<Rightarrow> (gossip_engine \<times> datagram list) option" where
  "receive_loop t junk [] ge = Some (ge, [])"
| "receive_loop t junk ((arr, now) # turns) ge =
     (case receive_turn t junk arr now ge of None \<Rightarrow> None
      | Some (ge1, out1) \<Rightarrow>
          (case receive_loop t junk turns ge1 of None \<Rightarrow> None
           | Some (ge2, out2) \<Rightarrow> Some (ge2, out1 @ out2)))"

text \<open>\<^verbatim>\<open>gossip_loop\<close>: the time of the last heartbeat starts as the time the thread starts; the
  last component of the result is the time slept in all.\<close>

fun gossip_turns ::
  "((nat \<Rightarrow> nat) \<times> (nat \<Rightarrow> nat) \<times> int) list \<Rightarrow> int \<Rightarrow> gossip_engine \<Rightarrow> (gossip_engine \<times> datagram list \<times> int) option" where
  "gossip_turns [] hb ge = Some (ge, [], 0)"
| "gossip_turns ((pick, pick', now) # turns) hb ge =
     (case gossip_iteration pick pick' now hb ge of None \<Rightarrow> None
      | Some (ge1, hb1, out1, ms) \<Rightarrow>
          (case gossip_turns turns hb1 ge1 of None \<Rightarrow> None
           | Some (ge2, out2, slept) \<Rightarrow> Some (ge2, out1 @ out2, ms + slept)))"

definition gossip_loop ::
  "int \<Rightarrow> ((nat \<Rightarrow> nat) \<times> (nat \<Rightarrow> nat) \<times> int) list \<Rightarrow> gossip_engine \<Rightarrow> (gossip_engine \<times> datagram list \<times> int) option" where
  "gossip_loop start turns ge = gossip_turns turns start ge"

text \<open>\<^verbatim>\<open>send_message\<close> on the transport; both branches of its size test do the same, and neither
  looks at what \<^verbatim>\<open>send_to\<close> returns.\<close>

definition transmit ::
  "(string \<Rightarrow> u32 option) \<Rightarrow> (sockaddr \<Rightarrow> u8 list \<Rightarrow> int) \<Rightarrow> udp_transport \<Rightarrow> message \<Rightarrow> string \<Rightarrow> u16 \<Rightarrow> syscall list" where
  "transmit dns sendto t msg host port =
     (let data = msg_serialize msg
      in if length data \<le> 8000 then fst (send_to dns sendto t host port data)
         else fst (send_to dns sendto t host port data))"

lemma receive_turn_datagram:
  "bytes \<noteq> [] \<Longrightarrow> length bytes \<le> 65535 \<Longrightarrow>
    receive_turn t junk (Datagram (a, p) bytes) now ge = receive_datagram ge now bytes (inet_ntop a) p"
  using recv_from_datagram [of bytes t "[]" junk 500 a p]
  by (simp add: receive_turn_def case_prod_beta)

section \<open>The loops run\<close>

lemma round_no_iteration:
  assumes "gossip_iteration pick pick' now hb ge = Some (ge', hb', out, ms)" and "unat (round_no ge) < 2 ^ 24"
  shows "unat (round_no ge') \<le> Suc (unat (round_no ge))"
proof -
  have "unat (round_no ge) + unat (1 :: u64) < 2 ^ LENGTH(64)" using assms(2) by simp
  then have "unat (round_no ge + 1) = Suc (unat (round_no ge))" by (simp add: unat_add_lem [THEN iffD1])
  moreover have "round_no ge' = round_no ge \<or> round_no ge' = round_no ge + 1"
    using assms(1)
    by (auto simp: gossip_iteration_def do_gossip_round_def check_liveness_def heartbeat_def Let_def
        select_round_robin_peer_def select_wythoff_peer_def
        split: option.splits gossip_strategy.splits if_splits prod.splits)
  ultimately show ?thesis by auto
qed

lemma gossip_turns_run:
  "engine_ok K ge \<Longrightarrow> unat (round_no ge) + length turns \<le> 2 ^ 24 \<Longrightarrow>
    \<exists>ge' out ms. gossip_turns turns hb ge = Some (ge', out, ms) \<and> engine_ok K ge' \<and>
      ge_node ge' = ge_node ge \<and> ge_book ge' = ge_book ge \<and> list_all (sent_by ge) out"
proof (induction turns hb ge rule: gossip_turns.induct)
  case (2 pick pick' now turns hb ge)
  have "round_no ge < 2 ^ 24" using "2.prems"(2) by (simp add: word_less_nat_alt)
  then obtain ge1 hb1 out1 ms where g: "gossip_iteration pick pick' now hb ge = Some (ge1, hb1, out1, ms)"
    using gossip_defined [OF "2.prems"(1), of pick pick' now hb] by auto
  note E = gossip_iteration_engine [OF g] and ok = engine_ok_gossip [OF "2.prems"(1) g]
  have "unat (round_no ge1) + length turns \<le> 2 ^ 24"
    using round_no_iteration [OF g] "2.prems"(2) by simp
  then obtain ge2 out2 ms2 where "gossip_turns turns hb1 ge1 = Some (ge2, out2, ms2)" "engine_ok K ge2"
    "ge_node ge2 = ge_node ge1" "ge_book ge2 = ge_book ge1" "list_all (sent_by ge1) out2"
    using "2.IH" [OF g refl refl refl ok] by blast
  then show ?case using g E(1,2,5) sent_by_cong [OF E(1,2)] by simp
qed simp

text \<open>C34: the gossip thread runs and only reads the book: in every reachable state of a deployment, any
  number of turns of a node's gossip loop up to round \<open>2 ^ 24\<close>, with any random draws and times,
  runs to its end without undefined arithmetic, leaves the book as it was, and sends nothing but
  messages in the node's name with its clock and operations of its log.\<close>
theorem gossip_loop_runs:
  assumes "config_ok K cfg" and "deployed K (initial now0 cfg) s" and "n \<in> K"
    and "unat (round_no (nodes s n)) + length turns \<le> 2 ^ 24"
  shows "\<exists>ge out slept. gossip_loop start turns (nodes s n) = Some (ge, out, slept) \<and>
    ge_book ge = ge_book (nodes s n) \<and> list_all (sent_by (nodes s n)) out"
proof -
  have "engine_ok K (nodes s n)" using deployment_invariant(2) [OF assms(1,2)] assms(3) by blast
  from gossip_turns_run [OF this assms(4), of start] show ?thesis by (auto simp: gossip_loop_def)
qed

theorem gossip_loop_runs_witness:
  "\<exists>ge out slept. gossip_loop 0 [((\<lambda>_. 0), (\<lambda>_. 0), 1), ((\<lambda>_. 0), (\<lambda>_. 0), 600000000)] (nodes (initial 0 pair_config) ''a'') =
      Some (ge, out, slept) \<and> ge_book ge = new_crdt ''a''"
proof -
  have "unat (round_no (nodes (initial 0 pair_config) ''a'')) + length [((\<lambda>_. 0 :: nat), (\<lambda>_. 0 :: nat), 1 :: int), ((\<lambda>_. 0), (\<lambda>_. 0), 600000000)] \<le> 2 ^ 24"
    by (simp add: initial_def start_node_def new_engine_def)
  from gossip_loop_runs [OF pair_config_ok deployed.init _ this, of 0] show ?thesis
    by (auto simp: initial_def start_node_def new_engine_def pair_config_def default_config_def)
qed

text \<open>Receiving goes on whatever arrives from the nodes of a deployment, or does not.\<close>

lemma receive_loop_runs:
  assumes "names_ok K"
    and "list_all (\<lambda>(arr, now). arr = Timeout \<or>
      (\<exists>addr msg. arr = Datagram addr (msg_serialize msg) \<and> message_ok K msg \<and> length (msg_serialize msg) \<le> 65535)) turns"
  shows "\<exists>r. receive_loop t junk turns ge = Some r"
  using assms(2)
proof (induction t junk turns ge rule: receive_loop.induct)
  case (2 t junk arr now turns ge)
  have "\<exists>r. receive_turn t junk arr now ge = Some r"
  proof (cases arr)
    case Timeout
    then show ?thesis by (simp add: receive_turn_def recv_from_def)
  next
    case (Datagram addr bytes)
    then obtain msg where msg: "bytes = msg_serialize msg" "message_ok K msg" "length bytes \<le> 65535"
      using "2.prems" by auto
    have ne: "bytes \<noteq> []" by (simp add: msg(1) msg_serialize_eq write_u8_def)
    obtain a p where addr: "addr = (a, p)" by fastforce
    show ?thesis
      unfolding Datagram addr receive_turn_datagram [OF ne msg(3)]
      by (simp add: msg(1) receive_serialized [OF message_ok_wire [OF assms(1) msg(2)]])
  qed
  then obtain ge1 out1 where r: "receive_turn t junk arr now ge = Some (ge1, out1)" by auto
  have "\<exists>r. receive_loop t junk turns ge1 = Some r"
    by (rule "2.IH" [OF r refl]) (use "2.prems" in simp)
  then show ?case using r by auto
qed simp

section \<open>A full sync between two sockets\<close>

lemma length_write_string [simp]: "length (write_string s) = 2 + length s"
  by (simp add: write_string_def)

text \<open>C10: a full sync works between two nodes that know each other only by their sockets, provided the asking
  node has already seen every operation its clock dominates, and both datagrams fit into a UDP payload: a node
  sends its request to a peer's host and port, which resolve to the peer's address; the peer's turn
  on that datagram, which shows it the sender's address and nothing else, ends with sending its
  answer to exactly that address; and the node's turn on the answer leaves its invariant intact
  and every operation of the peer seen.\<close>
theorem sync_between_sockets:
  assumes "crdt_inv (ge_book a)" and "crdt_inv (ge_book b)" and "node_wire_ok a" and "node_wire_ok b"
    and "\<forall>op \<in> set (op_log (ge_book a)). clock_fun (op_clock op) \<le> clock_fun (clock (ge_book b)) \<longrightarrow>
      op_id op \<in> seen_ops (ge_book b)"
    and "getaddrinfo dns (peer_host p) (show_nat (unat (peer_port p))) = Some addr_a"
    and "request_full_sync b p = (h, q, request)" and "length request \<le> 65507"
    and "length (msg_serialize (sync_answer a b)) \<le> 65507"
  shows "\<exists>a' out ha qa answer b' out'.
    Sendto (sockfd tb) request addr_a (sendto addr_a request) \<in> set (fst (send_to dns sendto tb h q request)) \<and>
    receive_turn ta junk (Datagram addr_b request) now a = Some (a', out) \<and> out \<noteq> [] \<and> last out = (ha, qa, answer) \<and>
    Sendto (sockfd ta) answer addr_b (sendto' addr_b answer) \<in> set (fst (send_to dns' sendto' ta ha qa answer)) \<and>
    receive_turn tb junk' (Datagram addr_a answer) now' b = Some (b', out') \<and>
    crdt_inv (ge_book b') \<and> seen_ops (ge_book a) \<subseteq> seen_ops (ge_book b')"
proof -
  obtain ia pa ib pb where addr: "addr_a = (ia, pa)" "addr_b = (ib, pb)" by fastforce
  obtain a' out answer b' out' where ra: "receive_datagram a now request (inet_ntop ib) pb = Some (a', out)"
    and out: "out \<noteq> []" "last out = (inet_ntop ib, pb, answer)" and answer: "answer = msg_serialize (sync_answer a b)"
    and rb: "receive_datagram b now' answer (inet_ntop ia) pa = Some (b', out')"
    and fin: "crdt_inv (ge_book b')" "seen_ops (ge_book a) \<subseteq> seen_ops (ge_book b')"
    using full_sync_exchange [OF assms(1-5,7), of now "inet_ntop ib" pb now' "inet_ntop ia" pa] by blast
  have hq: "h = peer_host p" "q = peer_port p" "request = msg_serialize (bare_message ANTI_ENTROPY_REQ b)"
    using assms(7) by (simp_all add: request_full_sync_def send_message_def)
  have ne: "request \<noteq> []" "answer \<noteq> []"
    by (simp_all add: hq(3) answer msg_serialize_eq write_u8_def)
  have "receive_turn ta junk (Datagram addr_b request) now a = Some (a', out)"
    using receive_turn_datagram [OF ne(1), of ta junk ib pb now a] assms(8) ra by (simp add: addr(2))
  moreover have "receive_turn tb junk' (Datagram addr_a answer) now' b = Some (b', out')"
    using receive_turn_datagram [OF ne(2), of tb junk' ia pa now' b] assms(9) rb by (simp add: addr(1) answer)
  moreover have "Sendto (sockfd tb) request addr_a (sendto addr_a request) \<in> set (fst (send_to dns sendto tb h q request))"
    using assms(6) by (simp add: send_to_def hq(1,2) Let_def)
  moreover have "Sendto (sockfd ta) answer addr_b (sendto' addr_b answer) \<in> set (fst (send_to dns' sendto' ta (inet_ntop ib) pb answer))"
    by (simp add: send_to_text addr(2))
  ultimately show ?thesis using out fin by blast
qed

lemma sample_answer_length: "length (msg_serialize (sync_answer engine_a engine_b)) \<le> 65507"
proof -
  have "operations (sync_answer engine_a engine_b) = [] \<or>
      operations (sync_answer engine_a engine_b) = [added_op (new_crdt ''a'') SELL 100 5 ''o'' ''p'']"
    by (simp add: sync_answer_def sample_engines get_operations_since_def node_a_log)
  moreover have c: "clock node_a = clock_of ''a'' [(''a'', 1)]"
    "op_clock (added_op (new_crdt ''a'') SELL 100 5 ''o'' ''p'') = clock_of ''a'' [(''a'', 1)]"
    by code_simp+
  moreover have "sender_clock (sync_answer engine_a engine_b) = clock_of ''a'' [(''a'', 1)]"
    by (simp add: sync_answer_def bare_message_def get_clock_def sample_engines c(1))
  moreover have "sender_id (sync_answer engine_a engine_b) = ''a''"
    by (simp add: sync_answer_def bare_message_def sample_engines)
  ultimately show ?thesis
    by (auto simp: length_msg_serialize msg_body_def write_clock_def clock_of_def vc_serialize_def write_entry_def
        write_operation_def write_order_def write_u8_def write_double_def)
       (simp_all add: added_op_def)
qed

theorem sync_between_sockets_witness:
  "\<exists>a' out ha qa answer b' out' ta tb.
    receive_turn ta 0 (Datagram (0x0A000002, 7000) (snd (snd (request_full_sync engine_b (sample_peer ''a'' ''a'' True))))) 5
      engine_a = Some (a', out) \<and> last out = (ha, qa, answer) \<and>
    Sendto (sockfd ta) answer (0x0A000002, 7000) 1 \<in> set (fst (send_to (\<lambda>_. None) (\<lambda>_ _. 1) ta ha qa answer)) \<and>
    receive_turn tb 0 (Datagram (0x0A000001, 7000) answer) 6 engine_b = Some (b', out') \<and>
    ''p'' \<in> seen_ops (ge_book b')"
proof -
  let ?p = "sample_peer ''a'' ''a'' True"
  define t where "t = \<lparr>sockfd = 5, udp_port_no = 7000\<rparr>"
  obtain h q rq where rq: "request_full_sync engine_b ?p = (h, q, rq)" by (metis prod.collapse)
  have "rq = msg_serialize (bare_message ANTI_ENTROPY_REQ engine_b)"
    using rq by (simp add: request_full_sync_def send_message_def)
  moreover have "new_clock ''b'' = clock_of ''b'' [(''b'', 0)]" by code_simp
  ultimately have len: "length rq \<le> 65507"
    by (simp add: length_msg_serialize msg_body_def write_clock_def bare_message_def get_clock_def sample_engines new_crdt_def)
       (simp add: clock_of_def vc_serialize_def write_entry_def)
  have dns: "getaddrinfo (\<lambda>_. Some 0x0A000001) (peer_host ?p) (show_nat (unat (peer_port ?p))) = Some (0x0A000001, 7000)"
    by (simp add: sample_peer_def getaddrinfo_def inet_pton_def show_base_value)
  from sync_between_sockets [OF sample_sync(1-5) dns rq len sample_answer_length,
      where ta = t and tb = t and junk = 0 and junk' = 0 and addr_b = "(0x0A000002, 7000)" and now = 5 and now' = 6
        and sendto = "\<lambda>_ _. 1" and dns' = "\<lambda>_. None" and sendto' = "\<lambda>_ _. 1"]
  obtain a' out ha qa answer b' out' where sync:
    "receive_turn t 0 (Datagram (0x0A000002, 7000) rq) 5 engine_a = Some (a', out)" "last out = (ha, qa, answer)"
    "Sendto (sockfd t) answer (0x0A000002, 7000) 1 \<in> set (fst (send_to (\<lambda>_. None) (\<lambda>_ _. 1) t ha qa answer))"
    "receive_turn t 0 (Datagram (0x0A000001, 7000) answer) 6 engine_b = Some (b', out')"
    "seen_ops (ge_book engine_a) \<subseteq> seen_ops (ge_book b')"
    by (elim exE conjE) (rule that)
  have "''p'' \<in> seen_ops (ge_book b')" using sync(5) by (simp add: sample_sync(6))
  with sync(1-4) show ?thesis unfolding rq snd_conv by (intro exI conjI)
qed

section \<open>How much fits in a datagram\<close>

lemma vc_serialize_length: "6 \<le> length (vc_serialize vc)"
  by (simp add: vc_serialize_def)

lemma write_operation_length:
  "55 + length (order_id (op_order op)) + length (cancel_order_id op) + length (op_id op) \<le> length (write_operation op)"
  using vc_serialize_length [of "op_clock op"]
  by (simp add: write_operation_def write_order_def write_u8_def write_double_def)

text \<open>Every operation a client causes carries two generated ids of 36 characters: the order's, as an
  order or as a cancel, and its own.\<close>

definition generated_ids :: "operation \<Rightarrow> bool" where
  "generated_ids op \<longleftrightarrow> 72 \<le> length (order_id (op_order op)) + length (cancel_order_id op) + length (op_id op)"

lemma operations_length:
  "list_all generated_ids ops \<Longrightarrow> 127 * length ops \<le> length (concat (map write_operation ops))"
proof (induction ops)
  case (Cons op ops)
  then show ?case using write_operation_length [of op] by (simp add: generated_ids_def)
qed simp

lemma message_length: "list_all generated_ids (operations msg) \<Longrightarrow> 127 * length (operations msg) \<le> length (msg_serialize msg)"
  using operations_length [of "operations msg"] by (simp add: length_msg_serialize msg_body_def)

lemma since_generated: "list_all generated_ids (op_log st) \<Longrightarrow> list_all generated_ids (get_operations_since st vc)"
  by (auto simp: get_operations_since_def list_all_iff)

text \<open>C11: a node that is far behind cannot catch up: the answer to a full sync request or to a pull
  puts all the operations the asker lacks into one datagram, and 516 of them no longer fit into the
  65507 bytes a UDP datagram can carry; the system refuses it, \<^verbatim>\<open>send_to\<close> reports the failure,
  and nobody looks at the report.\<close>
theorem long_log_cannot_sync:
  assumes "\<forall>addr data. 65507 < length data \<longrightarrow> sendto addr data < 0"
    and "msg_type msg = ANTI_ENTROPY_REQ \<or> msg_type msg = GOSSIP_PULL"
    and "handle_message ge now msg host port = (ge', out)" and "list_all generated_ids (op_log (ge_book ge))"
    and "516 \<le> length (get_operations_since (ge_book ge) (sender_clock msg))"
  shows "\<exists>answer. out \<noteq> [] \<and> last out = (host, port, answer) \<and> \<not> snd (send_to dns sendto t host port answer)"
proof -
  let ?ops = "get_operations_since (ge_book ge) (sender_clock msg)"
  have ne: "?ops \<noteq> []" using assms(5) by auto
  obtain ty e where out: "out \<noteq> []" "last out = (host, port, msg_serialize ((bare_message ty e)\<lparr>operations := ?ops\<rparr>))"
    using assms(2,3) ne by (auto simp: handle_message_def Let_def case_prod_beta send_message_def)
  have "65507 < length (msg_serialize ((bare_message ty e)\<lparr>operations := ?ops\<rparr>))"
    using message_length [of "(bare_message ty e)\<lparr>operations := ?ops\<rparr>"] since_generated [OF assms(4)] assms(5) by simp
  with assms(1) have "sendto addr (msg_serialize ((bare_message ty e)\<lparr>operations := ?ops\<rparr>)) < 0" for addr by blast
  then have "sendto addr (msg_serialize ((bare_message ty e)\<lparr>operations := ?ops\<rparr>)) \<noteq>
      int (length (msg_serialize ((bare_message ty e)\<lparr>operations := ?ops\<rparr>)))" for addr
    by (metis not_less of_nat_0_le_iff)
  then have "\<not> snd (send_to dns sendto t host port (msg_serialize ((bare_message ty e)\<lparr>operations := ?ops\<rparr>)))"
    by (auto simp: send_to_def Let_def split: option.split)
  with out show ?thesis by blast
qed

text \<open>A node with 516 orders, and one that has just started.\<close>

definition bulk_operation :: "nat \<Rightarrow> operation" where
  "bulk_operation i = sample_operation\<lparr>op_id := pad0 36 (show_nat i),
     op_order := (op_order sample_operation)\<lparr>order_id := pad0 36 (show_nat i)\<rparr>\<rparr>"

definition bulk_engine :: gossip_engine where
  "bulk_engine = engine_a\<lparr>ge_book := node_a\<lparr>op_log := map bulk_operation [0..<516]\<rparr>\<rparr>"

theorem long_log_cannot_sync_witness:
  "\<exists>answer. last (snd (handle_message bulk_engine 5 (bare_message ANTI_ENTROPY_REQ engine_b) ''b'' 7000)) =
      (''b'', 7000, answer) \<and>
    \<not> snd (send_to (\<lambda>_. Some 0x0A000002) (\<lambda>addr data. if 65507 < length data then - 1 else int (length data))
      \<lparr>sockfd = 5, udp_port_no = 7000\<rparr> ''b'' 7000 answer)"
proof -
  let ?msg = "bare_message ANTI_ENTROPY_REQ engine_b"
  let ?sendto = "\<lambda>(addr :: sockaddr) (data :: u8 list). if 65507 < length data then - 1 else int (length data)"
  obtain ge' out where h: "handle_message bulk_engine 5 ?msg ''b'' 7000 = (ge', out)" by fastforce
  have len: "length (pad0 36 (show_nat i)) = 36" if "i < 516" for i
    using show_base_length [of 10 i 36] that by (intro pad0_length) simp
  have gen: "list_all generated_ids (op_log (ge_book bulk_engine))"
    by (simp add: bulk_engine_def list_all_iff generated_ids_def bulk_operation_def len)
  have "\<not> happens_before (op_clock sample_operation) (new_clock ''b'')"
    "\<not> same_entries (vc_clock (op_clock sample_operation)) (vc_clock (new_clock ''b''))"
    by code_simp+
  then have "516 \<le> length (get_operations_since (ge_book bulk_engine) (sender_clock ?msg))"
    by (simp add: get_operations_since_def bulk_engine_def bulk_operation_def bare_message_def get_clock_def sample_engines
        filter_map comp_def)
  from long_log_cannot_sync [of ?sendto, OF _ _ h gen this, of "\<lambda>_. Some 0x0A000002" "\<lparr>sockfd = 5, udp_port_no = 7000\<rparr>"]
  obtain answer where "last out = (''b'', 7000, answer)"
    "\<not> snd (send_to (\<lambda>_. Some 0x0A000002) ?sendto \<lparr>sockfd = 5, udp_port_no = 7000\<rparr> ''b'' 7000 answer)"
    by (auto simp: bare_message_def)
  then show ?thesis by (simp only: h snd_conv) blast
qed

end
