(* ===== verification/Gossip_Threads.thy ===== *)
theory Gossip_Threads
  imports Deployment_Props
begin

text \<open>
  The gossip and the receiving thread of a node beside each other and beside the clients
  (\<^verbatim>\<open>gossip/gossip_engine.cpp\<close>), in the steps that the locks make atomic: one hold of
  \<^verbatim>\<open>peers_mutex_\<close> or one call on the book. Between two steps of a thread the others may do
  anything. What a thread keeps in local variables is in its program counter.
\<close>

section \<open>The gossip thread\<close>

text \<open>What it has in hand: the time the iteration started, the peer it chose, the mode of the round,
  the clock it has read.\<close>

datatype gossip_pc = G_idle | G_round int | G_clock int nat sync_mode | G_log int nat vector_clock
  | G_beat int | G_beat_clock int nat | G_live int

datatype receive_pc = R_idle | R_apply message "operation list" string u16 | R_since message string u16
  | R_reply message_type "operation list" string u16

record threads =
  shared :: gossip_engine
  last_beat :: int
  g_pc :: gossip_pc
  r_pc :: receive_pc

definition choose_peer :: "(nat \<Rightarrow> nat) \<Rightarrow> gossip_engine \<Rightarrow> (gossip_engine \<times> sync_mode \<times> nat option) option" where
  "choose_peer pick ge =
     (case strategy ge of
        RANDOM \<Rightarrow> Some (ge, PUSH, select_random_peer pick ge)
      | ROUND_ROBIN \<Rightarrow> (let (ge', p) = select_round_robin_peer ge in Some (ge', PUSH, p))
      | WYTHOFF \<Rightarrow> select_wythoff_peer ge)"

text \<open>\<^verbatim>\<open>do_gossip_round\<close>: the choice of a peer under the lock of the table, then
  \<^verbatim>\<open>get_clock\<close>, then \<^verbatim>\<open>get_operation_log\<close>; the peer's host and port are read without a
  lock when the message is sent.\<close>

definition round_micro :: "(nat \<Rightarrow> nat) \<Rightarrow> threads \<Rightarrow> (threads \<times> datagram list) option" where
  "round_micro pick s =
     (let ge = shared s
      in case g_pc s of
           G_round t \<Rightarrow>
             (case choose_peer pick ge of
                None \<Rightarrow> None
              | Some (ge', mode, None) \<Rightarrow> Some (s\<lparr>shared := ge', g_pc := G_beat t\<rparr>, [])
              | Some (ge', mode, Some i) \<Rightarrow> Some (s\<lparr>shared := ge', g_pc := G_clock t i mode\<rparr>, []))
         | G_clock t i mode \<Rightarrow>
             (let clk = get_clock (ge_book ge)
              in if strategy ge = WYTHOFF \<and> mode = PULL
                 then Some (s\<lparr>g_pc := G_beat t\<rparr>, [send_to_peer ge i
                   \<lparr>msg_type = GOSSIP_PULL, sender_id = ge_node ge, sender_clock = clk, operations = []\<rparr>])
                 else Some (s\<lparr>g_pc := G_log t i clk\<rparr>, []))
         | G_log t i clk \<Rightarrow>
             Some (s\<lparr>g_pc := G_beat t\<rparr>, [send_to_peer ge i
               \<lparr>msg_type = if strategy ge = WYTHOFF then GOSSIP_PUSH else GOSSIP_PUSH_PULL,
                sender_id = ge_node ge, sender_clock = clk,
                operations = recent_operations (get_operation_log (ge_book ge))\<rparr>])
         | _ \<Rightarrow> None)"

text \<open>The body of \<^verbatim>\<open>gossip_loop\<close> around it: reading the time, the heartbeat, the check of the
  peers.\<close>

definition loop_micro :: "(nat \<Rightarrow> nat) \<Rightarrow> int \<Rightarrow> threads \<Rightarrow> (threads \<times> datagram list) option" where
  "loop_micro pick now s =
     (let ge = shared s
      in case g_pc s of
           G_idle \<Rightarrow> Some (s\<lparr>g_pc := G_round now\<rparr>, [])
         | G_beat t \<Rightarrow>
             (if elapsed_ms t (last_beat s) \<ge> heartbeat_interval_ms ge
              then case select_random_peer pick ge of
                     None \<Rightarrow> Some (s\<lparr>last_beat := t, g_pc := G_live t\<rparr>, [])
                   | Some i \<Rightarrow> Some (s\<lparr>g_pc := G_beat_clock t i\<rparr>, [])
              else Some (s\<lparr>g_pc := G_live t\<rparr>, []))
         | G_beat_clock t i \<Rightarrow>
             Some (s\<lparr>last_beat := t, g_pc := G_live t\<rparr>, [send_to_peer ge i (bare_message HEARTBEAT ge)])
         | G_live t \<Rightarrow> Some (s\<lparr>shared := check_liveness t ge, g_pc := G_idle\<rparr>, [])
         | _ \<Rightarrow> None)"

definition gossip_micro ::
  "(nat \<Rightarrow> nat) \<Rightarrow> (nat \<Rightarrow> nat) \<Rightarrow> int \<Rightarrow> threads \<Rightarrow> (threads \<times> datagram list) option" where
  "gossip_micro pick pick' now s =
     (case g_pc s of
        G_round t \<Rightarrow> round_micro pick s | G_clock t i mode \<Rightarrow> round_micro pick s | G_log t i clk \<Rightarrow> round_micro pick s
      | _ \<Rightarrow> loop_micro pick' now s)"

section \<open>The receiving thread\<close>

text \<open>\<^verbatim>\<open>handle_message\<close> up to its \<^verbatim>\<open>switch\<close>: the table is updated under its lock.\<close>

definition begin_message :: "int \<Rightarrow> message \<Rightarrow> string \<Rightarrow> u16 \<Rightarrow> threads \<Rightarrow> threads \<times> datagram list" where
  "begin_message now msg host port s =
     (let (ps, out) = touch_peer (shared s) now (sender_id msg) host (peers (shared s))
      in (s\<lparr>shared := (shared s)\<lparr>peers := ps\<rparr>,
            r_pc := (if msg_type msg \<in> {GOSSIP_PUSH, GOSSIP_PUSH_PULL, ANTI_ENTROPY_RES} then R_apply msg (operations msg) host port
                     else if msg_type msg \<in> {GOSSIP_PULL, ANTI_ENTROPY_REQ} then R_since msg host port else R_idle)\<rparr>, out))"

definition begin_datagram :: "int \<Rightarrow> u8 list \<Rightarrow> string \<Rightarrow> u16 \<Rightarrow> threads \<Rightarrow> (threads \<times> datagram list) option" where
  "begin_datagram now bytes host port s =
     (if bytes = [] then Some (s, [])
      else case msg_deserialize bytes of
             Inl OutOfBounds \<Rightarrow> None
           | Inl Overrun \<Rightarrow> Some (s, [])
           | Inr msg \<Rightarrow> Some (begin_message now msg host port s))"

text \<open>The cases of the \<^verbatim>\<open>switch\<close>: every operation is applied under a lock of its own, then
  \<^verbatim>\<open>get_operations_since\<close>, then \<^verbatim>\<open>get_clock\<close> for the answer.\<close>

definition receive_micro :: "threads \<Rightarrow> threads \<times> datagram list" where
  "receive_micro s =
     (let ge = shared s
      in case r_pc s of
           R_idle \<Rightarrow> (s, [])
         | R_apply msg [] host port \<Rightarrow>
             (s\<lparr>r_pc := (if msg_type msg = GOSSIP_PUSH_PULL then R_since msg host port else R_idle)\<rparr>, [])
         | R_apply msg (op # ops) host port \<Rightarrow>
             (s\<lparr>shared := ge\<lparr>ge_book := fst (apply_remote_operation (ge_book ge) op)\<rparr>, r_pc := R_apply msg ops host port\<rparr>, [])
         | R_since msg host port \<Rightarrow>
             (let ours = get_operations_since (ge_book ge) (sender_clock msg)
              in (s\<lparr>r_pc :=
                    (if msg_type msg = ANTI_ENTROPY_REQ then R_reply ANTI_ENTROPY_RES ours host port
                     else if ours = [] then R_idle
                     else if msg_type msg = GOSSIP_PUSH_PULL then R_reply GOSSIP_PUSH (take 20 ours) host port
                     else R_reply GOSSIP_PUSH ours host port)\<rparr>, []))
         | R_reply ty ops host port \<Rightarrow>
             (s\<lparr>r_pc := R_idle\<rparr>, [send_message ((bare_message ty ge)\<lparr>operations := ops\<rparr>) host port]))"

section \<open>A thread that is not interrupted\<close>

text \<open>Steps of one thread until it is idle again.\<close>

fun gossip_alone ::
  "nat \<Rightarrow> (nat \<Rightarrow> nat) \<Rightarrow> (nat \<Rightarrow> nat) \<Rightarrow> int \<Rightarrow> threads \<Rightarrow> (threads \<times> datagram list) option" where
  "gossip_alone 0 pick pick' now s = None"
| "gossip_alone (Suc n) pick pick' now s =
     (case gossip_micro pick pick' now s of
        None \<Rightarrow> None
      | Some (s1, out1) \<Rightarrow>
          if g_pc s1 = G_idle then Some (s1, out1)
          else (case gossip_alone n pick pick' now s1 of
                  None \<Rightarrow> None | Some (s2, out2) \<Rightarrow> Some (s2, out1 @ out2)))"

fun receive_alone :: "nat \<Rightarrow> threads \<Rightarrow> (threads \<times> datagram list) option" where
  "receive_alone n s =
     (if r_pc s = R_idle then Some (s, [])
      else (case n of 0 \<Rightarrow> None
            | Suc m \<Rightarrow>
                (let (s1, out1) = receive_micro s
                 in (case receive_alone m s1 of None \<Rightarrow> None | Some (s2, out2) \<Rightarrow> Some (s2, out1 @ out2)))))"

declare receive_alone.simps [simp del]

lemma do_gossip_round_choose:
  "do_gossip_round pick ge =
     (case choose_peer pick ge of
        None \<Rightarrow> None
      | Some (ge', mode, None) \<Rightarrow> Some (ge', [])
      | Some (ge', mode, Some i) \<Rightarrow>
          if strategy ge' = WYTHOFF \<and> mode = PULL
          then Some (ge', [send_to_peer ge' i (bare_message GOSSIP_PULL ge')])
          else Some (ge', [send_to_peer ge' i
                 ((bare_message (if strategy ge' = WYTHOFF then GOSSIP_PUSH else GOSSIP_PUSH_PULL) ge')
                    \<lparr>operations := recent_operations (get_operation_log (ge_book ge'))\<rparr>)]))"
  by (simp add: do_gossip_round_def choose_peer_def)

lemmas micro_defs = gossip_micro_def round_micro_def loop_micro_def Let_def

text \<open>The second half of an iteration.\<close>

lemma beat_alone:
  assumes "g_pc s = G_beat t"
  shows "gossip_alone (Suc (Suc (Suc n))) pick pick' now s =
    (let (hb, out) = heartbeat pick' t (last_beat s) (shared s)
     in Some (s\<lparr>shared := check_liveness t (shared s), last_beat := hb, g_pc := G_idle\<rparr>, out))"
  using assms by (auto simp: micro_defs heartbeat_def Let_def split: option.split)

lemma step_alone:
  "gossip_micro pick pick' now s = Some (s1, out1) \<Longrightarrow> g_pc s1 \<noteq> G_idle \<Longrightarrow>
    gossip_alone (Suc n) pick pick' now s = map_option (\<lambda>(s2, out2). (s2, out1 @ out2)) (gossip_alone n pick pick' now s1)"
  by (auto split: option.split)

lemma round_alone:
  assumes "g_pc s = G_round t"
  shows "gossip_alone 6 pick pick' now s =
    (case do_gossip_round pick (shared s) of
       None \<Rightarrow> None
     | Some (ge, out) \<Rightarrow>
         let (hb, out') = heartbeat pick' t (last_beat s) ge
         in Some (s\<lparr>shared := check_liveness t ge, last_beat := hb, g_pc := G_idle\<rparr>, out @ out'))"
proof (cases "choose_peer pick (shared s)")
  case None
  then show ?thesis using assms by (simp add: micro_defs do_gossip_round_choose numeral_eq_Suc)
next
  case (Some r)
  obtain ge mode tgt where r: "r = (ge, mode, tgt)" by (cases r)
  have beat: "gossip_alone n pick pick' now q =
      (let (hb, out') = heartbeat pick' t (last_beat s) ge
       in Some (s\<lparr>shared := check_liveness t ge, last_beat := hb, g_pc := G_idle\<rparr>, out'))"
    if q: "q = s\<lparr>shared := ge, g_pc := G_beat t\<rparr>" and n: "n = Suc (Suc (Suc m))" for n m q
    using beat_alone [of q t m pick pick' now] unfolding n by (simp add: q del: gossip_alone.simps)
  have beats: "gossip_alone n pick pick' now (s\<lparr>shared := ge, g_pc := G_beat t\<rparr>) =
      (let (hb, out') = heartbeat pick' t (last_beat s) ge
       in Some (s\<lparr>shared := check_liveness t ge, last_beat := hb, g_pc := G_idle\<rparr>, out'))" if "n \<in> {3, 4, 5}" for n
    using that beat [OF refl, of n "n - 3"] by (auto simp: numeral_eq_Suc simp del: gossip_alone.simps)
  show ?thesis
  proof (cases tgt)
    case None
    have "gossip_micro pick pick' now s = Some (s\<lparr>shared := ge, g_pc := G_beat t\<rparr>, [])"
      using assms Some r None by (simp add: micro_defs)
    from step_alone [OF this, of 5] show ?thesis
      by (simp add: beats do_gossip_round_choose Some r None case_prod_beta)
  next
    case (Some i)
    let ?c = "s\<lparr>shared := ge, g_pc := G_clock t i mode\<rparr>" and ?l = "s\<lparr>shared := ge, g_pc := G_log t i (get_clock (ge_book ge))\<rparr>"
      and ?b = "s\<lparr>shared := ge, g_pc := G_beat t\<rparr>"
    have c: "gossip_micro pick pick' now s = Some (?c, [])"
      using assms \<open>choose_peer pick (shared s) = Some r\<close> r Some by (simp add: micro_defs)
    note c = step_alone [OF c, of 5]
    show ?thesis
    proof (cases "strategy ge = WYTHOFF \<and> mode = PULL")
      case True
      have "gossip_micro pick pick' now ?c = Some (?b, [send_to_peer ge i (bare_message GOSSIP_PULL ge)])"
        using True by (simp add: micro_defs bare_message_def)
      from step_alone [OF this, of 4] show ?thesis
        using c True \<open>choose_peer pick (shared s) = Some r\<close>
        by (simp add: beats do_gossip_round_choose r Some case_prod_beta)
    next
      case False
      have l: "gossip_micro pick pick' now ?c = Some (?l, [])"
        using False by (simp add: micro_defs Let_def)
      have "gossip_micro pick pick' now ?l = Some (?b, [send_to_peer ge i
          ((bare_message (if strategy ge = WYTHOFF then GOSSIP_PUSH else GOSSIP_PUSH_PULL) ge)
            \<lparr>operations := recent_operations (get_operation_log (ge_book ge))\<rparr>)])"
        by (simp add: micro_defs bare_message_def)
      from step_alone [OF this, of 3] step_alone [OF l, of 4] show ?thesis
        using c False \<open>choose_peer pick (shared s) = Some r\<close>
        by (auto simp: beats do_gossip_round_choose r Some case_prod_beta)
    qed
  qed
qed

text \<open>The receiving thread, from the end of its work back.\<close>

lemma idle_alone: "r_pc s = R_idle \<Longrightarrow> receive_alone n s = Some (s, [])"
  by (simp add: receive_alone.simps [of n s])

lemma busy_alone:
  "r_pc s \<noteq> R_idle \<Longrightarrow> receive_alone (Suc n) s =
    map_option (\<lambda>(s2, out2). (s2, snd (receive_micro s) @ out2)) (receive_alone n (fst (receive_micro s)))"
  by (simp add: receive_alone.simps [of "Suc n" s] case_prod_beta split: option.split)

lemma reply_alone:
  "r_pc s = R_reply ty ops host port \<Longrightarrow> receive_alone (Suc n) s =
    Some (s\<lparr>r_pc := R_idle\<rparr>, [send_message ((bare_message ty (shared s))\<lparr>operations := ops\<rparr>) host port])"
  by (simp add: busy_alone receive_micro_def Let_def idle_alone)

lemma since_alone:
  assumes "r_pc s = R_since msg host port"
  shows "receive_alone (Suc (Suc n)) s = Some (s\<lparr>r_pc := R_idle\<rparr>,
    (let ours = get_operations_since (ge_book (shared s)) (sender_clock msg);
         reply = (\<lambda>ty ops. [send_message ((bare_message ty (shared s))\<lparr>operations := ops\<rparr>) host port])
     in if msg_type msg = ANTI_ENTROPY_REQ then reply ANTI_ENTROPY_RES ours
        else if ours = [] then []
        else if msg_type msg = GOSSIP_PUSH_PULL then reply GOSSIP_PUSH (take 20 ours)
        else reply GOSSIP_PUSH ours))"
  using assms by (simp add: busy_alone receive_micro_def Let_def idle_alone reply_alone [of _ _ _ host port])

lemma apply_alone:
  "r_pc s = R_apply msg ops host port \<Longrightarrow> receive_alone (length ops + 3) s =
    receive_alone 2 (s\<lparr>shared := (shared s)\<lparr>ge_book := apply_operations (ge_book (shared s)) ops\<rparr>,
      r_pc := (if msg_type msg = GOSSIP_PUSH_PULL then R_since msg host port else R_idle)\<rparr>)"
proof (induction ops arbitrary: s)
  case Nil
  then show ?case
    by (simp add: busy_alone [of s 2, simplified] receive_micro_def Let_def option.map_id)
next
  case (Cons op ops)
  let ?s = "s\<lparr>shared := (shared s)\<lparr>ge_book := fst (apply_remote_operation (ge_book (shared s)) op)\<rparr>,
      r_pc := R_apply msg ops host port\<rparr>"
  have "receive_alone (length (op # ops) + 3) s = receive_alone (length ops + 3) ?s"
    using Cons.prems busy_alone [of s "length ops + 3"]
    by (simp add: receive_micro_def Let_def) (cases "receive_alone (length ops + 3) ?s"; simp)
  then show ?case using Cons.IH [of ?s] by simp
qed

lemma begin_alone:
  assumes "r_pc s = R_idle" and "begin_message now msg host port s = (s1, out1)"
  shows "map_option (\<lambda>(s2, out2). (s2, out1 @ out2)) (receive_alone (length (operations msg) + 3) s1) =
    (let (ge, out) = handle_message (shared s) now msg host port in Some (s\<lparr>shared := ge\<rparr>, out))"
proof -
  obtain ps t where tp: "touch_peer (shared s) now (sender_id msg) host (peers (shared s)) = (ps, t)" by fastforce
  have idle: "s\<lparr>shared := ge, r_pc := R_idle\<rparr> = s\<lparr>shared := ge\<rparr>" for ge
    using assms(1) by simp
  have three: "receive_alone (length (operations msg) + 3) q = receive_alone (Suc (Suc (length (operations msg) + 1))) q" for q
    by (simp add: numeral_eq_Suc)
  show ?thesis
    using assms(2) unfolding begin_message_def tp
    by (cases "msg_type msg")
      (auto simp: handle_message_def tp Let_def apply_alone since_alone [of _ msg host port 0, simplified]
        since_alone [of _ msg host port "length (operations msg) + 1", folded three] idle_alone idle numeral_2_eq_2 assms(1))
qed

section \<open>A deployment of threads\<close>

record threaded =
  tnodes :: "string \<Rightarrow> threads"
  tnet :: "datagram set"

definition started :: "int \<Rightarrow> (string \<Rightarrow> config) \<Rightarrow> threaded" where
  "started now cfg =
     \<lparr>tnodes = \<lambda>n. \<lparr>shared = start_node now (cfg n), last_beat = now, g_pc = G_idle, r_pc = R_idle\<rparr>, tnet = {}\<rparr>"

inductive threaded_step :: "string set \<Rightarrow> threaded \<Rightarrow> threaded \<Rightarrow> bool" for K where
  serve: "n \<in> K \<Longrightarrow> request_ok qty0 junk uuid (shared (tnodes s n)) \<Longrightarrow>
    serve_client price0 qty0 junk uuid segs (shared (tnodes s n)) = (ge', answer) \<Longrightarrow> room ge' \<Longrightarrow>
    threaded_step K s (s\<lparr>tnodes := (tnodes s)(n := (tnodes s n)\<lparr>shared := ge'\<rparr>)\<rparr>)"
| gossip: "n \<in> K \<Longrightarrow> gossip_micro pick pick' now (tnodes s n) = Some (nd, out) \<Longrightarrow>
    threaded_step K s (s\<lparr>tnodes := (tnodes s)(n := nd), tnet := tnet s \<union> set out\<rparr>)"
| arrive: "n \<in> K \<Longrightarrow> r_pc (tnodes s n) = R_idle \<Longrightarrow> (h, q, bytes) \<in> tnet s \<Longrightarrow>
    begin_datagram now bytes host port (tnodes s n) = Some (nd, out) \<Longrightarrow>
    threaded_step K s (s\<lparr>tnodes := (tnodes s)(n := nd), tnet := tnet s \<union> set out\<rparr>)"
| receive: "n \<in> K \<Longrightarrow> r_pc (tnodes s n) \<noteq> R_idle \<Longrightarrow> receive_micro (tnodes s n) = (nd, out) \<Longrightarrow> room (shared nd) \<Longrightarrow>
    threaded_step K s (s\<lparr>tnodes := (tnodes s)(n := nd), tnet := tnet s \<union> set out\<rparr>)"

inductive threaded_run :: "string set \<Rightarrow> threaded \<Rightarrow> threaded \<Rightarrow> bool" for K s0 where
  init: "threaded_run K s0 s0"
| step: "threaded_run K s0 s \<Longrightarrow> threaded_step K s s' \<Longrightarrow> threaded_run K s0 s'"

end
