(* ===== verification/Gossip_Threads_Props.thy ===== *)
theory Gossip_Threads_Props
  imports Gossip_Threads
begin

text \<open>
  What the threads of a node do to each other: a thread that is not interrupted does what the
  definitions of \<open>Gossip\<close> say in one go, and under every interleaving the invariant holds, all
  datagrams can be read, and what a thread has read before the others went on is still good.
\<close>

section \<open>Uninterrupted threads\<close>

text \<open>The model of one iteration as a single step is right for a thread that runs alone: the
  seven steps of the gossip thread from the head of its loop, with no other thread in between,
  have the result, the datagrams and the undefined cases of \<^verbatim>\<open>gossip_iteration\<close>, and leave the
  time of the last heartbeat it returns.\<close>
lemma gossip_alone_is_iteration:
  assumes "g_pc s = G_idle"
  shows "gossip_alone 7 pick pick' now s =
    map_option (\<lambda>(ge, hb, out, ms). (s\<lparr>shared := ge, last_beat := hb\<rparr>, out))
      (gossip_iteration pick pick' now (last_beat s) (shared s))"
proof -
  let ?s = "s\<lparr>g_pc := G_round now\<rparr>"
  have same: "s\<lparr>shared := ge, last_beat := hb, g_pc := G_idle\<rparr> = s\<lparr>shared := ge, last_beat := hb\<rparr>" for ge hb
    using assms by simp
  have "gossip_micro pick pick' now s = Some (?s, [])" using assms by (simp add: micro_defs)
  from step_alone [OF this, of 6] have "gossip_alone 7 pick pick' now s = gossip_alone 6 pick pick' now ?s"
    by (simp add: option.map_id flip: id_def)
  also have "\<dots> = (case do_gossip_round pick (shared s) of
       None \<Rightarrow> None
     | Some (ge, out) \<Rightarrow>
         let (hb, out') = heartbeat pick' now (last_beat s) ge
         in Some (s\<lparr>shared := check_liveness now ge, last_beat := hb, g_pc := G_idle\<rparr>, out @ out'))"
    using round_alone [of ?s now pick pick' now] by (auto simp: Let_def case_prod_beta split: option.split)
  finally show ?thesis
    by (auto simp: gossip_iteration_def Let_def same case_prod_beta split: option.split)
qed

text \<open>Likewise for the receiving thread: the steps it takes for one datagram, with no other
  thread in between, are \<^verbatim>\<open>receive_datagram\<close>, and it takes at most three more than the
  message has operations.\<close>
lemma receive_alone_is_datagram:
  assumes "r_pc s = R_idle" and "msg_deserialize bytes = Inr msg" and "bytes \<noteq> []"
  shows "\<exists>s1 out1. begin_datagram now bytes host port s = Some (s1, out1) \<and>
    map_option (\<lambda>(s2, out2). (shared s2, out1 @ out2)) (receive_alone (length (operations msg) + 3) s1) =
      receive_datagram (shared s) now bytes host port"
proof -
  obtain s1 out1 where b: "begin_message now msg host port s = (s1, out1)" by fastforce
  have "map_option (\<lambda>(s2, out2). (shared s2, out1 @ out2)) (receive_alone (length (operations msg) + 3) s1) =
      map_option (\<lambda>(s2, out). (shared s2, out))
        (map_option (\<lambda>(s2, out2). (s2, out1 @ out2)) (receive_alone (length (operations msg) + 3) s1))"
    by (cases "receive_alone (length (operations msg) + 3) s1") (simp_all add: case_prod_beta)
  also have "\<dots> = Some (handle_message (shared s) now msg host port)"
    unfolding begin_alone [OF assms(1) b] by (simp add: case_prod_beta)
  finally show ?thesis using assms(2,3) b by (simp add: begin_datagram_def receive_datagram_def)
qed

section \<open>The invariant\<close>

text \<open>What a thread has in hand: a clock the node has had, operations of the deployment. Besides the
  format, a property \<open>P\<close> of operations is followed from the logs through the threads and the
  datagrams.\<close>

definition clock_before :: "gossip_engine \<Rightarrow> vector_clock \<Rightarrow> bool" where
  "clock_before ge vc \<longleftrightarrow> clock_fun vc \<le> clock_fun (clock (ge_book ge))"

definition gossip_ok :: "string set \<Rightarrow> threads \<Rightarrow> bool" where
  "gossip_ok K nd \<longleftrightarrow>
     (case g_pc nd of G_log t i clk \<Rightarrow> clock_ok K clk \<and> clock_before (shared nd) clk | _ \<Rightarrow> True)"

definition receive_ok :: "string set \<Rightarrow> (operation \<Rightarrow> bool) \<Rightarrow> receive_pc \<Rightarrow> bool" where
  "receive_ok K P r \<longleftrightarrow>
     (case r of
        R_apply msg ops host port \<Rightarrow> list_all (named_op K) ops \<and> list_all P ops
      | R_reply ty ops host port \<Rightarrow>
          byte_type (type_byte ty) = ty \<and> list_all (named_op K) ops \<and> length ops < 2 ^ 32 \<and> list_all P ops
      | _ \<Rightarrow> True)"

definition threads_ok :: "string set \<Rightarrow> (operation \<Rightarrow> bool) \<Rightarrow> threads \<Rightarrow> bool" where
  "threads_ok K P nd \<longleftrightarrow> engine_ok K (shared nd) \<and> list_all P (op_log (ge_book (shared nd))) \<and>
     gossip_ok K nd \<and> receive_ok K P (r_pc nd)"

definition readable :: "string set \<Rightarrow> (operation \<Rightarrow> bool) \<Rightarrow> datagram \<Rightarrow> bool" where
  "readable K P d \<longleftrightarrow> (\<exists>msg h q. message_ok K msg \<and> list_all P (operations msg) \<and> d = (h, q, msg_serialize msg))"

definition threaded_ok :: "string set \<Rightarrow> (operation \<Rightarrow> bool) \<Rightarrow> threaded \<Rightarrow> bool" where
  "threaded_ok K P s \<longleftrightarrow> (\<forall>n \<in> K. threads_ok K P (tnodes s n) \<and> ge_node (shared (tnodes s n)) = n) \<and>
     (\<forall>d \<in> tnet s. readable K P d)"

abbreviation any_op :: "operation \<Rightarrow> bool" where
  "any_op \<equiv> \<lambda>_. True"

text \<open>Clocks only grow, so a clock in hand stays one the node has had.\<close>

lemma clock_grows_remote:
  "clock_inv (op_clock op) \<Longrightarrow> clock_fun (clock st) \<le> clock_fun (clock (fst (apply_remote_operation st op)))"
  by (auto simp: apply_remote_operation_eq clock_fun_merge log_op_def le_fun_def)

lemma clock_cancel_filled: "clock (cancel_filled junk uuid n fs st) = clock st"
  by (induction junk uuid n fs st rule: cancel_filled.induct) (simp_all add: log_op_def)

lemma clock_grows_request:
  assumes "fits64 qty0" and "can_tick st"
  shows "clock_fun (clock st) \<le> clock_fun (clock (fst (handle_request price0 qty0 junk uuid request st)))"
proof (rule request_effect [OF assms(1), of price0 junk uuid request st])
qed (use tick_later [OF assms(2)] in
  \<open>auto simp: local_add_order_def local_cancel_order_def local_market_order_def Let_def case_prod_beta
     clock_cancel_filled log_op_def\<close>)

section \<open>Every step keeps it\<close>

lemma readableI:
  assumes "engine_ok K ge" and "byte_type (type_byte ty) = ty" and "clock_ok K clk" and "list_all (named_op K) ops"
    and "length ops < 2 ^ 32" and "list_all P ops"
  shows "readable K P (send_message \<lparr>msg_type = ty, sender_id = ge_node ge, sender_clock = clk, operations = ops\<rparr> h q)"
proof -
  have "ge_node ge \<in> K" using assms(1) by (simp add: engine_ok_def book_ok_def)
  then have "message_ok K \<lparr>msg_type = ty, sender_id = ge_node ge, sender_clock = clk, operations = ops\<rparr>"
    using assms(2-5) by (simp add: message_ok_def)
  then show ?thesis using assms(6) unfolding readable_def send_message_def by fastforce
qed

lemma readable_sent:
  assumes "engine_ok K ge" and "list_all P (op_log (ge_book ge))" and "sent_by ge d" shows "readable K P d"
proof -
  obtain msg h q where msg: "own_message ge msg" "d = (h, q, msg_serialize msg)" using assms(3) by (auto simp: sent_by_def)
  then have "list_all P (operations msg)" using assms(2) by (auto simp: own_message_def list_all_iff)
  with own_message_ok [OF assms(1) msg(1)] msg(2) show ?thesis by (auto simp: readable_def)
qed

lemma log_parts:
  "list_all P (op_log (ge_book ge)) \<Longrightarrow> list_all P (recent_operations (op_log (ge_book ge)))"
  "list_all P (op_log (ge_book ge)) \<Longrightarrow> list_all P (get_operations_since (ge_book ge) vc)"
  using recent_operations_own [of "op_log (ge_book ge)"] since_own [of "ge_book ge" vc] by (auto simp: list_all_iff)

lemma engine_parts:
  "engine_ok K ge \<Longrightarrow> clock_ok K (clock (ge_book ge))"
  "engine_ok K ge \<Longrightarrow> list_all (named_op K) (recent_operations (op_log (ge_book ge)))"
  "engine_ok K ge \<Longrightarrow> length (recent_operations (op_log (ge_book ge))) < 2 ^ 32"
  "engine_ok K ge \<Longrightarrow> list_all (named_op K) (get_operations_since (ge_book ge) vc)"
  "engine_ok K ge \<Longrightarrow> length (get_operations_since (ge_book ge) vc) < 2 ^ 32"
  using recent_operations_own [of "op_log (ge_book ge)"] since_own [of "ge_book ge" vc]
  by (auto simp: engine_ok_def book_ok_def list_all_iff)

lemma choose_peer_engine:
  assumes "engine_ok K ge" and "choose_peer pick ge = Some (ge', mode, tgt)"
  shows "engine_ok K ge'" "ge_node ge' = ge_node ge" "ge_book ge' = ge_book ge" "peers ge' = peers ge"
proof -
  have "\<exists>out. do_gossip_round pick ge = Some (ge', out)"
    using assms(2) by (cases tgt) (auto simp: do_gossip_round_choose)
  then obtain out where "do_gossip_round pick ge = Some (ge', out)" by blast
  note R = do_gossip_round_engine [OF this]
  show "ge_node ge' = ge_node ge" "ge_book ge' = ge_book ge" "peers ge' = peers ge" by (rule R)+
  show "engine_ok K ge'" using assms(1) R by (simp add: engine_ok_def)
qed

text \<open>Where the peers are does not change: only their ids, liveness and times do.\<close>

definition places :: "gossip_engine \<Rightarrow> (string \<times> u16) list" where
  "places ge = map (\<lambda>p. (peer_host p, peer_port p)) (peers ge)"

lemma places_touch: "map (\<lambda>p. (peer_host p, peer_port p)) (fst (touch_peer ge now sid host ps)) =
    map (\<lambda>p. (peer_host p, peer_port p)) ps"
  by (induction ge now sid host ps rule: touch_peer.induct) (auto simp: Let_def split: prod.splits)

lemma places_liveness: "places (check_liveness now ge) = places ge"
  by (simp add: places_def check_liveness_def comp_def if_distrib cong: if_cong)

lemma gossip_micro_ok:
  assumes "threads_ok K P nd" and "gossip_micro pick pick' now nd = Some (nd', out)"
  shows "threads_ok K P nd' \<and> list_all (readable K P) out \<and> ge_node (shared nd') = ge_node (shared nd) \<and>
    places (shared nd') = places (shared nd) \<and> ge_book (shared nd') = ge_book (shared nd)"
proof -
  have e: "engine_ok K (shared nd)" "receive_ok K P (r_pc nd)" "gossip_ok K nd" "list_all P (op_log (ge_book (shared nd)))"
    using assms(1) by (simp_all add: threads_ok_def)
  note sent = readableI [OF e(1)] engine_parts [OF e(1)] log_parts [OF e(4)]
  have live: "engine_ok K (check_liveness now (shared nd))" for now
    using e(1) by (simp add: engine_ok_def check_liveness_def)
  show ?thesis
  proof (cases "g_pc nd")
    case (G_round t)
    then obtain ge' mode tgt where "choose_peer pick (shared nd) = Some (ge', mode, tgt)"
      using assms(2) by (auto simp: micro_defs split: option.splits)
    with choose_peer_engine [OF e(1) this] show ?thesis
      using assms(2) e G_round
      by (cases tgt) (auto simp: micro_defs threads_ok_def gossip_ok_def places_def)
  next
    case (G_clock t i mode)
    then show ?thesis
      using assms(2) e sent by (auto simp: micro_defs Let_def threads_ok_def gossip_ok_def get_clock_def send_to_peer_def
          clock_before_def split: if_splits)
  next
    case (G_log t i clk)
    then show ?thesis
      using assms(2) e sent
      by (auto simp: micro_defs threads_ok_def gossip_ok_def send_to_peer_def get_operation_log_def)
  next
    case (G_beat t)
    then show ?thesis
      using assms(2) e by (auto simp: micro_defs Let_def threads_ok_def gossip_ok_def split: if_splits option.splits)
  next
    case (G_beat_clock t i)
    then show ?thesis
      using assms(2) e sent
      by (auto simp: micro_defs threads_ok_def gossip_ok_def send_to_peer_def bare_message_def get_clock_def)
  next
    case (G_live t)
    then show ?thesis
      using assms(2) e live places_liveness by (auto simp: micro_defs threads_ok_def gossip_ok_def check_liveness_def)
  next
    case G_idle
    then show ?thesis using assms(2) e by (auto simp: micro_defs threads_ok_def gossip_ok_def)
  qed
qed

text \<open>The other thread and the clients leave the clock in the gossip thread's hand good.\<close>

lemma gossip_ok_grows:
  "gossip_ok K nd \<Longrightarrow> g_pc nd' = g_pc nd \<Longrightarrow>
    clock_fun (clock (ge_book (shared nd))) \<le> clock_fun (clock (ge_book (shared nd'))) \<Longrightarrow> gossip_ok K nd'"
  by (auto simp: gossip_ok_def clock_before_def split: gossip_pc.splits intro: order_trans)

lemma begin_message_ok:
  assumes "threads_ok K P nd" and "message_ok K msg" and "list_all P (operations msg)"
    and "begin_message now msg host port nd = (nd', out)"
  shows "threads_ok K P nd' \<and> list_all (readable K P) out \<and> ge_node (shared nd') = ge_node (shared nd) \<and>
    places (shared nd') = places (shared nd) \<and> ge_book (shared nd') = ge_book (shared nd)"
proof -
  let ?t = "touch_peer (shared nd) now (sender_id msg) host (peers (shared nd))"
  have e: "engine_ok K (shared nd)" "gossip_ok K nd" "list_all P (op_log (ge_book (shared nd)))"
    using assms(1) by (simp_all add: threads_ok_def)
  have nd': "shared nd' = (shared nd)\<lparr>peers := fst ?t\<rparr>" "g_pc nd' = g_pc nd" "out = snd ?t"
    using assms(4) by (auto simp: begin_message_def case_prod_beta)
  have "engine_ok K (shared nd')"
    using e(1) touch_peer_length [of "shared nd" now "sender_id msg" host "peers (shared nd)"]
    by (auto simp: nd'(1) engine_ok_def)
  moreover have "gossip_ok K nd'" by (rule gossip_ok_grows [OF e(2) nd'(2)]) (simp add: nd'(1))
  moreover have "receive_ok K P (r_pc nd')"
    using assms(2-4) by (auto simp: begin_message_def case_prod_beta receive_ok_def message_ok_def)
  moreover have "list_all (readable K P) out"
    using touch_peer_sent [of "shared nd" now "sender_id msg" host "peers (shared nd)"]
      readable_sent [OF e(1,3)]
    by (auto simp: nd'(3) list_all_iff)
  ultimately show ?thesis using e(3) by (simp add: threads_ok_def nd'(1) places_def places_touch)
qed

lemma receive_micro_ok:
  assumes "threads_ok K P nd" and "receive_micro nd = (nd', out)" and "room (shared nd')"
  shows "threads_ok K P nd' \<and> list_all (readable K P) out \<and> ge_node (shared nd') = ge_node (shared nd) \<and>
    places (shared nd') = places (shared nd)"
proof -
  have e: "engine_ok K (shared nd)" "gossip_ok K nd" "receive_ok K P (r_pc nd)" "list_all P (op_log (ge_book (shared nd)))"
    using assms(1) by (simp_all add: threads_ok_def)
  note sent = readableI [OF e(1)] engine_parts [OF e(1)] log_parts [OF e(4)]
  have idle: "gossip_ok K (nd\<lparr>r_pc := r\<rparr>)" for r by (rule gossip_ok_grows [OF e(2)]) simp_all
  show ?thesis
  proof (cases "r_pc nd")
    case (R_apply msg ops host port)
    show ?thesis
    proof (cases ops)
      case Nil
      then show ?thesis
        using assms(2) e R_apply by (auto simp: receive_micro_def Let_def threads_ok_def receive_ok_def idle)
    next
      case (Cons op ops')
      have op: "named_op K op" "list_all (named_op K) ops'" "P op" "list_all P ops'"
        using e(3) R_apply Cons by (simp_all add: receive_ok_def)
      let ?bk = "fst (apply_remote_operation (ge_book (shared nd)) op)"
      have nd': "shared nd' = (shared nd)\<lparr>ge_book := ?bk\<rparr>" "g_pc nd' = g_pc nd" "r_pc nd' = R_apply msg ops' host port" "out = []"
        using assms(2) R_apply Cons by (auto simp: receive_micro_def Let_def)
      have "book_ok K ?bk" by (rule book_ok_remote) (use e(1) op(1) in \<open>simp_all add: engine_ok_def\<close>)
      moreover have "crdt_node ?bk = crdt_node (ge_book (shared nd))"
        by (simp add: apply_remote_operation_eq log_op_def)
      ultimately have "engine_ok K (shared nd')"
        using e(1) assms(3) by (simp add: nd'(1) engine_ok_def)
      moreover have "gossip_ok K nd'"
        by (rule gossip_ok_grows [OF e(2) nd'(2)])
          (use op(1) clock_grows_remote in \<open>simp add: nd'(1) named_op_def op_ok_def\<close>)
      moreover have "list_all P (op_log ?bk)" using e(4) op(3) by (simp add: apply_remote_operation_eq log_op_def)
      ultimately show ?thesis using op(2,4) by (simp add: threads_ok_def nd' receive_ok_def places_def)
    qed
  next
    case (R_since msg host port)
    have taken: "list_all Q (take 20 (get_operations_since (ge_book (shared nd)) (sender_clock msg)))"
      if "list_all Q (get_operations_since (ge_book (shared nd)) (sender_clock msg))" for Q
      using that by (metis append_take_drop_id list_all_append)
    show ?thesis
      using assms(2) e sent(5,6,8) [of "sender_clock msg"] taken [OF sent(5) [of "sender_clock msg"]]
        taken [OF sent(8) [of "sender_clock msg"]] R_since
      by (auto simp: receive_micro_def Let_def threads_ok_def idle receive_ok_def min_less_iff_disj)
  next
    case (R_reply ty ops host port)
    then show ?thesis
      using assms(2) e sent(1) [of ty "clock (ge_book (shared nd))" ops P host port] sent(2)
      by (auto simp: receive_micro_def Let_def threads_ok_def idle receive_ok_def bare_message_def get_clock_def)
  next
    case R_idle
    then show ?thesis using assms by (auto simp: receive_micro_def)
  qed
qed

lemma threaded_ok_node:
  assumes "threaded_ok K P s" and "threads_ok K P nd" and "ge_node (shared nd) = ge_node (shared (tnodes s n))"
    and "list_all (readable K P) out"
  shows "threaded_ok K P (s\<lparr>tnodes := (tnodes s)(n := nd), tnet := tnet s \<union> set out\<rparr>)"
  using assms by (auto simp: threaded_ok_def list_all_iff)

lemma begin_datagram_ok:
  assumes "names_ok K" and "threads_ok K P nd" and "readable K P (h, q, bytes)" and "\<And>op. P op \<Longrightarrow> P (received_operation op)"
    and "begin_datagram now bytes host port nd = Some (nd', out)"
  shows "threads_ok K P nd' \<and> list_all (readable K P) out \<and> ge_node (shared nd') = ge_node (shared nd) \<and>
    places (shared nd') = places (shared nd) \<and> ge_book (shared nd') = ge_book (shared nd)"
proof -
  obtain msg where msg: "message_ok K msg" "bytes = msg_serialize msg" "list_all P (operations msg)"
    using assms(3) by (auto simp: readable_def)
  have "msg_deserialize bytes = Inr (received_message msg)"
    using msg_round_trip [OF message_ok_wire [OF assms(1) msg(1)], of "[]"] by (simp add: msg(2))
  moreover have "bytes \<noteq> []" by (simp add: msg(2) msg_serialize_eq write_u8_def)
  ultimately have "begin_message now (received_message msg) host port nd = (nd', out)"
    using assms(5) by (simp add: begin_datagram_def)
  moreover have "list_all P (operations (received_message msg))"
    using msg(3) assms(4) by (auto simp: received_message_def list_all_iff)
  ultimately show ?thesis by (intro begin_message_ok [OF assms(2) message_ok_received [OF msg(1)]])
qed

lemma serve_threads_ok:
  assumes "names_ok K" and "threads_ok K P nd" and "request_ok qty0 junk uuid (shared nd)"
    and "serve_client price0 qty0 junk uuid segs (shared nd) = (ge', answer)" and "room ge'" and "list_all P (op_log (ge_book ge'))"
  shows "threads_ok K P (nd\<lparr>shared := ge'\<rparr>) \<and> ge_node ge' = ge_node (shared nd) \<and> places ge' = places (shared nd)"
proof -
  have nd: "engine_ok K (shared nd)" "gossip_ok K nd" "receive_ok K P (r_pc nd)" using assms(2) by (simp_all add: threads_ok_def)
  note S = serve_client_engine [OF assms(1) nd(1) assms(3-5)]
  have r: "fits64 qty0" "can_tick (ge_book (shared nd))" using assms(3) by (simp_all add: request_ok_def)
  have "clock_fun (clock (ge_book (shared nd))) \<le> clock_fun (clock (ge_book ge'))"
    using assms(4) clock_grows_request [OF r]
    by (auto simp: serve_client_def handle_client_def main_handler_def Let_def case_prod_beta split: if_splits)
  then have "gossip_ok K (nd\<lparr>shared := ge'\<rparr>)" by (intro gossip_ok_grows [OF nd(2)]) simp_all
  moreover have "peers ge' = peers (shared nd)" using S by (metis gossip_engine.select_convs(3) gossip_engine.surjective gossip_engine.update_convs(2))
  ultimately show ?thesis using S nd(3) assms(6) by (simp add: threads_ok_def places_def)
qed

lemma any_log: "list_all any_op ops"
  by (simp add: list_all_iff)

text \<open>One step at one node.\<close>

lemma threaded_step_node:
  assumes "names_ok K" and "threaded_ok K any_op s" and "threaded_step K s s'"
  shows "threaded_ok K any_op s' \<and> (\<forall>m. places (shared (tnodes s' m)) = places (shared (tnodes s m)))"
proof -
  have N: "threads_ok K any_op (tnodes s n)" if "n \<in> K" for n using assms(2) that by (simp add: threaded_ok_def)
  from assms(3) show ?thesis
  proof cases
    case (serve n qty0 junk uuid price0 segs ge' answer)
    note S = serve_threads_ok [OF assms(1) N [OF serve(2)] serve(3-5) any_log]
    then have "threaded_ok K any_op (s\<lparr>tnodes := (tnodes s)(n := (tnodes s n)\<lparr>shared := ge'\<rparr>), tnet := tnet s \<union> set []\<rparr>)"
      by (intro threaded_ok_node [OF assms(2)]) simp_all
    then show ?thesis using S serve(1) by simp
  next
    case (gossip n pick pick' now nd out)
    note G = gossip_micro_ok [OF N [OF gossip(2)] gossip(3)]
    then have "threaded_ok K any_op s'" unfolding gossip(1) by (intro threaded_ok_node [OF assms(2)]) simp_all
    then show ?thesis using G gossip(1) by simp
  next
    case (arrive n h q bytes now host port nd out)
    have "readable K any_op (h, q, bytes)" using assms(2) arrive(4) by (simp add: threaded_ok_def)
    note A = begin_datagram_ok [OF assms(1) N [OF arrive(2)] this _ arrive(5)]
    then have "threaded_ok K any_op s'" unfolding arrive(1) by (intro threaded_ok_node [OF assms(2)]) simp_all
    then show ?thesis using A arrive(1) by simp
  next
    case (receive n nd out)
    note R = receive_micro_ok [OF N [OF receive(2)] receive(4,5)]
    then have "threaded_ok K any_op s'" unfolding receive(1) by (intro threaded_ok_node [OF assms(2)]) simp_all
    then show ?thesis using R receive(1) by simp
  qed
qed

lemma started_ok:
  assumes "config_ok K cfg" shows "names_ok K" and "threaded_ok K any_op (started now cfg)"
proof -
  show "names_ok K" using assms by (simp add: config_ok_def)
  have "deployment_ok K (initial now cfg)"
    by (rule initial_ok) (use assms in \<open>simp add: config_ok_def\<close>)
  then show "threaded_ok K any_op (started now cfg)"
    by (simp add: deployment_ok_def threaded_ok_def started_def initial_def threads_ok_def gossip_ok_def receive_ok_def
        list_all_iff)
qed

lemma threaded_run_ok:
  assumes "config_ok K cfg" and "threaded_run K (started now0 cfg) s"
  shows "threaded_ok K any_op s" and "places (shared (tnodes s n)) = places (start_node now0 (cfg n))"
proof -
  have "threaded_ok K any_op s \<and> (\<forall>n. places (shared (tnodes s n)) = places (start_node now0 (cfg n)))"
    using assms(2)
  proof induction
    case init
    then show ?case using started_ok(2) [OF assms(1)] by (simp add: started_def)
  next
    case (step s s')
    then show ?case using threaded_step_node [OF started_ok(1) [OF assms(1)], of s s'] by simp
  qed
  then show "threaded_ok K any_op s" and "places (shared (tnodes s n)) = places (start_node now0 (cfg n))" by simp_all
qed

text \<open>A run up to the moment node a has read its clock, and one step further.\<close>

lemma sample_threads:
  obtains s clk i s' d where "threaded_run {''a'', ''b''} (started 0 pair_config) s" "g_pc (tnodes s ''a'') = G_log 0 i clk"
    "threaded_run {''a'', ''b''} (started 0 pair_config) s'" "d \<in> tnet s'"
proof -
  let ?i = "started 0 pair_config"
  define nd where "nd = tnodes ?i ''a''"
  obtain i where ch: "choose_peer (\<lambda>_. 0) (shared nd) = Some (shared nd, PUSH, Some i)"
    by (simp add: nd_def choose_peer_def started_def start_node_def pair_config_def default_config_def new_engine_def
        strategy_of_config_def peers_of_config_def select_random_peer_def alive_indices_def Let_def)
  have nd: "g_pc nd = G_idle" "strategy (shared nd) = RANDOM"
    by (simp_all add: nd_def started_def start_node_def pair_config_def default_config_def new_engine_def strategy_of_config_def)
  have go: "threaded_run {''a'', ''b''} ?i (s\<lparr>tnodes := (tnodes s)(''a'' := q), tnet := tnet s \<union> set out\<rparr>)"
    if "threaded_run {''a'', ''b''} ?i s" "gossip_micro (\<lambda>_. 0) (\<lambda>_. 0) 0 (tnodes s ''a'') = Some (q, out)" for s q out
    by (rule threaded_run.step [OF that(1) threaded_step.gossip [OF _ that(2)]]) simp
  let ?clk = "get_clock (ge_book (shared nd))"
  let ?n1 = "nd\<lparr>g_pc := G_round 0\<rparr>" and ?n2 = "nd\<lparr>g_pc := G_clock 0 i PUSH\<rparr>" and ?n3 = "nd\<lparr>g_pc := G_log 0 i ?clk\<rparr>"
  have m: "gossip_micro (\<lambda>_. 0) (\<lambda>_. 0) 0 nd = Some (?n1, [])" "gossip_micro (\<lambda>_. 0) (\<lambda>_. 0) 0 ?n1 = Some (?n2, [])"
    "gossip_micro (\<lambda>_. 0) (\<lambda>_. 0) 0 ?n2 = Some (?n3, [])"
    using ch nd by (simp_all add: micro_defs)
  obtain n4 d where m4: "gossip_micro (\<lambda>_. 0) (\<lambda>_. 0) 0 ?n3 = Some (n4, [d])" by (simp add: micro_defs)
  obtain s1 where s1: "threaded_run {''a'', ''b''} ?i s1" "tnodes s1 ''a'' = ?n1"
    by (rule that [OF go [OF threaded_run.init m(1) [unfolded nd_def]]]) (simp add: nd_def)
  obtain s2 where s2: "threaded_run {''a'', ''b''} ?i s2" "tnodes s2 ''a'' = ?n2"
    by (rule that [OF go [OF s1(1)]]) (use s1(2) m(2) in simp_all)
  obtain s3 where s3: "threaded_run {''a'', ''b''} ?i s3" "tnodes s3 ''a'' = ?n3"
    by (rule that [OF go [OF s2(1)]]) (use s2(2) m(3) in simp_all)
  obtain s4 where s4: "threaded_run {''a'', ''b''} ?i s4" "d \<in> tnet s4"
    by (rule that [OF go [OF s3(1), of n4 "[d]"]]) (use s3(2) m4 in simp_all)
  show thesis by (rule that [OF s3(1) _ s4]) (simp add: s3(2))
qed

section \<open>Under every interleaving\<close>

text \<open>C9: however the threads of the nodes and their clients interleave, in every state reached every
  node's book keeps its invariant, and every datagram ever sent by a thread, also one composed of a
  clock and operations read at different moments, can be read by any node that is waiting for
  one: no exception, no read outside the buffer.\<close>
theorem threads_never_fault:
  assumes "config_ok K cfg" and "threaded_run K (started now0 cfg) s" and "n \<in> K"
  shows "crdt_inv (ge_book (shared (tnodes s n))) \<and>
    (\<forall>(h, q, bytes) \<in> tnet s. \<exists>msg. msg_deserialize bytes = Inr msg \<and>
      begin_datagram now bytes host port (tnodes s n) = Some (begin_message now msg host port (tnodes s n)))"
proof -
  note ok = threaded_run_ok(1) [OF assms(1,2)]
  have "threads_ok K any_op (tnodes s n)" using ok assms(3) by (simp add: threaded_ok_def)
  then have "crdt_inv (ge_book (shared (tnodes s n)))" by (simp add: threads_ok_def engine_ok_def book_ok_def)
  moreover have "\<exists>msg. msg_deserialize bytes = Inr msg \<and>
      begin_datagram now bytes host port (tnodes s n) = Some (begin_message now msg host port (tnodes s n))"
    if "(h, q, bytes) \<in> tnet s" for h q bytes
  proof -
    have "readable K any_op (h, q, bytes)" using ok that by (simp add: threaded_ok_def)
    then obtain msg where msg: "message_ok K msg" "bytes = msg_serialize msg" by (auto simp: readable_def)
    have "msg_deserialize bytes = Inr (received_message msg)"
      using msg_round_trip [OF message_ok_wire [OF started_ok(1) [OF assms(1)] msg(1)], of "[]"] by (simp add: msg(2))
    moreover have "bytes \<noteq> []" by (simp add: msg(2) msg_serialize_eq write_u8_def)
    ultimately show ?thesis by (simp add: begin_datagram_def)
  qed
  ultimately show ?thesis by blast
qed

theorem threads_never_fault_witness:
  "\<exists>s d msg. threaded_run {''a'', ''b''} (started 0 pair_config) s \<and> d \<in> tnet s \<and> msg_deserialize (snd (snd d)) = Inr msg"
proof -
  obtain s d where s: "threaded_run {''a'', ''b''} (started 0 pair_config) s" "d \<in> tnet s" by (rule sample_threads)
  obtain h q bytes where d: "d = (h, q, bytes)" by (cases d)
  obtain msg where "msg_deserialize bytes = Inr msg"
    using threads_never_fault [OF pair_config_ok s(1), of "''a''"] s(2) d by blast
  with s d show ?thesis by (intro exI [of _ s] exI [of _ d] exI [of _ msg]) simp
qed

text \<open>C33: what the gossip thread reads without holding a lock is good: the host and port of the peer it
  chose, read when it sends, are those its configuration gave, whatever the receiving thread
  did to the table in between; and the clock it has read, which it sends with operations it reads
  later, has only been overtaken by the node's own, never passed it.\<close>
theorem unlocked_reads_stable:
  assumes "config_ok K cfg" and "threaded_run K (started now0 cfg) s" and "n \<in> K"
  shows "map (\<lambda>p. (peer_host p, peer_port p)) (peers (shared (tnodes s n))) =
      map (\<lambda>pa. (pa_host pa, pa_port pa)) (seed_peers (cfg n)) \<and>
    (\<forall>t i clk. g_pc (tnodes s n) = G_log t i clk \<longrightarrow>
      clock_fun clk \<le> clock_fun (get_clock (ge_book (shared (tnodes s n)))))"
proof -
  have "threads_ok K any_op (tnodes s n)" using threaded_run_ok(1) [OF assms(1,2)] assms(3) by (simp add: threaded_ok_def)
  then have "clock_fun clk \<le> clock_fun (get_clock (ge_book (shared (tnodes s n))))" if "g_pc (tnodes s n) = G_log t i clk" for t i clk
    using that by (simp add: threads_ok_def gossip_ok_def clock_before_def get_clock_def)
  moreover have "places (start_node now0 (cfg n)) = map (\<lambda>pa. (pa_host pa, pa_port pa)) (seed_peers (cfg n))"
    by (simp add: places_def start_node_def new_engine_def peers_of_config_def comp_def)
  ultimately show ?thesis using threaded_run_ok(2) [OF assms(1,2), of n] by (simp add: places_def)
qed

theorem unlocked_reads_stable_witness:
  "\<exists>s t i clk. threaded_run {''a'', ''b''} (started 0 pair_config) s \<and> g_pc (tnodes s ''a'') = G_log t i clk \<and>
    clock_fun clk \<le> clock_fun (get_clock (ge_book (shared (tnodes s ''a''))))"
proof -
  obtain s i clk where s: "threaded_run {''a'', ''b''} (started 0 pair_config) s" "g_pc (tnodes s ''a'') = G_log 0 i clk"
    by (rule sample_threads)
  with unlocked_reads_stable [OF pair_config_ok s(1), of "''a''"] show ?thesis by blast
qed

end
