(* ===== verification/Refinement.thy ===== *)
theory Refinement
  imports Gossip_Threads_Props
begin

text \<open>
  The program implements the abstract cluster: every run of the nodes' threads, over the bytes of
  their datagrams, is a run of the step relation of \<open>CRDT_Cluster\<close>, in which an operation goes
  from one node to another whole and in one step. So what is proved of that relation holds of
  the deployment. The wire does change an operation: its clock's entries come back in another order, a price
  loses what ten-thousandths cannot hold, and the order of a cancel is garbage to begin with; the
  relation between the two levels abstracts from the first and the last and asks for prices that are
  exact.
\<close>

section \<open>The relation\<close>

definition exact_op :: "operation \<Rightarrow> bool" where
  "exact_op op \<longleftrightarrow> (op_type op = ADD_ORDER \<longrightarrow> wire_price (price (op_order op)) = price (op_order op))"

definition same_op :: "operation \<Rightarrow> operation \<Rightarrow> bool" where
  "same_op op op' \<longleftrightarrow> op_id op = op_id op' \<and> op_type op = op_type op' \<and> cancel_order_id op = cancel_order_id op' \<and>
     (op_type op = ADD_ORDER \<longrightarrow> op_order op = op_order op') \<and> clock_fun (op_clock op) = clock_fun (op_clock op')"

definition same_book :: "crdt_book \<Rightarrow> crdt_book \<Rightarrow> bool" where
  "same_book st st' \<longleftrightarrow> crdt_node st = crdt_node st' \<and> book st = book st' \<and> seen_ops st = seen_ops st' \<and>
     clock_fun (clock st) = clock_fun (clock st') \<and> list_all2 same_op (op_log st) (op_log st')"

text \<open>An operation on its way stands for one that a node of the cluster has logged.\<close>

definition known :: "cluster \<Rightarrow> operation \<Rightarrow> bool" where
  "known c op \<longleftrightarrow> exact_op op \<and> clock_inv (op_clock op) \<and> (\<exists>op' \<in> all_ops c. same_op op op')"

definition simulates :: "bool \<Rightarrow> string set \<Rightarrow> threaded \<Rightarrow> cluster \<Rightarrow> bool" where
  "simulates tame K s c \<longleftrightarrow> cluster_reachable tame c \<and> threaded_ok K (known c) s \<and>
     (\<forall>n \<in> K. same_book (ge_book (shared (tnodes s n))) (c n)) \<and> (\<forall>n. n \<notin> K \<longrightarrow> c n = new_crdt n)"

section \<open>The runs\<close>

definition fresh_in :: "string set \<Rightarrow> threaded \<Rightarrow> string \<Rightarrow> bool" where
  "fresh_in K s i \<longleftrightarrow>
     (\<forall>n \<in> K. i \<notin> seen_ops (ge_book (shared (tnodes s n))) \<and> \<not> has_order (book (ge_book (shared (tnodes s n)))) i)"

definition asks_market :: "string list \<Rightarrow> bool" where
  "asks_market segs \<longleftrightarrow>
     to_upper (snd (read_token (istringstream (strip_line_end (read_request [] segs))) [])) = ''MARKET''"

text \<open>Steps of \<open>threaded_step\<close> in which generated ids are new everywhere and prices exact; with
  \<open>tame\<close> set, nobody sends a market order and a cancel is only applied where its order is known.\<close>

inductive orderly_step :: "bool \<Rightarrow> string set \<Rightarrow> threaded \<Rightarrow> threaded \<Rightarrow> bool" for tame K where
  serve: "n \<in> K \<Longrightarrow> request_ok qty0 junk uuid (shared (tnodes s n)) \<Longrightarrow>
    serve_client price0 qty0 junk uuid segs (shared (tnodes s n)) = (ge', answer) \<Longrightarrow> room ge' \<Longrightarrow>
    fresh_in K s (uuid 0) \<Longrightarrow> fresh_in K s (uuid 1) \<Longrightarrow> list_all exact_op (op_log (ge_book ge')) \<Longrightarrow>
    (tame \<Longrightarrow> \<not> asks_market segs) \<Longrightarrow>
    orderly_step tame K s (s\<lparr>tnodes := (tnodes s)(n := (tnodes s n)\<lparr>shared := ge'\<rparr>)\<rparr>)"
| gossip: "n \<in> K \<Longrightarrow> gossip_micro pick pick' now (tnodes s n) = Some (nd, out) \<Longrightarrow>
    orderly_step tame K s (s\<lparr>tnodes := (tnodes s)(n := nd), tnet := tnet s \<union> set out\<rparr>)"
| arrive: "n \<in> K \<Longrightarrow> r_pc (tnodes s n) = R_idle \<Longrightarrow> (h, q, bytes) \<in> tnet s \<Longrightarrow>
    begin_datagram now bytes host port (tnodes s n) = Some (nd, out) \<Longrightarrow>
    orderly_step tame K s (s\<lparr>tnodes := (tnodes s)(n := nd), tnet := tnet s \<union> set out\<rparr>)"
| receive: "n \<in> K \<Longrightarrow> r_pc (tnodes s n) \<noteq> R_idle \<Longrightarrow> receive_micro (tnodes s n) = (nd, out) \<Longrightarrow> room (shared nd) \<Longrightarrow>
    (\<And>msg op ops host port. tame \<Longrightarrow> r_pc (tnodes s n) = R_apply msg (op # ops) host port \<Longrightarrow>
      deliverable (ge_book (shared (tnodes s n))) op) \<Longrightarrow>
    orderly_step tame K s (s\<lparr>tnodes := (tnodes s)(n := nd), tnet := tnet s \<union> set out\<rparr>)"

inductive orderly_run :: "bool \<Rightarrow> string set \<Rightarrow> threaded \<Rightarrow> threaded \<Rightarrow> bool" for tame K s0 where
  init: "orderly_run tame K s0 s0"
| step: "orderly_run tame K s0 s \<Longrightarrow> orderly_step tame K s s' \<Longrightarrow> orderly_run tame K s0 s'"

lemma orderly_threaded: "orderly_step tame K s s' \<Longrightarrow> threaded_step K s s'"
  by (erule orderly_step.cases) (auto intro: threaded_step.intros)

section \<open>Operations keep the relation\<close>

lemma same_book_remote:
  assumes "same_book st st'" and "same_op op op'" and "clock_inv (op_clock op)" and "clock_inv (op_clock op')"
  shows "same_book (fst (apply_remote_operation st op)) (fst (apply_remote_operation st' op'))"
  using assms
  by (auto simp: apply_remote_operation_eq same_book_def same_op_def clock_fun_merge effect_def intro!: list_all2_appendI)

lemma tick_same:
  assumes "same_book st st'" and "vc_node (clock st) = vc_node (clock st')"
  shows "clock_fun (fst (tick (clock st))) = clock_fun (fst (tick (clock st')))" "snd (tick (clock st)) = snd (tick (clock st'))"
    "get_local_time (clock st) = get_local_time (clock st')"
proof -
  have c: "clock_fun (clock st) = clock_fun (clock st')" using assms(1) by (simp add: same_book_def)
  then show "clock_fun (fst (tick (clock st))) = clock_fun (fst (tick (clock st')))"
    "get_local_time (clock st) = get_local_time (clock st')"
    using assms(2) by (simp_all add: clock_fun_tick local_time)
  show "snd (tick (clock st)) = snd (tick (clock st'))"
    using c assms(2) by (simp add: tick_def Let_def clock_fun_def)
qed

lemma same_book_add:
  assumes "same_book st st'" and "vc_node (clock st) = vc_node (clock st')" and "\<not> has_order (book st) oid"
  shows "same_book (fst (local_add_order st sd pr qty oid opid)) (fst (local_add_order st' sd pr qty oid opid))"
proof -
  have "\<not> has_order (book st') oid" using assms(1,3) by (simp add: same_book_def)
  then show ?thesis
    using assms(1,3) tick_same [OF assms(1,2)]
    by (auto simp: local_add_order_eq Let_def same_book_def same_op_def added_op_def effect_def intro!: list_all2_appendI)
qed

lemma same_book_cancel:
  assumes "same_book st st'" and "vc_node (clock st) = vc_node (clock st')"
  shows "same_book (fst (local_cancel_order junk st oid opid)) (fst (local_cancel_order junk st' oid opid))"
  using assms(1) tick_same [OF assms]
  by (auto simp: local_cancel_order_eq Let_def same_book_def same_op_def cancel_operation_def effect_def
      intro!: list_all2_appendI)

lemma same_book_market:
  assumes "same_book st st'" and "vc_node (clock st) = vc_node (clock st')" and "book_inv (book st)" and "fits64 qty"
  shows "same_book (fst (local_market_order junk uuid st sd qty)) (fst (local_market_order junk uuid st' sd qty))"
proof -
  have "book_inv (book st')" using assms(1,3) by (simp add: same_book_def)
  then show ?thesis
    using assms(1,3,4) tick_same [OF assms(1,2)]
    by (auto simp: local_market_order_eq same_book_def)
qed

section \<open>What is known stays known\<close>

lemma all_ops_grow:
  assumes "set (op_log (c n)) \<subseteq> set (op_log st)" shows "all_ops c \<subseteq> all_ops (c(n := st))"
proof
  fix op assume "op \<in> all_ops c"
  then obtain m where "op \<in> set (op_log (c m))" by (auto simp: all_ops_def)
  then have "op \<in> set (op_log ((c(n := st)) m))" using assms by (cases "m = n") auto
  then show "op \<in> all_ops (c(n := st))" unfolding all_ops_def by (rule UN_I [OF UNIV_I])
qed

lemma known_mono: "all_ops c \<subseteq> all_ops c' \<Longrightarrow> known c op \<Longrightarrow> known c' op"
  by (auto simp: known_def)

lemma known_received: "known c op \<Longrightarrow> known c (received_operation op)"
  by (auto simp: known_def exact_op_def same_op_def received_operation_def received_order_def clock_inv_received
      clock_fun_received)

lemma list_all2_partner: "list_all2 P xs ys \<Longrightarrow> x \<in> set xs \<Longrightarrow> \<exists>y \<in> set ys. P x y"
  by (induction rule: list_all2_induct) auto

lemma same_book_partner:
  assumes "same_book st st'" and "op \<in> set (op_log st)"
  obtains op' where "op' \<in> set (op_log st')" "same_op op op'"
  using assms list_all2_partner [of same_op "op_log st" "op_log st'" op] by (auto simp: same_book_def)

lemma known_log:
  assumes "same_book st (c n)" and "crdt_inv st" and "list_all exact_op (op_log st)"
  shows "list_all (known c) (op_log st)"
proof -
  have "\<exists>op' \<in> all_ops c. same_op op op'" if "op \<in> set (op_log st)" for op
    by (rule same_book_partner [OF assms(1) that]) (auto simp: all_ops_def)
  then show ?thesis
    using assms(2,3) crdt_invD(6) [OF assms(2)] by (auto simp: list_all_iff known_def op_ok_def)
qed

lemma list_all_weaken: "list_all P xs \<Longrightarrow> (\<And>x. P x \<Longrightarrow> Q x) \<Longrightarrow> list_all Q xs"
  by (simp add: list_all_iff)

lemma receive_ok_mono: "receive_ok K P r \<Longrightarrow> (\<And>op. P op \<Longrightarrow> Q op) \<Longrightarrow> receive_ok K Q r"
  by (cases r) (auto simp: receive_ok_def intro: list_all_weaken)

lemma threads_ok_mono: "threads_ok K P nd \<Longrightarrow> (\<And>op. P op \<Longrightarrow> Q op) \<Longrightarrow> threads_ok K Q nd"
  by (auto simp: threads_ok_def intro: list_all_weaken receive_ok_mono)

lemma readable_mono: "readable K P d \<Longrightarrow> (\<And>op. P op \<Longrightarrow> Q op) \<Longrightarrow> readable K Q d"
  unfolding readable_def using list_all_weaken by blast

lemma threaded_ok_mono: "threaded_ok K P s \<Longrightarrow> (\<And>op. P op \<Longrightarrow> Q op) \<Longrightarrow> threaded_ok K Q s"
  by (auto simp: threaded_ok_def intro: threads_ok_mono readable_mono)

section \<open>Every step is a step of the cluster\<close>

lemma simulatesD:
  assumes "simulates tame K s c"
  shows "cluster_reachable tame c" "threaded_ok K (known c) s"
    "n \<in> K \<Longrightarrow> same_book (ge_book (shared (tnodes s n))) (c n)" "n \<notin> K \<Longrightarrow> c n = new_crdt n"
    "n \<in> K \<Longrightarrow> threads_ok K (known c) (tnodes s n)" "n \<in> K \<Longrightarrow> crdt_inv (ge_book (shared (tnodes s n)))"
    "n \<in> K \<Longrightarrow> vc_node (clock (ge_book (shared (tnodes s n)))) = vc_node (clock (c n))"
proof -
  show sim: "cluster_reachable tame c" "threaded_ok K (known c) s"
    "n \<in> K \<Longrightarrow> same_book (ge_book (shared (tnodes s n))) (c n)" "n \<notin> K \<Longrightarrow> c n = new_crdt n"
    using assms by (simp_all add: simulates_def)
  show ok: "n \<in> K \<Longrightarrow> threads_ok K (known c) (tnodes s n)" using sim(2) by (simp add: threaded_ok_def)
  show inv: "n \<in> K \<Longrightarrow> crdt_inv (ge_book (shared (tnodes s n)))"
    using ok by (simp add: threads_ok_def engine_ok_def book_ok_def)
  show "vc_node (clock (ge_book (shared (tnodes s n)))) = vc_node (clock (c n))" if "n \<in> K"
    using sim(3) [OF that] crdt_invD(3) [OF inv [OF that]]
      crdt_invD(3) [OF cluster_invD(1) [OF cluster_reachable_inv [OF sim(1)]]] by (simp add: same_book_def)
qed

text \<open>A step of one node and what the cluster makes of it.\<close>

lemma simulates_node:
  assumes "simulates tame K s c" and "cluster_reachable tame (c(n := st))" and "n \<in> K"
    and "threads_ok K (known (c(n := st))) nd" and "ge_node (shared nd) = ge_node (shared (tnodes s n))"
    and "list_all (readable K (known (c(n := st)))) out" and "same_book (ge_book (shared nd)) st"
    and "set (op_log (c n)) \<subseteq> set (op_log st)"
  shows "simulates tame K (s\<lparr>tnodes := (tnodes s)(n := nd), tnet := tnet s \<union> set out\<rparr>) (c(n := st))"
proof -
  have "all_ops c \<subseteq> all_ops (c(n := st))" by (rule all_ops_grow [of c n st, OF assms(8)])
  then have "threaded_ok K (known (c(n := st))) s"
    by (intro threaded_ok_mono [OF simulatesD(2) [OF assms(1)]]) (rule known_mono)
  then have "threaded_ok K (known (c(n := st))) (s\<lparr>tnodes := (tnodes s)(n := nd), tnet := tnet s \<union> set out\<rparr>)"
    by (rule threaded_ok_node [OF _ assms(4-6)])
  then show ?thesis using assms(1-3,7) by (simp add: simulates_def)
qed

lemma simulates_same:
  assumes "simulates tame K s c" and "n \<in> K" and "threads_ok K (known c) nd"
    and "ge_node (shared nd) = ge_node (shared (tnodes s n))" and "list_all (readable K (known c)) out"
    and "ge_book (shared nd) = ge_book (shared (tnodes s n))"
  shows "simulates tame K (s\<lparr>tnodes := (tnodes s)(n := nd), tnet := tnet s \<union> set out\<rparr>) c"
proof -
  have "simulates tame K (s\<lparr>tnodes := (tnodes s)(n := nd), tnet := tnet s \<union> set out\<rparr>) (c(n := c n))"
    by (rule simulates_node [OF assms(1)])
      (simp_all add: assms(2-5), simp_all add: assms(6) simulatesD(1) [OF assms(1)] simulatesD(3) [OF assms(1,2)])
  then show ?thesis by simp
qed

lemma simulated_gossip:
  assumes "simulates tame K s c" and "n \<in> K" and "gossip_micro pick pick' now (tnodes s n) = Some (nd, out)"
  shows "simulates tame K (s\<lparr>tnodes := (tnodes s)(n := nd), tnet := tnet s \<union> set out\<rparr>) c"
  using gossip_micro_ok [OF simulatesD(5) [OF assms(1,2)] assms(3)]
  by (intro simulates_same [OF assms(1,2)]) simp_all

lemma simulated_arrive:
  assumes "names_ok K" and "simulates tame K s c" and "n \<in> K" and "(h, q, bytes) \<in> tnet s"
    and "begin_datagram now bytes host port (tnodes s n) = Some (nd, out)"
  shows "simulates tame K (s\<lparr>tnodes := (tnodes s)(n := nd), tnet := tnet s \<union> set out\<rparr>) c"
proof -
  have "readable K (known c) (h, q, bytes)" using simulatesD(2) [OF assms(2)] assms(4) by (simp add: threaded_ok_def)
  from begin_datagram_ok [OF assms(1) simulatesD(5) [OF assms(2,3)] this known_received assms(5)]
  show ?thesis by (intro simulates_same [OF assms(2,3)]) simp_all
qed

lemma simulated_receive:
  assumes "simulates tame K s c" and "n \<in> K" and "receive_micro (tnodes s n) = (nd, out)" and "room (shared nd)"
    and "\<And>msg op ops host port. tame \<Longrightarrow> r_pc (tnodes s n) = R_apply msg (op # ops) host port \<Longrightarrow>
      deliverable (ge_book (shared (tnodes s n))) op"
  shows "\<exists>c'. simulates tame K (s\<lparr>tnodes := (tnodes s)(n := nd), tnet := tnet s \<union> set out\<rparr>) c'"
proof -
  note S = simulatesD [OF assms(1)]
  note R = receive_micro_ok [OF S(5) [OF assms(2)] assms(3,4)]
  show ?thesis
  proof (cases "\<exists>msg op ops host port. r_pc (tnodes s n) = R_apply msg (op # ops) host port")
    case True
    then obtain msg op ops host port where pc: "r_pc (tnodes s n) = R_apply msg (op # ops) host port" by blast
    have "known c op" using S(5) [OF assms(2)] by (simp add: threads_ok_def receive_ok_def pc)
    then obtain op' where op': "op' \<in> all_ops c" "same_op op op'" "clock_inv (op_clock op)" by (auto simp: known_def)
    have "clock_inv (op_clock op')"
      using cluster_invD(6) [OF cluster_reachable_inv [OF S(1)] op'(1)] by (simp add: op_ok_def)
    note same = same_book_remote [OF S(3) [OF assms(2)] op'(2,3) this]
    have "deliverable (c n) op'" if tame
      using assms(5) [OF that pc] S(3) [OF assms(2)] op'(2) by (simp add: deliverable_def same_op_def same_book_def)
    from cluster_step.deliver [OF op'(1) this]
    have reach: "cluster_reachable tame (c(n := fst (apply_remote_operation (c n) op')))"
      by (rule cluster_reachable.step [OF S(1)])
    let ?c = "c(n := fst (apply_remote_operation (c n) op'))"
    have log: "set (op_log (c n)) \<subseteq> set (op_log (fst (apply_remote_operation (c n) op')))"
      by (auto simp: apply_remote_operation_eq)
    have "all_ops c \<subseteq> all_ops ?c" by (rule all_ops_grow [of c n "fst (apply_remote_operation (c n) op')", OF log])
    note mono = known_mono [OF this]
    have "ge_book (shared nd) = fst (apply_remote_operation (ge_book (shared (tnodes s n))) op)"
      using assms(3) by (auto simp: receive_micro_def Let_def pc)
    then have same': "same_book (ge_book (shared nd)) (fst (apply_remote_operation (c n) op'))" using same by simp
    have ok: "threads_ok K (known ?c) nd" by (rule threads_ok_mono [OF conjunct1 [OF R] mono])
    have out: "list_all (readable K (known ?c)) out"
      by (rule list_all_weaken [OF conjunct1 [OF conjunct2 [OF R]]]) (rule readable_mono [OF _ mono])
    show ?thesis
      by (rule exI, rule simulates_node [OF assms(1) reach assms(2) ok _ out same' log]) (rule R [THEN conjunct2, THEN conjunct2, THEN conjunct1])
  next
    case False
    then have "ge_book (shared nd) = ge_book (shared (tnodes s n))"
      using assms(3) by (auto simp: receive_micro_def Let_def split: receive_pc.splits list.splits)
    then show ?thesis using R by (intro exI [of _ c] simulates_same [OF assms(1,2)]) simp_all
  qed
qed


text \<open>A request: what it does to the book of the node, the cluster can do to its own.\<close>

lemma fresh_simulated:
  assumes "simulates tame K s c" and "fresh_in K s i" shows "fresh_id c i"
proof -
  have "i \<notin> seen_ops (c n) \<and> \<not> has_order (book (c n)) i" for n
  proof (cases "n \<in> K")
    case True
    then show ?thesis using simulatesD(3) [OF assms(1) True] assms(2) by (auto simp: fresh_in_def same_book_def)
  next
    case False
    then show ?thesis using simulatesD(4) [OF assms(1) False] by (simp add: new_crdt_def has_order_def empty_book_def)
  qed
  then show ?thesis by (simp add: fresh_id_def)
qed

lemma served_book:
  assumes "serve_client price0 qty0 junk uuid segs ge = (ge', answer)"
  shows "ge_book ge' = ge_book ge \<or>
    ge_book ge' = fst (handle_request price0 qty0 junk uuid (strip_line_end (read_request [] segs)) (ge_book ge))"
  using assms by (auto simp: serve_client_def handle_client_def main_handler_def Let_def case_prod_beta split: if_splits)

lemma mirrored_request:
  assumes "simulates tame K s c" and "n \<in> K" and "request_ok qty0 junk uuid (shared (tnodes s n))"
    and "serve_client price0 qty0 junk uuid segs (shared (tnodes s n)) = (ge', answer)"
    and "fresh_in K s (uuid 0)" and "fresh_in K s (uuid 1)" and "tame \<Longrightarrow> \<not> asks_market segs"
  obtains st where "st = c n \<or> cluster_step tame c (c(n := st))" "same_book (ge_book ge') st"
    "set (op_log (c n)) \<subseteq> set (op_log st)"
proof -
  let ?st = "ge_book (shared (tnodes s n))" and ?req = "strip_line_end (read_request [] segs)"
  note S = simulatesD [OF assms(1)]
  note same = S(3) [OF assms(2)] and nodes = S(7) [OF assms(2)]
  note f0 = fresh_simulated [OF assms(1,5)] and f1 = fresh_simulated [OF assms(1,6)]
  have r: "fits64 qty0" "can_tick (c n)"
    using assms(3) tick_same(3) [OF same nodes] by (simp_all add: request_ok_def)
  show thesis
  proof (cases "ge_book ge' = ?st")
    case True
    then show thesis by (intro that [of "c n"]) (simp_all add: same)
  next
    case False
    then have b: "ge_book ge' = fst (handle_request price0 qty0 junk uuid ?req ?st)" using served_book [OF assms(4)] by blast
    from r(1) show thesis
    proof (rule request_effect [of qty0 price0 junk uuid ?req ?st])
      assume "fst (handle_request price0 qty0 junk uuid ?req ?st) = ?st"
      then show thesis using False b by simp
    next
      fix sd pr qty assume q: "0 < qty" "qty < 2 ^ 63" and
        h: "fst (handle_request price0 qty0 junk uuid ?req ?st) = fst (local_add_order ?st sd pr qty (uuid 0) (uuid 1))"
      have fr: "\<not> has_order (book (c n)) (uuid 0)" "\<not> has_order (book ?st) (uuid 0)"
        using f0 same by (simp_all add: fresh_id_def same_book_def)
      show thesis
      proof (rule that)
        show "same_book (ge_book ge') (fst (local_add_order (c n) sd pr qty (uuid 0) (uuid 1)))"
          unfolding b h by (rule same_book_add [OF same nodes fr(2)])
      qed (use cluster_step.add [OF f0 f1 r(2) q] in blast, auto simp: local_add_order_eq [OF fr(1)] Let_def)
    next
      fix oid assume h: "fst (handle_request price0 qty0 junk uuid ?req ?st) = fst (local_cancel_order junk ?st oid (uuid 0))"
      show thesis
      proof (rule that)
        show "same_book (ge_book ge') (fst (local_cancel_order junk (c n) oid (uuid 0)))"
          unfolding b h by (rule same_book_cancel [OF same nodes])
      qed (use cluster_step.cancel [OF f0 r(2)] in blast, auto simp: local_cancel_order_eq Let_def)
    next
      fix sd qty assume q: "fits64 qty" and w: "to_upper (snd (read_token (istringstream ?req) [])) = ''MARKET''" and
        h: "fst (handle_request price0 qty0 junk uuid ?req ?st) = fst (local_market_order junk uuid ?st sd qty)"
      have inv: "book_inv (book ?st)" "book_inv (book (c n))"
        using crdt_invD(1) [OF S(6) [OF assms(2)]] same by (simp_all add: same_book_def)
      have "\<not> tame" using assms(7) w by (auto simp: asks_market_def)
      note step = cluster_step.market [of tame c n qty, OF this r(2) q]
      show thesis
      proof (rule that)
        show "same_book (ge_book ge') (fst (local_market_order junk uuid (c n) sd qty))"
          unfolding b h by (rule same_book_market [OF same nodes inv(1) q])
      qed (use step in blast, simp add: local_market_order_eq [OF inv(2) q])
    qed
  qed
qed

lemma simulated_serve:
  assumes "names_ok K" and "simulates tame K s c" and "n \<in> K" and "request_ok qty0 junk uuid (shared (tnodes s n))"
    and "serve_client price0 qty0 junk uuid segs (shared (tnodes s n)) = (ge', answer)" and "room ge'"
    and "fresh_in K s (uuid 0)" and "fresh_in K s (uuid 1)" and "list_all exact_op (op_log (ge_book ge'))"
    and "tame \<Longrightarrow> \<not> asks_market segs"
  shows "\<exists>c'. simulates tame K (s\<lparr>tnodes := (tnodes s)(n := (tnodes s n)\<lparr>shared := ge'\<rparr>)\<rparr>) c'"
proof -
  note S = simulatesD [OF assms(2)]
  obtain st where st: "st = c n \<or> cluster_step tame c (c(n := st))" "same_book (ge_book ge') st"
    "set (op_log (c n)) \<subseteq> set (op_log st)"
    by (rule mirrored_request [OF assms(2-5,7,8,10)]) blast
  have reach: "cluster_reachable tame (c(n := st))"
    using st(1) S(1) by (auto intro: cluster_reachable.step)
  have eng: "engine_ok K (shared (tnodes s n))" using S(5) [OF assms(3)] by (simp add: threads_ok_def)
  have "crdt_inv (ge_book ge')"
    using serve_client_engine [OF assms(1) eng assms(4-6)] by (simp add: engine_ok_def book_ok_def)
  from known_log [OF _ this assms(9), of "c(n := st)" n]
  have log: "list_all (known (c(n := st))) (op_log (ge_book ge'))" using st(2) by simp
  have "threads_ok K (known (c(n := st))) (tnodes s n)"
    by (rule threads_ok_mono [OF S(5) [OF assms(3)]]) (rule known_mono [OF all_ops_grow [of c n st, OF st(3)]])
  note T = serve_threads_ok [OF assms(1) this assms(4-6) log]
  have "simulates tame K (s\<lparr>tnodes := (tnodes s)(n := (tnodes s n)\<lparr>shared := ge'\<rparr>), tnet := tnet s \<union> set []\<rparr>) (c(n := st))"
    by (rule simulates_node [OF assms(2) reach assms(3)]) (use T st in simp_all)
  then show ?thesis by auto
qed

section \<open>Every run is a run of the cluster\<close>

lemma simulates_started:
  assumes "config_ok K cfg" shows "simulates tame K (started now cfg) new_cluster"
proof -
  have "ge_book (shared (tnodes (started now cfg) n)) = new_crdt n" if "n \<in> K" for n
    using assms that by (simp add: started_def start_node_def new_engine_def config_ok_def)
  moreover have "threaded_ok K (known new_cluster) (started now cfg)"
    using started_ok(2) [OF assms, of now] calculation
    by (auto simp: threaded_ok_def threads_ok_def started_def receive_ok_def new_crdt_def)
  ultimately show ?thesis
    using cluster_reachable.start by (simp add: simulates_def new_cluster_def same_book_def new_crdt_def)
qed

lemma simulated_step:
  assumes "names_ok K" and "simulates tame K s c" and "orderly_step tame K s s'"
  shows "\<exists>c'. simulates tame K s' c'"
  using assms(3)
proof cases
  case (serve n qty0 junk uuid price0 segs ge' answer)
  show ?thesis unfolding serve(1) by (rule simulated_serve [OF assms(1,2) serve(2-9)])
next
  case (gossip n pick pick' now nd out)
  then show ?thesis using simulated_gossip [OF assms(2)] by blast
next
  case (arrive n h q bytes now host port nd out)
  then show ?thesis using simulated_arrive [OF assms(1,2)] by blast
next
  case (receive n nd out)
  show ?thesis unfolding receive(1) by (rule simulated_receive [OF assms(2) receive(2,4,5,6)])
qed

lemma simulated_run:
  assumes "config_ok K cfg" and "orderly_run tame K (started now0 cfg) s"
  shows "\<exists>c. simulates tame K s c"
  using assms(2)
proof induction
  case init
  then show ?case using simulates_started [OF assms(1)] by blast
next
  case (step s s')
  then show ?case using simulated_step [OF started_ok(1) [OF assms(1)]] by blast
qed

end
