(* ===== verification/Convergence.thy ===== *)
theory Convergence
  imports Refinement
begin

text \<open>
  What the simulation gives for the deployment as a whole: nodes that have seen the same operations
  answer alike, and as long as their logs fit into a push they can be brought to that by two pushes.
\<close>

section \<open>Books and answers\<close>

text \<open>The answer to a client that asks for the book is a matter of the depth of the two sides.\<close>

lemma show_levels:
  "concat (map show_level (snapshot_side c d lv)) =
    concat (map (\<lambda>(p, q). newline @ show_fixed4 p @ '' '' @ show_int q) (take (nat (d - c)) (side_depth lv)))"
  by (simp add: snapshot_side_take side_depth_def take_map comp_def case_prod_beta show_level_def)

lemma handle_book_depth:
  assumes "side_depth (bids (book st)) = side_depth (bids (book st'))"
    and "side_depth (asks (book st)) = side_depth (asks (book st'))"
  shows "handle_book ss st = handle_book ss st'"
  using assms by (simp add: handle_book_def crdt_snapshot_def get_snapshot_def show_levels)

section \<open>Continuing a run\<close>

lemma orderly_run_trans: "orderly_run tame K s1 s2 \<Longrightarrow> orderly_run tame K s0 s1 \<Longrightarrow> orderly_run tame K s0 s2"
  by (induction rule: orderly_run.induct) (auto intro: orderly_run.step)

lemma choose_pushes:
  assumes "strategy ge \<noteq> WYTHOFF" and "peers ge \<noteq> []" and "rr_index ge < length (peers ge)"
  obtains j i where "choose_peer pick ge = Some (ge\<lparr>rr_index := j\<rparr>, PUSH, Some i)"
proof (cases "strategy ge")
  case RANDOM
  have "\<exists>i. select_random_peer pick ge = Some i" using assms(2) by (simp add: select_random_peer_def Let_def)
  then show thesis using RANDOM that [of "rr_index ge"] by (auto simp: choose_peer_def)
next
  case ROUND_ROBIN
  have "(rr_index ge + 0) mod length (peers ge) = rr_index ge" using assms(3) by simp
  with rr_loop_finds [OF assms(3), of 0 "length (peers ge)"] obtain i where
    "rr_loop (length (peers ge)) (peers ge) (rr_index ge) (rr_index ge) = Some i"
    using assms(2) by auto
  then show thesis using ROUND_ROBIN assms(2) that [of i i] by (simp add: choose_peer_def select_round_robin_peer_def)
next
  case WYTHOFF
  then show thesis using assms(1) by simp
qed

text \<open>Four steps of the gossip thread push a short log.\<close>

lemma push_run:
  assumes "orderly_run tame K s0 s" and "n \<in> K" and "names_ok K" and "engine_ok K (shared (tnodes s n))"
    and "g_pc (tnodes s n) = G_idle" and "strategy (shared (tnodes s n)) \<noteq> WYTHOFF" and "peers (shared (tnodes s n)) \<noteq> []"
    and "length (op_log (ge_book (shared (tnodes s n)))) \<le> 20"
  obtains nd h q msg where
    "orderly_run tame K s0 (s\<lparr>tnodes := (tnodes s)(n := nd), tnet := tnet s \<union> {(h, q, msg_serialize msg)}\<rparr>)"
    "r_pc nd = r_pc (tnodes s n)" "ge_book (shared nd) = ge_book (shared (tnodes s n))" "message_wire_ok msg"
    "operations msg = op_log (ge_book (shared (tnodes s n)))" "msg_type msg = GOSSIP_PUSH_PULL"
proof -
  let ?nd = "tnodes s n" and ?ge = "shared (tnodes s n)" and ?at = "\<lambda>nd N. s\<lparr>tnodes := (tnodes s)(n := nd), tnet := N\<rparr>"
  have "rr_index ?ge < length (peers ?ge)" using assms(4,7) by (simp add: engine_ok_def)
  from choose_pushes [OF assms(6,7) this, of "\<lambda>_. 0"] obtain j i where
    ch: "choose_peer (\<lambda>_. 0) ?ge = Some (?ge\<lparr>rr_index := j\<rparr>, PUSH, Some i)" by blast
  let ?log = "op_log (ge_book ?ge)" and ?clk = "get_clock (ge_book ?ge)" and ?ge' = "?ge\<lparr>rr_index := j\<rparr>"
  let ?msg = "\<lparr>msg_type = GOSSIP_PUSH_PULL, sender_id = ge_node ?ge, sender_clock = ?clk, operations = ?log\<rparr>"
  have recent: "recent_operations ?log = ?log" using assms(8) by (simp add: recent_operations_def)
  have go: "orderly_run tame K s0 (?at r (N \<union> set out))"
    if "orderly_run tame K s0 (?at q N)" "gossip_micro (\<lambda>_. 0) (\<lambda>_. 0) 0 q = Some (r, out)" for q r N out
    using orderly_run.step [OF that(1) orderly_step.gossip [of n]] that(2) assms(2) by simp
  have m: "gossip_micro (\<lambda>_. 0) (\<lambda>_. 0) 0 ?nd = Some (?nd\<lparr>g_pc := G_round 0\<rparr>, [])"
    "gossip_micro (\<lambda>_. 0) (\<lambda>_. 0) 0 (?nd\<lparr>g_pc := G_round 0\<rparr>) = Some (?nd\<lparr>shared := ?ge', g_pc := G_clock 0 i PUSH\<rparr>, [])"
    "gossip_micro (\<lambda>_. 0) (\<lambda>_. 0) 0 (?nd\<lparr>shared := ?ge', g_pc := G_clock 0 i PUSH\<rparr>) =
      Some (?nd\<lparr>shared := ?ge', g_pc := G_log 0 i ?clk\<rparr>, [])"
    "gossip_micro (\<lambda>_. 0) (\<lambda>_. 0) 0 (?nd\<lparr>shared := ?ge', g_pc := G_log 0 i ?clk\<rparr>) =
      Some (?nd\<lparr>shared := ?ge', g_pc := G_beat 0\<rparr>, [send_to_peer ?ge' i ?msg])"
    using ch assms(5,6) recent by (simp_all add: micro_defs get_operation_log_def)
  obtain h q where sent: "send_to_peer ?ge' i ?msg = (h, q, msg_serialize ?msg)"
    by (simp add: send_to_peer_def send_message_def)
  have "orderly_run tame K s0 (?at ?nd (tnet s))" using assms(1) by simp
  from go [OF go [OF go [OF go [OF this m(1)] m(2)] m(3)] m(4)]
  have run: "orderly_run tame K s0 (?at (?nd\<lparr>shared := ?ge', g_pc := G_beat 0\<rparr>) (tnet s \<union> {(h, q, msg_serialize ?msg)}))"
    by (simp add: sent)
  have "own_message ?ge ?msg" by (simp add: own_message_def get_clock_def)
  then have "message_wire_ok ?msg" by (rule message_ok_wire [OF assms(3) own_message_ok [OF assms(4)]])
  then show thesis by (intro that [OF run]) simp_all
qed

text \<open>The receiving thread applies the operations of a message in their order. A cancel finds its order
  when the list is causal and what the node has seen of it is in its book.\<close>

lemma apply_run:
  assumes "orderly_run True K s0 s" and "m \<in> K" and "r_pc (tnodes s m) = R_apply msg ops host port"
    and "causal_from X ops" and "\<And>i. i \<in> X \<Longrightarrow> has_order (book (ge_book (shared (tnodes s m)))) i"
    and "\<And>op. op \<in> set ops \<Longrightarrow> op_type op = ADD_ORDER \<Longrightarrow> op_id op \<in> seen_ops (ge_book (shared (tnodes s m))) \<Longrightarrow>
      has_order (book (ge_book (shared (tnodes s m)))) (order_id (op_order op))"
    and "distinct (map op_id ops)" and "length (op_log (ge_book (shared (tnodes s m)))) + length ops < 2 ^ 32"
  shows "orderly_run True K s0 (s\<lparr>tnodes := (tnodes s)(m := (tnodes s m)
    \<lparr>shared := (shared (tnodes s m))\<lparr>ge_book := apply_operations (ge_book (shared (tnodes s m))) ops\<rparr>,
     r_pc := R_apply msg [] host port\<rparr>)\<rparr>)"
  using assms
proof (induction ops arbitrary: s X)
  case Nil
  have "(tnodes s m)\<lparr>r_pc := r_pc (tnodes s m)\<rparr> = tnodes s m" by simp
  then show ?case using Nil(1) unfolding Nil(3) by simp
next
  case (Cons op ops)
  let ?st = "ge_book (shared (tnodes s m))"
  let ?st' = "fst (apply_remote_operation ?st op)"
  let ?nd = "(tnodes s m)\<lparr>shared := (shared (tnodes s m))\<lparr>ge_book := ?st'\<rparr>, r_pc := R_apply msg ops host port\<rparr>"
  let ?s = "s\<lparr>tnodes := (tnodes s)(m := ?nd), tnet := tnet s \<union> set []\<rparr>"
  have r: "receive_micro (tnodes s m) = (?nd, [])" using Cons.prems(3) by (simp add: receive_micro_def Let_def)
  have grown: "has_order (book ?st') i" if "has_order (book ?st) i" for i
    using that has_order_effect by (auto simp: apply_remote_operation_eq)
  have len: "length (op_log ?st') \<le> Suc (length (op_log ?st))" by (simp add: apply_remote_operation_eq)
  have "deliverable ?st op" using Cons.prems(4,5) by (simp add: deliverable_def)
  then have s: "orderly_run True K s0 ?s"
    using Cons.prems(2,3,8) len
    by (intro orderly_run.step [OF Cons.prems(1) orderly_step.receive [OF _ _ r]]) auto
  have "orderly_run True K s0 (?s\<lparr>tnodes := (tnodes ?s)(m := (tnodes ?s m)
      \<lparr>shared := (shared (tnodes ?s m))\<lparr>ge_book := apply_operations (ge_book (shared (tnodes ?s m))) ops\<rparr>,
       r_pc := R_apply msg [] host port\<rparr>)\<rparr>)"
  proof (rule Cons.IH [OF s Cons.prems(2)])
    let ?X = "if op_type op = ADD_ORDER then insert (order_id (op_order op)) X else X"
    show "causal_from ?X ops" using Cons.prems(4) by simp
    show "has_order (book (ge_book (shared (tnodes ?s m)))) i" if "i \<in> ?X" for i
      using that Cons.prems(5,6) grown has_order_effect_add [of op "book ?st"]
      by (auto simp: apply_remote_operation_eq split: if_splits)
    show "has_order (book (ge_book (shared (tnodes ?s m)))) (order_id (op_order x))"
      if "x \<in> set ops" "op_type x = ADD_ORDER" "op_id x \<in> seen_ops (ge_book (shared (tnodes ?s m)))" for x
    proof -
      have "op_id x \<noteq> op_id op" using that(1) Cons.prems(7) by (auto intro: rev_image_eqI)
      then have "op_id x \<in> seen_ops ?st" using that(3) by (simp add: apply_remote_operation_eq split: if_splits)
      then show ?thesis using Cons.prems(6) that(1,2) grown by simp
    qed
    show "distinct (map op_id ops)" using Cons.prems(7) by simp
    show "length (op_log (ge_book (shared (tnodes ?s m)))) + length ops < 2 ^ 32" using Cons.prems(8) len by simp
  qed simp
  then show ?case by (simp add: fun_upd_def cong: if_cong)
qed

lemma causal_same: "list_all2 same_op xs ys \<Longrightarrow> causal_from X xs \<longleftrightarrow> causal_from X ys"
  by (induction arbitrary: X rule: list_all2_induct) (auto simp: same_op_def)

lemma causal_received: "causal_from X (map received_operation xs) \<longleftrightarrow> causal_from X xs"
  by (induction xs arbitrary: X) (simp_all add: received_operation_def received_order_def)

text \<open>What two nodes have both seen stands for one operation of the cluster.\<close>

lemma seen_order_known:
  assumes "simulates True K s c" and "n \<in> K" and "m \<in> K" and "op \<in> set (op_log (ge_book (shared (tnodes s n))))"
    and "op_type op = ADD_ORDER" and "op_id op \<in> seen_ops (ge_book (shared (tnodes s m)))"
  shows "has_order (book (ge_book (shared (tnodes s m)))) (order_id (op_order op))"
proof -
  note S = simulatesD [OF assms(1)] and C = cluster_invD [OF cluster_reachable_inv [OF simulatesD(1) [OF assms(1)]]]
  obtain op' where op': "op' \<in> set (op_log (c n))" "same_op op op'" by (rule same_book_partner [OF S(3) [OF assms(2)] assms(4)])
  obtain x where x: "x \<in> set (op_log (ge_book (shared (tnodes s m))))" "op_id x = op_id op"
    using assms(6) crdt_invD(5) [OF S(6) [OF assms(3)]] by force
  obtain x' where x': "x' \<in> set (op_log (c m))" "same_op x x'" by (rule same_book_partner [OF S(3) [OF assms(3)] x(1)])
  have "x' = op'"
    using C(5) x' op' x(2) by (auto simp: ids_unique_def same_op_def all_ops_def dest!: inj_onD [where x = x' and y = op'])
  then have "order_id (op_order op) \<in> added_ids (op_log (c m))"
    using op' assms(5) x'(1) by (auto simp: added_ids_def same_op_def intro!: bexI [of _ op'])
  then have "has_order (book (c m)) (order_id (op_order op))" using C(3) by blast
  then show ?thesis using S(3) [OF assms(3)] by (simp add: same_book_def)
qed

lemma log_length_apply: "length (op_log (apply_operations st ops)) \<le> length (op_log st) + length ops"
proof (induction st ops rule: apply_operations.induct)
  case (2 st op ops)
  then show ?case by (cases "op_id op \<in> seen_ops st") (simp_all add: apply_remote_operation_eq)
qed simp

text \<open>A push from one node and its application at another.\<close>

lemma push_applied:
  assumes "config_ok K cfg" and "orderly_run True K (started now0 cfg) s" and "n \<in> K" and "m \<in> K" and "n \<noteq> m"
    and "g_pc (tnodes s n) = G_idle" and "r_pc (tnodes s m) = R_idle"
    and "strategy (shared (tnodes s n)) \<noteq> WYTHOFF" and "peers (shared (tnodes s n)) \<noteq> []"
    and "length (op_log (ge_book (shared (tnodes s n)))) \<le> 20" and "length (op_log (ge_book (shared (tnodes s m)))) \<le> 20"
  obtains s' where "orderly_run True K s s'"
    "ge_book (shared (tnodes s' m)) = apply_operations (ge_book (shared (tnodes s m)))
       (map received_operation (op_log (ge_book (shared (tnodes s n)))))"
    "ge_book (shared (tnodes s' n)) = ge_book (shared (tnodes s n))" "r_pc (tnodes s' n) = r_pc (tnodes s n)"
    "g_pc (tnodes s' m) = g_pc (tnodes s m)" "strategy (shared (tnodes s' m)) = strategy (shared (tnodes s m))"
    "length (peers (shared (tnodes s' m))) = length (peers (shared (tnodes s m)))"
proof -
  obtain c where c: "simulates True K s c" using simulated_run [OF assms(1,2)] by blast
  note S = simulatesD [OF c]
  have K: "names_ok K" using assms(1) by (simp add: config_ok_def)
  have eng: "engine_ok K (shared (tnodes s n))" using S(5) [OF assms(3)] by (simp add: threads_ok_def)
  let ?log = "op_log (ge_book (shared (tnodes s n)))" and ?bk = "ge_book (shared (tnodes s m))"
  let ?ops = "map received_operation ?log"
  obtain nd h q msg where p: "orderly_run True K s (s\<lparr>tnodes := (tnodes s)(n := nd), tnet := tnet s \<union> {(h, q, msg_serialize msg)}\<rparr>)"
    "r_pc nd = r_pc (tnodes s n)" "ge_book (shared nd) = ge_book (shared (tnodes s n))" "message_wire_ok msg"
    "operations msg = ?log" "msg_type msg = GOSSIP_PUSH_PULL"
    by (rule push_run [OF orderly_run.init [of True K s] assms(3) K eng assms(6,8,9,10)])
  let ?s1 = "s\<lparr>tnodes := (tnodes s)(n := nd), tnet := tnet s \<union> {(h, q, msg_serialize msg)}\<rparr>"
  obtain nm out where b: "begin_message 0 (received_message msg) h q (tnodes s m) = (nm, out)" by fastforce
  then have nm: "ge_book (shared nm) = ?bk" "g_pc nm = g_pc (tnodes s m)" "r_pc nm = R_apply (received_message msg) ?ops h q"
    "strategy (shared nm) = strategy (shared (tnodes s m))" "length (peers (shared nm)) = length (peers (shared (tnodes s m)))"
    using p(5,6) by (auto simp: begin_message_def case_prod_beta received_message_def touch_peer_length)
  have "msg_deserialize (msg_serialize msg) = Inr (received_message msg)" using msg_round_trip [OF p(4), of "[]"] by simp
  then have d: "begin_datagram 0 (msg_serialize msg) h q (tnodes ?s1 m) = Some (nm, out)"
    using b assms(5) by (simp add: begin_datagram_def msg_serialize_eq write_u8_def)
  let ?s2 = "?s1\<lparr>tnodes := (tnodes ?s1)(m := nm), tnet := tnet ?s1 \<union> set out\<rparr>"
  have s2: "orderly_run True K s ?s2"
    by (rule orderly_run.step [OF p(1) orderly_step.arrive [OF assms(4) _ _ d, of h q]]) (use assms(5,7) in simp_all)
  have "causal_from {} ?ops"
    using replica_invD(2) [OF cluster_invD(4) [OF cluster_reachable_inv [OF S(1)]]] S(3) [OF assms(3)]
    by (simp add: causal_received causal_same [of ?log "op_log (c n)"] same_book_def)
  moreover have "has_order (book ?bk) (order_id (op_order x))"
    if "x \<in> set ?ops" "op_type x = ADD_ORDER" "op_id x \<in> seen_ops ?bk" for x
    using that seen_order_known [OF c assms(3,4)] by (auto simp: received_operation_def received_order_def)
  moreover have "distinct (map op_id ?ops)"
    using crdt_invD(4) [OF S(6) [OF assms(3)]] by (simp add: comp_def received_operation_def)
  ultimately have "orderly_run True K s (?s2\<lparr>tnodes := (tnodes ?s2)(m := (tnodes ?s2 m)
      \<lparr>shared := (shared (tnodes ?s2 m))\<lparr>ge_book := apply_operations (ge_book (shared (tnodes ?s2 m))) ?ops\<rparr>,
       r_pc := R_apply (received_message msg) [] h q\<rparr>)\<rparr>)"
    using assms(10,11) by (intro apply_run [OF s2 assms(4), of "received_message msg" ?ops h q "{}"]) (simp_all add: nm)
  then show thesis by (rule that) (use assms(5) nm p in simp_all)
qed

section \<open>An order travels\<close>

text \<open>A client adds an order at node a.\<close>

lemma served_threads:
  obtains s where "orderly_run True {''a'', ''b''} (started 0 pair_config) s" "shared (tnodes s ''a'') = served_a"
    "shared (tnodes s ''b'') = nodes (initial 0 pair_config) ''b''"
    "\<forall>n. g_pc (tnodes s n) = G_idle \<and> r_pc (tnodes s n) = R_idle"
proof -
  let ?i = "started 0 pair_config" and ?K = "{''a'', ''b''}"
  have i: "shared (tnodes ?i n) = nodes (initial 0 pair_config) n" "r_pc (tnodes ?i n) = R_idle" "g_pc (tnodes ?i n) = G_idle"
    for n by (simp_all add: started_def initial_def)
  have "wire_price 1 = 1" by (rule wire_price_exact [OF representable_of_int [of 1, simplified], of 10000]) simp_all
  then have add: "list_all exact_op (op_log (ge_book served_a))" by (simp add: served_a_op added_op_def exact_op_def)
  have fresh: "fresh_in ?K ?i (sample_ids k)" for k
    by (simp add: fresh_in_def i initial_def start_node_def new_engine_def new_crdt_def has_order_def empty_book_def
        pair_config_def default_config_def)
  have "\<not> asks_market [''ADD BUY 1 2'' @ [nl]]" unfolding asks_market_def by code_simp
  note serve = orderly_step.serve [of "''a''" ?K 0 sample_junk sample_ids ?i 0 "[''ADD BUY 1 2'' @ [nl]]" served_a _ True,
    unfolded i, OF _ sample_request_ok served_a_eq served_a_room fresh fresh add this]
  have "orderly_run True ?K ?i (?i\<lparr>tnodes := (tnodes ?i)(''a'' := (tnodes ?i ''a'')\<lparr>shared := served_a\<rparr>)\<rparr>)"
    by (rule orderly_run.step [OF orderly_run.init serve]) simp
  then show thesis by (rule that) (simp_all add: i)
qed

lemma served_logs:
  "length (op_log (ge_book served_a)) = 1" "seen_ops (ge_book served_a) = {''p''}"
  "op_log (ge_book (nodes (initial 0 pair_config) ''b'')) = []" "seen_ops (ge_book (nodes (initial 0 pair_config) ''b'')) = {}"
  by (simp_all add: served_a_op served_a_book local_add_order_eq new_crdt_def has_order_def empty_book_def Let_def added_op_def
      initial_def start_node_def new_engine_def pair_config_def default_config_def)

text \<open>The gossip thread of a pushes it, the receiving thread of b reads the datagram and applies it.\<close>

lemma sample_orderly:
  obtains s where "orderly_run True {''a'', ''b''} (started 0 pair_config) s"
    "seen_ops (ge_book (shared (tnodes s ''a''))) = {''p''}" "seen_ops (ge_book (shared (tnodes s ''b''))) = {''p''}"
proof -
  obtain s where s: "orderly_run True {''a'', ''b''} (started 0 pair_config) s" "shared (tnodes s ''a'') = served_a"
    "shared (tnodes s ''b'') = nodes (initial 0 pair_config) ''b''" "\<forall>n. g_pc (tnodes s n) = G_idle \<and> r_pc (tnodes s n) = R_idle"
    by (rule served_threads)
  have f: "strategy (shared (tnodes s ''a'')) \<noteq> WYTHOFF" "peers (shared (tnodes s ''a'')) \<noteq> []"
    using served_a_fields by (simp_all add: s(2))
  obtain s' where s': "orderly_run True {''a'', ''b''} s s'"
    "ge_book (shared (tnodes s' ''b'')) = apply_operations (ge_book (shared (tnodes s ''b'')))
       (map received_operation (op_log (ge_book (shared (tnodes s ''a'')))))"
    "ge_book (shared (tnodes s' ''a'')) = ge_book (shared (tnodes s ''a''))"
    by (rule push_applied [OF pair_config_ok s(1) _ _ _ _ _ f, of "''b''"]) (simp_all add: s served_logs)
  show thesis
    by (rule that [OF orderly_run_trans [OF s'(1) s(1)]])
      (simp_all add: s'(2,3) s(2,3) served_logs seen_apply_operations served_a_op added_op_def
        received_operation_def del: apply_operations.simps)
qed

section \<open>The deployment as a whole\<close>

lemma replicas_answer:
  assumes "config_ok K cfg" and "orderly_run True K (started now0 cfg) s" and "n \<in> K" and "m \<in> K"
    and "seen_ops (ge_book (shared (tnodes s n))) = seen_ops (ge_book (shared (tnodes s m)))"
  shows "map_of (orders (book (ge_book (shared (tnodes s n))))) = map_of (orders (book (ge_book (shared (tnodes s m))))) \<and>
    handle_book ss (ge_book (shared (tnodes s n))) = handle_book ss (ge_book (shared (tnodes s m)))"
proof -
  obtain c where c: "simulates True K s c" using simulated_run [OF assms(1,2)] by blast
  note same = simulatesD(3) [OF c assms(3)] simulatesD(3) [OF c assms(4)]
  have "seen_ops (c n) = seen_ops (c m)" using assms(5) same by (simp add: same_book_def)
  note agree = cluster_agrees [OF cluster_reachable_inv [OF simulatesD(1) [OF c]] this]
  have "handle_book ss (c n) = handle_book ss (c m)" by (rule handle_book_depth [OF agree(2,3)])
  moreover have "handle_book ss (ge_book (shared (tnodes s k))) = handle_book ss (c k)" if "k \<in> K" for k
    by (rule handle_book_depth) (use simulatesD(3) [OF c that] in \<open>simp_all add: same_book_def\<close>)
  ultimately show ?thesis using agree(1) same assms(3,4) by (simp add: same_book_def)
qed

text \<open>C2: the deployment implements the abstract cluster: however the threads of the nodes and their
  clients interleave, whatever is lost, repeated or overtaken on the way, as long as generated ids are
  new everywhere and prices exact to ten-thousandths, there is a run of the cluster in which every
  node has the same orders, levels, clock and ids, and the same operations in the same order.\<close>
theorem deployment_refines_cluster:
  assumes "config_ok K cfg" and "orderly_run tame K (started now0 cfg) s"
  shows "\<exists>c. cluster_reachable tame c \<and> (\<forall>n \<in> K. same_book (ge_book (shared (tnodes s n))) (c n))"
  using simulated_run [OF assms] by (auto simp: simulates_def)

theorem deployment_refines_cluster_witness:
  "\<exists>s c. orderly_run True {''a'', ''b''} (started 0 pair_config) s \<and> seen_ops (ge_book (shared (tnodes s ''b''))) = {''p''} \<and>
    cluster_reachable True c \<and> same_book (ge_book (shared (tnodes s ''b''))) (c ''b'')"
proof -
  obtain s where s: "orderly_run True {''a'', ''b''} (started 0 pair_config) s" "seen_ops (ge_book (shared (tnodes s ''b''))) = {''p''}"
    by (rule sample_orderly)
  from deployment_refines_cluster [OF pair_config_ok s(1)] obtain c where
    "cluster_reachable True c" "same_book (ge_book (shared (tnodes s ''b''))) (c ''b'')" by blast
  with s show ?thesis by blast
qed

text \<open>C3: so the deployment converges, end to end: in every run in which generated ids are new, every
  price comes off the wire as it went on, nobody sends a market order and no cancel is applied before its order,
  nodes that have seen the same operations hold the same orders, and a client that asks for the
  book gets the same bytes from either, whatever depth it asks for.\<close>
theorem deployment_converges:
  assumes "config_ok K cfg" and "orderly_run True K (started now0 cfg) s" and "n \<in> K" and "m \<in> K"
    and "seen_ops (ge_book (shared (tnodes s n))) = seen_ops (ge_book (shared (tnodes s m)))"
  shows "map_of (orders (book (ge_book (shared (tnodes s n))))) = map_of (orders (book (ge_book (shared (tnodes s m))))) \<and>
    handle_book ss (ge_book (shared (tnodes s n))) = handle_book ss (ge_book (shared (tnodes s m)))"
  by (rule replicas_answer [OF assms])

theorem deployment_converges_witness:
  "\<exists>s. orderly_run True {''a'', ''b''} (started 0 pair_config) s \<and> seen_ops (ge_book (shared (tnodes s ''b''))) = {''p''} \<and>
    handle_book (istringstream []) (ge_book (shared (tnodes s ''a''))) =
      handle_book (istringstream []) (ge_book (shared (tnodes s ''b'')))"
proof -
  obtain s where s: "orderly_run True {''a'', ''b''} (started 0 pair_config) s"
    "seen_ops (ge_book (shared (tnodes s ''a''))) = {''p''}" "seen_ops (ge_book (shared (tnodes s ''b''))) = {''p''}"
    by (rule sample_orderly)
  with deployment_converges [OF pair_config_ok s(1), of "''a''" "''b''"] show ?thesis by (intro exI [of _ s]) simp
qed




end
