(* ===== verification/Lifecycle.thy ===== *)
theory Lifecycle
  imports UdpTransport TcpServer
begin

text \<open>
  The threads of one process, from the constructors in \<^verbatim>\<open>main\<close> to the destructors after its
  last line (\<^verbatim>\<open>main.cpp\<close>, with \<^verbatim>\<open>start\<close> and \<^verbatim>\<open>stop\<close> of the engine and the
  server): a step is one action of the main thread, of one of the three threads it joins, of a
  connection's detached thread, of the network, or the signal handler, in any order. The state has the objects of
  \<^verbatim>\<open>main\<close> that are alive, the descriptors that are open, on which of them a call does not
  wait for ever, the mutexes that connections hold, the running flags and where each thread is. What the threads compute is in the other theories; here it matters what they touch.
\<close>

section \<open>State\<close>

datatype object = Book | Udp | Engine | Server

datatype main_pc = Boot | Boot_server | Start_engine | Start_receiver | Start_server | Running
  | Stop_engine | Join_gossip | Join_receiver | Stop_server | Join_accept
  | Drop_server | Drop_engine | Drop_udp | Drop_book | Exited | Terminated string

text \<open>A thread's loop: about to test its flag, or in its body; the receiving thread also with a
  datagram in its hands.\<close>

datatype thread = Unborn | Testing | Working | Handling | Ended

text \<open>The mutexes a request's handler can be inside of: the replicated book's, or, for \<^verbatim>\<open>PEERS\<close>,
  that of the table of peers.\<close>

datatype mutex = Crdt_mutex | Peers_mutex

definition mutex_of :: "string \<Rightarrow> mutex" where
  "mutex_of request = (if take 5 request = ''PEERS'' then Peers_mutex else Crdt_mutex)"

datatype client_action = Sys syscall | Call_handler string

text \<open>The descriptors with a receive timeout and those that were shut down.\<close>

record waiting =
  timed :: "int set"
  shut :: "int set"

record process =
  pc :: main_pc
  g_running :: bool
  engine_running :: bool
  server_running :: bool
  gossip_thread :: thread
  receive_thread :: thread
  accept_thread :: thread
  clients :: "(int \<times> client_action list) list"
  alive :: "object set"
  open_fds :: "int set"
  waits :: waiting
  owner :: "mutex \<Rightarrow> nat option"
  transport :: udp_transport
  server :: tcp_server

definition loaded :: "int set \<Rightarrow> process" where
  "loaded fds =
     \<lparr>pc = Boot, g_running = True, engine_running = False, server_running = False, gossip_thread = Unborn,
      receive_thread = Unborn, accept_thread = Unborn, clients = [], alive = {}, open_fds = fds,
      waits = \<lparr>timed = {}, shut = {}\<rparr>, owner = (\<lambda>_. None),
      transport = \<lparr>sockfd = -1, udp_port_no = 0\<rparr>, server = \<lparr>server_fd = -1, tcp_port_no = 0\<rparr>\<rparr>"

text \<open>What \<^verbatim>\<open>handle_client\<close> does on its descriptor, for the segments that arrive and the
  response its handler gives.\<close>

definition client_program :: "int \<Rightarrow> string list \<Rightarrow> string \<Rightarrow> client_action list" where
  "client_program client_fd segs response =
     (let request = strip_line_end (read_request [] segs)
      in map Sys (read_calls client_fd [] segs) @
         (if request = [] then [] else [Call_handler request, Sys (Send client_fd (response @ [nl]))]) @
         [Sys (Close client_fd)])"

section \<open>Calls that wait\<close>

text \<open>When nothing arrives, \<^verbatim>\<open>recvfrom\<close> and \<^verbatim>\<open>accept\<close> come back only from a descriptor
  with a receive timeout, and \<^verbatim>\<open>accept\<close> also from one that was shut down; otherwise they wait for ever.\<close>

fun call_returns :: "waiting \<Rightarrow> syscall \<Rightarrow> bool" where
  "call_returns w (Recvfrom fd k r) = (0 \<le> r \<or> fd \<in> timed w)"
| "call_returns w (Accept fd r) = (0 \<le> r \<or> fd \<in> timed w \<union> shut w)"
| "call_returns w _ = True"

text \<open>A timeout of zero is none.\<close>

fun waiting_after :: "syscall \<Rightarrow> waiting \<Rightarrow> waiting" where
  "waiting_after (Setsockopt fd (SO_RCVTIMEO s us)) w =
     w\<lparr>timed := (if s = 0 \<and> us = 0 then timed w - {fd} else insert fd (timed w))\<rparr>"
| "waiting_after (Shutdown fd) w = w\<lparr>shut := insert fd (shut w)\<rparr>"
| "waiting_after (Close fd) w = \<lparr>timed = timed w - {fd}, shut = shut w - {fd}\<rparr>"
| "waiting_after _ w = w"

fun calls_return :: "syscall list \<Rightarrow> waiting \<Rightarrow> bool" where
  "calls_return [] w = True"
| "calls_return (c # cs) w = (call_returns w c \<and> calls_return cs (waiting_after c w))"

section \<open>Steps\<close>

text \<open>The handler of \<^verbatim>\<open>SIGINT\<close> and \<^verbatim>\<open>SIGTERM\<close>.\<close>

definition signal_handler :: "process \<Rightarrow> process" where
  "signal_handler p = p\<lparr>g_running := False\<rparr>"

text \<open>\<^verbatim>\<open>GossipEngine::start\<close> makes two threads one after the other; \<^verbatim>\<open>stop\<close> clears the
  flag before it joins them.\<close>

definition engine_start_gossip :: "process \<Rightarrow> process" where
  "engine_start_gossip p = p\<lparr>engine_running := True, gossip_thread := Testing\<rparr>"

definition engine_start_receive :: "process \<Rightarrow> process" where
  "engine_start_receive p = p\<lparr>receive_thread := Testing\<rparr>"

definition engine_stop :: "process \<Rightarrow> process" where
  "engine_stop p = p\<lparr>engine_running := False\<rparr>"

definition server_start :: "process \<Rightarrow> process" where
  "server_start p = p\<lparr>server_running := True, accept_thread := Testing\<rparr>"

declare signal_handler_def [simp] engine_start_gossip_def [simp] engine_start_receive_def [simp]
  engine_stop_def [simp] server_start_def [simp]

text \<open>The socket calls of a step, on the open descriptors.\<close>

definition performs :: "syscall list \<Rightarrow> process \<Rightarrow> int set \<Rightarrow> bool" where
  "performs calls p fds \<longleftrightarrow> calls_ok calls (open_fds p, 0) = Some (fds, 0)"

text \<open>A loop's test.\<close>

definition tested :: "bool \<Rightarrow> thread" where
  "tested running = (if running then Working else Ended)"

inductive main_step :: "process \<Rightarrow> process \<Rightarrow> bool" where
  udp_fails: "pc p = Boot \<Longrightarrow> fd \<notin> open_fds p \<Longrightarrow> udp_open fd bound host port = (calls, Inl e) \<Longrightarrow> performs calls p fds \<Longrightarrow>
    main_step p (p\<lparr>pc := Terminated e, open_fds := fds, waits := fold waiting_after calls (waits p)\<rparr>)"
| udp_made: "pc p = Boot \<Longrightarrow> fd \<notin> open_fds p \<Longrightarrow> udp_open fd bound host port = (calls, Inr t) \<Longrightarrow> performs calls p fds \<Longrightarrow>
    main_step p (p\<lparr>pc := Boot_server, open_fds := fds, waits := fold waiting_after calls (waits p), transport := t, alive := {Book, Udp, Engine}\<rparr>)"
| tcp_fails: "pc p = Boot_server \<Longrightarrow> fd \<notin> open_fds p \<Longrightarrow> tcp_open fd bound listening host port = (calls, Inl e) \<Longrightarrow>
    performs calls p fds \<Longrightarrow> main_step p (p\<lparr>pc := Terminated e, open_fds := fds, waits := fold waiting_after calls (waits p)\<rparr>)"
| tcp_made: "pc p = Boot_server \<Longrightarrow> fd \<notin> open_fds p \<Longrightarrow> tcp_open fd bound listening host port = (calls, Inr srv) \<Longrightarrow>
    performs calls p fds \<Longrightarrow>
    main_step p (p\<lparr>pc := Start_engine, open_fds := fds, waits := fold waiting_after calls (waits p),
      server := srv, alive := insert Server (alive p)\<rparr>)"
| start_gossip: "pc p = Start_engine \<Longrightarrow>
    main_step p ((engine_start_gossip p)\<lparr>pc := Start_receiver\<rparr>)"
| start_receive: "pc p = Start_receiver \<Longrightarrow> main_step p ((engine_start_receive p)\<lparr>pc := Start_server\<rparr>)"
| start_accept: "pc p = Start_server \<Longrightarrow>
    main_step p ((server_start p)\<lparr>pc := Running\<rparr>)"
| leave: "pc p = Running \<Longrightarrow> \<not> g_running p \<Longrightarrow> main_step p (p\<lparr>pc := Stop_engine\<rparr>)"
| stop_engine: "pc p = Stop_engine \<Longrightarrow> main_step p ((engine_stop p)\<lparr>pc := Join_gossip\<rparr>)"
| join_gossip: "pc p = Join_gossip \<Longrightarrow> gossip_thread p = Ended \<Longrightarrow> main_step p (p\<lparr>pc := Join_receiver\<rparr>)"
| join_receive: "pc p = Join_receiver \<Longrightarrow> receive_thread p = Ended \<Longrightarrow> main_step p (p\<lparr>pc := Stop_server\<rparr>)"
| stop_server: "pc p = Stop_server \<Longrightarrow> performs (tcp_stop (server p)) p fds \<Longrightarrow>
    main_step p (p\<lparr>pc := Join_accept, server_running := False, open_fds := fds,
      waits := fold waiting_after (tcp_stop (server p)) (waits p)\<rparr>)"
| join_accept: "pc p = Join_accept \<Longrightarrow> accept_thread p = Ended \<Longrightarrow> main_step p (p\<lparr>pc := Drop_server\<rparr>)"
| drop_server: "pc p = Drop_server \<Longrightarrow> performs (tcp_close (server p)) p fds \<Longrightarrow>
    main_step p (p\<lparr>pc := Drop_engine, open_fds := fds,
      waits := fold waiting_after (tcp_close (server p)) (waits p), alive := alive p - {Server}\<rparr>)"
| drop_engine: "pc p = Drop_engine \<Longrightarrow> main_step p (p\<lparr>pc := Drop_udp, alive := alive p - {Engine}\<rparr>)"
| drop_udp: "pc p = Drop_udp \<Longrightarrow> performs (udp_close (transport p)) p fds \<Longrightarrow>
    main_step p (p\<lparr>pc := Drop_book, open_fds := fds,
      waits := fold waiting_after (udp_close (transport p)) (waits p), alive := alive p - {Udp}\<rparr>)"
| drop_book: "pc p = Drop_book \<Longrightarrow> main_step p (p\<lparr>pc := Exited, alive := alive p - {Book}\<rparr>)"

text \<open>The three threads that are joined. A turn of the gossip thread sends; the receiving thread
  receives nothing in time, or handles what it got, and may send. Both wait for the mutexes.\<close>

definition mutexes_free :: "process \<Rightarrow> bool" where
  "mutexes_free p \<longleftrightarrow> owner p Crdt_mutex = None \<and> owner p Peers_mutex = None"

definition sends :: "(string \<times> u16 \<times> u8 list) list \<Rightarrow> transport_use list" where
  "sends out = map (\<lambda>(host, port, data). Use_send host port data) out"

inductive worker_step :: "process \<Rightarrow> process \<Rightarrow> bool" where
  gossip_test: "gossip_thread p = Testing \<Longrightarrow> worker_step p (p\<lparr>gossip_thread := tested (engine_running p)\<rparr>)"
| gossip_turn: "gossip_thread p = Working \<Longrightarrow> mutexes_free p \<Longrightarrow>
    performs (concat (map (use_calls dns sendto (transport p)) (sends out))) p fds \<Longrightarrow>
    worker_step p (p\<lparr>gossip_thread := Testing, open_fds := fds\<rparr>)"
| receive_test: "receive_thread p = Testing \<Longrightarrow> worker_step p (p\<lparr>receive_thread := tested (engine_running p)\<rparr>)"
| receive_none: "receive_thread p = Working \<Longrightarrow> calls = fst (recv_from (transport p) [] 0 500 Timeout) \<Longrightarrow>
    performs calls p fds \<Longrightarrow> calls_return calls (waits p) \<Longrightarrow>
    worker_step p (p\<lparr>receive_thread := Testing, open_fds := fds, waits := fold waiting_after calls (waits p)\<rparr>)"
| receive_handle: "receive_thread p = Handling \<Longrightarrow> mutexes_free p \<Longrightarrow>
    performs (concat (map (use_calls dns sendto (transport p)) (sends out))) p fds \<Longrightarrow>
    worker_step p (p\<lparr>receive_thread := Testing, open_fds := fds\<rparr>)"
| accept_test: "accept_thread p = Testing \<Longrightarrow> worker_step p (p\<lparr>accept_thread := tested (server_running p)\<rparr>)"
| accept_none: "accept_thread p = Working \<Longrightarrow> accept_turn (server p) r = (calls, None) \<Longrightarrow> performs calls p fds \<Longrightarrow>
    calls_return calls (waits p) \<Longrightarrow>
    worker_step p (p\<lparr>accept_thread := Testing, open_fds := fds, waits := fold waiting_after calls (waits p)\<rparr>)"

text \<open>A datagram comes.\<close>

inductive network_step :: "process \<Rightarrow> process \<Rightarrow> bool" where
  datagram: "receive_thread p = Working \<Longrightarrow> calls = fst (recv_from (transport p) [] 0 500 (Datagram addr bytes)) \<Longrightarrow>
    performs calls p fds \<Longrightarrow>
    network_step p (p\<lparr>receive_thread := Handling, open_fds := fds, waits := fold waiting_after calls (waits p)\<rparr>)"

text \<open>Connections. A handler may go in and out of the mutex of its request before it returns.\<close>

inductive client_step :: "process \<Rightarrow> process \<Rightarrow> bool" where
  connect: "accept_thread p = Working \<Longrightarrow> fd \<notin> open_fds p \<Longrightarrow> accept_turn (server p) fd = (calls, Some c) \<Longrightarrow>
    performs calls p fds \<Longrightarrow>
    client_step p (p\<lparr>accept_thread := Testing, open_fds := fds, waits := fold waiting_after calls (waits p),
      clients := clients p @ [(c, client_program c segs response)]\<rparr>)"
| client_call: "i < length (clients p) \<Longrightarrow> clients p ! i = (c, Sys call # rest) \<Longrightarrow> performs [call] p fds \<Longrightarrow>
    client_step p (p\<lparr>clients := (clients p)[i := (c, rest)], open_fds := fds, waits := waiting_after call (waits p)\<rparr>)"
| client_lock: "i < length (clients p) \<Longrightarrow> clients p ! i = (c, Call_handler request # rest) \<Longrightarrow>
    {Book, Engine, Server} \<subseteq> alive p \<Longrightarrow> owner p (mutex_of request) = None \<Longrightarrow>
    client_step p (p\<lparr>owner := (owner p)(mutex_of request := Some i)\<rparr>)"
| client_handler: "i < length (clients p) \<Longrightarrow> clients p ! i = (c, Call_handler request # rest) \<Longrightarrow>
    {Book, Engine, Server} \<subseteq> alive p \<Longrightarrow> owner p (mutex_of request) \<noteq> Some i \<Longrightarrow>
    client_step p (p\<lparr>clients := (clients p)[i := (c, rest)]\<rparr>)"

text \<open>A connection leaves the mutex it is inside of.\<close>

inductive unlock_step :: "process \<Rightarrow> process \<Rightarrow> bool" where
  unlock: "owner p m = Some i \<Longrightarrow> {Book, Engine, Server} \<subseteq> alive p \<Longrightarrow> unlock_step p (p\<lparr>owner := (owner p)(m := None)\<rparr>)"

text \<open>What the process does when nothing comes from outside but the signal: no datagram and no
  connection, and of the connections it has no more than that they leave the mutexes they hold.\<close>

inductive quiet_step :: "process \<Rightarrow> process \<Rightarrow> bool" where
  signal: "quiet_step p (signal_handler p)"
| main: "main_step p p' \<Longrightarrow> quiet_step p p'"
| worker: "worker_step p p' \<Longrightarrow> quiet_step p p'"
| leaving: "unlock_step p p' \<Longrightarrow> quiet_step p p'"

inductive process_step :: "process \<Rightarrow> process \<Rightarrow> bool" where
  quiet: "quiet_step p p' \<Longrightarrow> process_step p p'"
| network: "network_step p p' \<Longrightarrow> process_step p p'"
| client: "client_step p p' \<Longrightarrow> process_step p p'"

inductive process_run :: "int set \<Rightarrow> process \<Rightarrow> bool" for fds0 where
  init: "process_run fds0 (loaded fds0)"
| step: "process_run fds0 p \<Longrightarrow> process_step p p' \<Longrightarrow> process_run fds0 p'"

section \<open>The invariant\<close>

text \<open>Where the main thread is says which objects are alive, which threads can be running, and
  that the flags it has cleared are cleared.\<close>

definition living :: "main_pc \<Rightarrow> object set" where
  "living c =
     (case c of Boot \<Rightarrow> {} | Boot_server \<Rightarrow> {Book, Udp, Engine} | Drop_engine \<Rightarrow> {Book, Udp, Engine}
      | Drop_udp \<Rightarrow> {Book, Udp} | Drop_book \<Rightarrow> {Book} | Exited \<Rightarrow> {} | Terminated e \<Rightarrow> {}
      | _ \<Rightarrow> {Book, Udp, Engine, Server})"

abbreviation up :: "thread \<Rightarrow> bool" where
  "up t \<equiv> t = Testing \<or> t = Working \<or> t = Handling"

definition phase_ok :: "process \<Rightarrow> bool" where
  "phase_ok p \<longleftrightarrow>
     (alive p = living (pc p) \<or> (\<exists>e. pc p = Terminated e)) \<and>
     (up (gossip_thread p) \<longrightarrow> pc p \<in> {Start_receiver, Start_server, Running, Stop_engine, Join_gossip}) \<and>
     (up (receive_thread p) \<longrightarrow> pc p \<in> {Start_server, Running, Stop_engine, Join_gossip, Join_receiver}) \<and>
     (up (accept_thread p) \<longrightarrow>
        pc p \<in> {Running, Stop_engine, Join_gossip, Join_receiver, Stop_server, Join_accept}) \<and>
     (pc p \<in> {Start_receiver, Start_server, Running, Stop_engine, Join_gossip} \<longrightarrow> gossip_thread p \<noteq> Unborn) \<and>
     (pc p \<in> {Start_server, Running, Stop_engine, Join_gossip, Join_receiver} \<longrightarrow> receive_thread p \<noteq> Unborn) \<and>
     (pc p \<in> {Running, Stop_engine, Join_gossip, Join_receiver, Stop_server, Join_accept} \<longrightarrow>
        accept_thread p \<noteq> Unborn) \<and>
     (pc p \<in> {Join_gossip, Join_receiver} \<longrightarrow> \<not> engine_running p) \<and>
     (pc p = Join_accept \<longrightarrow> \<not> server_running p) \<and>
     gossip_thread p \<noteq> Handling \<and> accept_thread p \<noteq> Handling"

text \<open>The connections that are not closed yet, and the descriptors the process owns.\<close>

definition open_conns :: "process \<Rightarrow> int list" where
  "open_conns p = map fst (filter (\<lambda>cl. snd cl \<noteq> []) (clients p))"

definition sockets :: "process \<Rightarrow> int list" where
  "sockets p = (if Udp \<in> alive p then [sockfd (transport p)] else []) @
     (if Server \<in> alive p then [server_fd (server p)] else [])"

fun program_ok :: "int \<Rightarrow> client_action list \<Rightarrow> bool" where
  "program_ok c [] = True"
| "program_ok c [Sys (Close d)] = (d = c)"
| "program_ok c (Sys (Recv d k s) # rest) = (d = c \<and> rest \<noteq> [] \<and> program_ok c rest)"
| "program_ok c (Sys (Send d s) # rest) = (d = c \<and> rest \<noteq> [] \<and> program_ok c rest)"
| "program_ok c (Call_handler r # rest) = (rest \<noteq> [] \<and> program_ok c rest)"
| "program_ok c _ = False"

definition fds_ok :: "int set \<Rightarrow> process \<Rightarrow> bool" where
  "fds_ok fds0 p \<longleftrightarrow> distinct (sockets p @ open_conns p) \<and> fds0 \<inter> set (sockets p @ open_conns p) = {} \<and>
     open_fds p = fds0 \<union> set (sockets p @ open_conns p) \<and> (\<forall>fd \<in> set (sockets p). 0 \<le> fd) \<and>
     list_all (\<lambda>(c, prog). program_ok c prog) (clients p)"

section \<open>What the calls of a step do\<close>

lemma performs_uses:
  "sockfd t \<in> open_fds p \<Longrightarrow> performs (concat (map (use_calls dns sendto t) us)) p fds \<longleftrightarrow> fds = open_fds p"
  using calls_ok_concat [of us "use_calls dns sendto t" "(open_fds p, 0)"] by (auto simp: performs_def use_calls_ok)

lemma performs_udp_open:
  assumes "udp_open fd bound host port = (calls, r)" and "fd \<notin> open_fds p"
  shows "performs calls p fds \<longleftrightarrow>
    (case r of Inl e \<Rightarrow> fds = open_fds p | Inr t \<Rightarrow> fds = insert fd (open_fds p) \<and> sockfd t = fd \<and> 0 \<le> fd)"
  using assms by (auto simp: performs_def udp_open_def Let_def split: if_splits)

lemma performs_tcp_open:
  assumes "tcp_open fd bound listening host port = (calls, r)" and "fd \<notin> open_fds p"
  shows "performs calls p fds \<longleftrightarrow>
    (case r of Inl e \<Rightarrow> fds = open_fds p | Inr srv \<Rightarrow> fds = insert fd (open_fds p) \<and> server_fd srv = fd \<and> 0 \<le> fd)"
  using assms by (auto simp: performs_def tcp_open_def Let_def split: if_splits)

lemma performs_tcp_stop:
  "server_fd srv \<in> open_fds p \<Longrightarrow> performs (tcp_stop srv) p fds \<longleftrightarrow> fds = open_fds p"
  by (auto simp: performs_def tcp_stop_def)

lemma performs_tcp_close:
  "0 \<le> server_fd srv \<Longrightarrow> server_fd srv \<in> open_fds p \<Longrightarrow>
    performs (tcp_close srv) p fds \<longleftrightarrow> fds = open_fds p - {server_fd srv}"
  by (auto simp: performs_def tcp_close_def tcp_stop_def)

lemma performs_udp_close:
  "0 \<le> sockfd t \<Longrightarrow> sockfd t \<in> open_fds p \<Longrightarrow> performs (udp_close t) p fds \<longleftrightarrow> fds = open_fds p - {sockfd t}"
  by (auto simp: performs_def udp_close_def)

lemma performs_accept:
  assumes "accept_turn srv r = (calls, c)" and "server_fd srv \<in> open_fds p"
  shows "performs calls p fds \<longleftrightarrow> fds = (case c of None \<Rightarrow> open_fds p | Some c \<Rightarrow> insert c (open_fds p))"
  using assms by (auto simp: performs_def accept_turn_def split: if_splits)

lemma program_ok_reads:
  "rest \<noteq> [] \<Longrightarrow> program_ok c rest \<Longrightarrow> program_ok c (map Sys (read_calls c request segs) @ rest)"
  by (induction c request segs rule: read_calls.induct) (simp_all add: Let_def)

lemma client_program_ok: "program_ok c (client_program c segs response)" "client_program c segs response \<noteq> []"
  by (simp_all add: client_program_def Let_def program_ok_reads)

lemma program_ok_step:
  assumes "program_ok c (Sys call # rest)"
  shows "program_ok c rest" "(\<exists>k s. call = Recv c k s) \<or> (\<exists>s. call = Send c s) \<or> call = Close c"
    "rest = [] \<longleftrightarrow> call = Close c"
  using assms by (cases call; cases rest; auto)+

section \<open>Every step keeps it\<close>

lemma phase_ok_main: "phase_ok p \<Longrightarrow> main_step p p' \<Longrightarrow> phase_ok p'"
  by (erule main_step.cases) (auto simp: phase_ok_def living_def)

lemma phase_ok_worker: "phase_ok p \<Longrightarrow> worker_step p p' \<Longrightarrow> phase_ok p'"
  by (erule worker_step.cases) (auto simp: phase_ok_def tested_def)

lemma phase_ok_network: "phase_ok p \<Longrightarrow> network_step p p' \<Longrightarrow> phase_ok p'"
  by (erule network_step.cases) (auto simp: phase_ok_def)

lemma phase_ok_client: "phase_ok p \<Longrightarrow> client_step p p' \<Longrightarrow> phase_ok p'"
  by (erule client_step.cases) (auto simp: phase_ok_def)

lemma phase_ok_quiet:
  assumes "phase_ok p" and "quiet_step p p'" shows "phase_ok p'"
  using assms(2)
proof cases
  case signal
  then show ?thesis using assms(1) by (simp add: phase_ok_def)
next
  case leaving
  then show ?thesis by cases (use assms(1) in \<open>simp add: phase_ok_def\<close>)
qed (use assms(1) phase_ok_main phase_ok_worker in blast)+

lemma phase_ok_step: "phase_ok p \<Longrightarrow> process_step p p' \<Longrightarrow> phase_ok p'"
  by (erule process_step.cases) (auto intro: phase_ok_quiet phase_ok_network phase_ok_client)

text \<open>Which sockets are there.\<close>

lemma phase_sockets:
  assumes "phase_ok p"
  shows "up (gossip_thread p) \<or> up (receive_thread p) \<Longrightarrow> {Book, Udp, Engine} \<subseteq> alive p"
    and "up (accept_thread p) \<Longrightarrow> {Book, Udp, Engine, Server} \<subseteq> alive p"
proof -
  have a: "alive p = living (pc p) \<or> (\<exists>e. pc p = Terminated e)" using assms by (simp add: phase_ok_def)
  show "{Book, Udp, Engine} \<subseteq> alive p" if "up (gossip_thread p) \<or> up (receive_thread p)"
  proof -
    have "pc p \<in> {Start_receiver, Start_server, Running, Stop_engine, Join_gossip, Join_receiver}"
      using assms that unfolding phase_ok_def by blast
    then show ?thesis using a by (elim insertE emptyE) (simp_all add: living_def)
  qed
  show "{Book, Udp, Engine, Server} \<subseteq> alive p" if "up (accept_thread p)"
  proof -
    have "pc p \<in> {Running, Stop_engine, Join_gossip, Join_receiver, Stop_server, Join_accept}"
      using assms that unfolding phase_ok_def by blast
    then show ?thesis using a by (elim insertE emptyE) (simp_all add: living_def)
  qed
qed

lemma fds_ok_open:
  assumes "fds_ok fds0 p"
  shows "Udp \<in> alive p \<Longrightarrow> sockfd (transport p) \<in> open_fds p \<and> 0 \<le> sockfd (transport p)"
    and "Server \<in> alive p \<Longrightarrow> server_fd (server p) \<in> open_fds p \<and> 0 \<le> server_fd (server p)"
    and "(c, prog) \<in> set (clients p) \<Longrightarrow> prog \<noteq> [] \<Longrightarrow> c \<in> open_fds p"
proof -
  have open': "open_fds p = fds0 \<union> set (sockets p @ open_conns p)" "\<forall>fd \<in> set (sockets p). 0 \<le> fd"
    using assms by (simp_all add: fds_ok_def)
  show "sockfd (transport p) \<in> open_fds p \<and> 0 \<le> sockfd (transport p)" if "Udp \<in> alive p"
    using that open' by (simp add: sockets_def)
  show "server_fd (server p) \<in> open_fds p \<and> 0 \<le> server_fd (server p)" if "Server \<in> alive p"
    using that open' by (simp add: sockets_def)
  show "c \<in> open_fds p" if "(c, prog) \<in> set (clients p)" "prog \<noteq> []"
  proof -
    have "c \<in> set (open_conns p)" using that by (force simp: open_conns_def)
    then show ?thesis using open'(1) by simp
  qed
qed

lemma fds_ok_cong:
  "fds_ok fds0 p \<Longrightarrow> sockets p' = sockets p \<Longrightarrow> clients p' = clients p \<Longrightarrow> open_fds p' = open_fds p \<Longrightarrow> fds_ok fds0 p'"
  by (simp add: fds_ok_def open_conns_def)

lemma open_conns_fields [simp]:
  "open_conns (p\<lparr>pc := c\<rparr>) = open_conns p" "open_conns (p\<lparr>open_fds := fds\<rparr>) = open_conns p"
  "open_conns (p\<lparr>waits := w\<rparr>) = open_conns p"
  by (simp_all add: open_conns_def)

lemma fds_ok_main:
  assumes "phase_ok p" and "fds_ok fds0 p" and "main_step p p'"
  shows "fds_ok fds0 p'"
  using assms(3)
proof cases
  case (udp_fails fd bound host port calls e fds)
  then show ?thesis
    using assms(2) performs_udp_open [OF udp_fails(4,3)] by (auto simp: fds_ok_def sockets_def open_conns_def)
next
  case (udp_made fd bound host port calls t fds)
  then show ?thesis
    using assms performs_udp_open [OF udp_made(4,3)] by (auto simp: fds_ok_def sockets_def open_conns_def phase_ok_def living_def)
next
  case (tcp_fails fd bound listening host port calls e fds)
  then show ?thesis
    using assms(2) performs_tcp_open [OF tcp_fails(4,3)] by (auto simp: fds_ok_def sockets_def open_conns_def)
next
  case (tcp_made fd bound listening host port calls srv fds)
  then show ?thesis
    using assms performs_tcp_open [OF tcp_made(4,3)] by (auto simp: fds_ok_def sockets_def open_conns_def phase_ok_def living_def)
next
  case (stop_server fds)
  then have "Server \<in> alive p" using assms(1) by (simp add: phase_ok_def living_def)
  then show ?thesis
    using assms(2) stop_server performs_tcp_stop [of "server p" p fds] fds_ok_open(2) [OF assms(2)]
    by (auto simp: fds_ok_def sockets_def open_conns_def)
next
  case (drop_server fds)
  then have "Server \<in> alive p" using assms(1) by (simp add: phase_ok_def living_def)
  then show ?thesis
    using assms(2) drop_server performs_tcp_close [of "server p" p fds] fds_ok_open(2) [OF assms(2)]
    by (auto simp: fds_ok_def sockets_def open_conns_def)
next
  case (drop_udp fds)
  then have "Udp \<in> alive p" using assms(1) by (simp add: phase_ok_def living_def)
  then show ?thesis
    using assms(2) drop_udp performs_udp_close [of "transport p" p fds] fds_ok_open(1) [OF assms(2)]
    by (auto simp: fds_ok_def sockets_def open_conns_def)
next
  case drop_engine
  then show ?thesis using assms by (intro fds_ok_cong [OF assms(2)]) (auto simp: sockets_def)
next
  case drop_book
  then show ?thesis using assms by (intro fds_ok_cong [OF assms(2)]) (auto simp: sockets_def)
qed (use assms(2) in \<open>auto intro!: fds_ok_cong [OF assms(2)] simp: sockets_def\<close>)

lemma performs_turn:
  assumes "phase_ok p" and "fds_ok fds0 p" and "up (gossip_thread p) \<or> up (receive_thread p)"
  shows "performs (concat (map (use_calls dns sendto (transport p)) us)) p fds \<longleftrightarrow> fds = open_fds p"
    and "performs (fst (recv_from (transport p) [] 0 500 arr)) p fds \<longleftrightarrow> fds = open_fds p"
proof -
  have "sockfd (transport p) \<in> open_fds p"
    using phase_sockets(1) [OF assms(1,3)] fds_ok_open(1) [OF assms(2)] by blast
  then show "performs (concat (map (use_calls dns sendto (transport p)) us)) p fds \<longleftrightarrow> fds = open_fds p"
    and "performs (fst (recv_from (transport p) [] 0 500 arr)) p fds \<longleftrightarrow> fds = open_fds p"
    by (simp_all only: performs_uses) (auto simp: performs_def recv_from_calls_ok)
qed

lemma fds_ok_worker:
  assumes "phase_ok p" and "fds_ok fds0 p" and "worker_step p p'"
  shows "fds_ok fds0 p'"
  using assms(3)
proof cases
  case (gossip_turn dns sendto out fds)
  then have "fds = open_fds p" using performs_turn(1) [OF assms(1,2)] by blast
  then show ?thesis using gossip_turn by (intro fds_ok_cong [OF assms(2)]) (simp_all add: sockets_def)
next
  case (receive_none calls fds)
  then have "fds = open_fds p" using performs_turn(2) [OF assms(1,2)] by blast
  then show ?thesis using receive_none by (intro fds_ok_cong [OF assms(2)]) (simp_all add: sockets_def)
next
  case (receive_handle dns sendto out fds)
  then have "fds = open_fds p" using performs_turn(1) [OF assms(1,2)] by blast
  then show ?thesis using receive_handle by (intro fds_ok_cong [OF assms(2)]) (simp_all add: sockets_def)
next
  case (accept_none r calls fds)
  then have "fds = open_fds p"
    using phase_sockets(2) [OF assms(1)] fds_ok_open(2) [OF assms(2)] performs_accept [OF accept_none(3), of p fds] by auto
  then show ?thesis using accept_none by (intro fds_ok_cong [OF assms(2)]) (simp_all add: sockets_def)
qed (auto intro!: fds_ok_cong [OF assms(2)] simp: sockets_def)

lemma fds_ok_network:
  assumes "phase_ok p" and "fds_ok fds0 p" and "network_step p p'"
  shows "fds_ok fds0 p'"
  using assms(3)
proof cases
  case (datagram calls addr bytes fds)
  then have "fds = open_fds p" using performs_turn(2) [OF assms(1,2)] by blast
  then show ?thesis using datagram by (intro fds_ok_cong [OF assms(2)]) (simp_all add: sockets_def)
qed

text \<open>What the connections hold when one of them goes on.\<close>

lemma open_conns_update:
  assumes "i < length (clients p)" and "clients p ! i = (c, prog)" and "prog \<noteq> []"
  shows "\<exists>xs ys. open_conns p = xs @ c # ys \<and>
    open_conns (p\<lparr>clients := (clients p)[i := (c, rest)]\<rparr>) = xs @ (if rest = [] then [] else [c]) @ ys"
proof -
  let ?f = "\<lambda>cls. map fst (filter (\<lambda>cl. snd cl \<noteq> []) cls)"
  have "clients p = take i (clients p) @ (c, prog) # drop (Suc i) (clients p)"
    using id_take_nth_drop [OF assms(1)] by (simp add: assms(2))
  then have "open_conns p = ?f (take i (clients p) @ (c, prog) # drop (Suc i) (clients p))"
    unfolding open_conns_def by (rule arg_cong)
  then have "open_conns p = ?f (take i (clients p)) @ c # ?f (drop (Suc i) (clients p))"
    using assms(3) by simp
  moreover have "(clients p)[i := (c, rest)] = take i (clients p) @ (c, rest) # drop (Suc i) (clients p)"
    by (rule upd_conv_take_nth_drop [OF assms(1)])
  ultimately show ?thesis by (intro exI) (auto simp: open_conns_def)
qed

lemma clients_ok_update:
  assumes "list_all (\<lambda>(c, prog). program_ok c prog) (clients p)" and "program_ok c rest"
  shows "list_all (\<lambda>(c, prog). program_ok c prog) ((clients p)[i := (c, rest)])"
  using assms set_update_subset_insert [of "clients p" i "(c, rest)"] by (fastforce simp: list_all_iff)

lemma client_ok: "fds_ok fds0 p \<Longrightarrow> i < length (clients p) \<Longrightarrow> clients p ! i = (c, prog) \<Longrightarrow> program_ok c prog"
  by (auto simp: fds_ok_def list_all_length)

lemma owned_removed:
  "distinct (S @ xs @ c # ys) \<Longrightarrow> F \<inter> set (S @ xs @ c # ys) = {} \<Longrightarrow> fds = F \<union> set (S @ xs @ c # ys) \<Longrightarrow>
    fds - {c} = F \<union> set (S @ xs @ ys)"
  by auto

lemma fds_ok_client:
  assumes "phase_ok p" and "fds_ok fds0 p" and "client_step p p'"
  shows "fds_ok fds0 p'"
  using assms(3)
proof cases
  case (connect fd calls c fds segs response)
  have "fds = insert fd (open_fds p)" "c = fd"
    using connect(2,4,5) phase_sockets(2) [OF assms(1)] fds_ok_open(2) [OF assms(2)] performs_accept [OF connect(4), of p fds]
    by (auto simp: accept_turn_def split: if_splits)
  then show ?thesis
    using assms(2) connect(1,3) client_program_ok by (auto simp: fds_ok_def sockets_def open_conns_def)
next
  case (client_call i c call rest fds)
  have ok: "program_ok c (Sys call # rest)"
    by (rule client_ok [OF assms(2) client_call(2,3)])
  obtain xs ys where xy: "open_conns p = xs @ c # ys"
    "open_conns (p\<lparr>clients := (clients p)[i := (c, rest)]\<rparr>) = xs @ (if rest = [] then [] else [c]) @ ys"
    using open_conns_update [OF client_call(2,3)] by blast
  have "c \<in> open_fds p" using assms(2) xy(1) by (simp add: fds_ok_def)
  then have "fds = (if rest = [] then open_fds p - {c} else open_fds p)"
    using client_call(4) program_ok_step [OF ok] by (auto simp: performs_def)
  moreover have "sockets p' = sockets p" "open_conns p' = xs @ (if rest = [] then [] else [c]) @ ys"
    unfolding xy(2) [symmetric] by (simp_all add: client_call(1) sockets_def open_conns_def)
  moreover have "clients p' = (clients p)[i := (c, rest)]" "open_fds p' = fds" by (simp_all add: client_call(1))
  moreover have "list_all (\<lambda>(c, prog). program_ok c prog) ((clients p)[i := (c, rest)])"
    using assms(2) program_ok_step(1) [OF ok] by (simp add: fds_ok_def clients_ok_update)
  ultimately show ?thesis
    using assms(2) owned_removed [of "sockets p" xs c ys fds0 "open_fds p"]
    by (cases "rest = []") (simp_all add: fds_ok_def xy(1))
next
  case client_lock
  then show ?thesis by (intro fds_ok_cong [OF assms(2)]) (simp_all add: sockets_def)
next
  case (client_handler i c request rest)
  have ok: "program_ok c (Call_handler request # rest)"
    by (rule client_ok [OF assms(2) client_handler(2,3)])
  obtain xs ys where xy: "open_conns p = xs @ c # ys" "open_conns p' = xs @ (if rest = [] then [] else [c]) @ ys"
    using open_conns_update [OF client_handler(2,3), of rest] client_handler(1) by blast
  moreover have "sockets p' = sockets p" using client_handler(1) by (simp add: sockets_def)
  moreover have "clients p' = (clients p)[i := (c, rest)]" "open_fds p' = open_fds p" by (simp_all add: client_handler(1))
  moreover have "rest \<noteq> []" "list_all (\<lambda>(c, prog). program_ok c prog) ((clients p)[i := (c, rest)])"
    using assms(2) ok by (simp_all add: fds_ok_def clients_ok_update)
  ultimately show ?thesis using assms(2) by (simp add: fds_ok_def)
qed

lemma fds_ok_quiet:
  assumes "phase_ok p" and "fds_ok fds0 p" and "quiet_step p p'"
  shows "fds_ok fds0 p'"
  using assms(3)
proof cases
  case signal
  then show ?thesis by (intro fds_ok_cong [OF assms(2)]) (simp_all add: sockets_def)
next
  case leaving
  then show ?thesis by cases (intro fds_ok_cong [OF assms(2)], simp_all add: sockets_def)
qed (use assms(1,2) fds_ok_main fds_ok_worker in blast)+

lemma fds_ok_step: "phase_ok p \<Longrightarrow> fds_ok fds0 p \<Longrightarrow> process_step p p' \<Longrightarrow> fds_ok fds0 p'"
  by (erule process_step.cases) (auto intro: fds_ok_quiet fds_ok_network fds_ok_client)

lemma loaded_ok: "phase_ok (loaded fds0)" "fds_ok fds0 (loaded fds0)"
  by (simp_all add: loaded_def phase_ok_def living_def fds_ok_def sockets_def open_conns_def)

lemma process_run_ok:
  assumes "process_run fds0 p" shows "phase_ok p" and "fds_ok fds0 p"
proof -
  have "phase_ok p \<and> fds_ok fds0 p"
    using assms by induction (use loaded_ok phase_ok_step fds_ok_step in blast)+
  then show "phase_ok p" and "fds_ok fds0 p" by simp_all
qed

end
