(* ===== verification/Lifecycle_Props.thy ===== *)
theory Lifecycle_Props
  imports Lifecycle
begin

text \<open>
  What the life of a process guarantees: the threads that \<^verbatim>\<open>main\<close> joins never touch what is
  destroyed or closed, no descriptor is used after it is closed or leaked, and the process can always
  be shut down. It does not wait for its connections, whose threads are detached: one that is slow
  finds the book, the engine and the server gone.
\<close>

section \<open>A run\<close>

text \<open>A process after its constructors, and one that has taken a connection and read its request.\<close>

lemma main_run: "process_run fds0 p \<Longrightarrow> main_step p q \<Longrightarrow> process_run fds0 q"
  by (blast intro: process_run.step process_step.quiet quiet_step.main)

lemma worker_run: "process_run fds0 p \<Longrightarrow> worker_step p q \<Longrightarrow> process_run fds0 q"
  by (blast intro: process_run.step process_step.quiet quiet_step.worker)

lemma sample_start:
  obtains p where "process_run {0, 1, 2} p" "pc p = Start_engine" "open_fds p = insert 4 (insert 3 {0, 1, 2})"
    "clients p = []" "server p = \<lparr>server_fd = 4, tcp_port_no = 8000\<rparr>"
proof -
  let ?F = "{0, 1, 2 :: int}"
  define t where "t = \<lparr>sockfd = 3, udp_port_no = 7000\<rparr>"
  define srv where "srv = \<lparr>server_fd = 4, tcp_port_no = 8000\<rparr>"
  have udp: "udp_open 3 0 ''0.0.0.0'' 7000 = (fst (udp_open 3 0 ''0.0.0.0'' 7000), Inr t)"
    and tcp: "tcp_open 4 0 0 ''0.0.0.0'' 8000 = (fst (tcp_open 4 0 0 ''0.0.0.0'' 8000), Inr srv)"
    by (simp_all add: udp_open_def tcp_open_def Let_def t_def srv_def)
  obtain p1 where p1: "process_run ?F p1" "pc p1 = Boot_server" "open_fds p1 = insert 3 ?F" "clients p1 = []"
    by (rule that [OF main_run [OF process_run.init main_step.udp_made [OF _ _ udp]]])
       (auto simp: loaded_def performs_udp_open [OF udp] t_def)
  show thesis
    by (rule that [OF main_run [OF p1(1) main_step.tcp_made [OF p1(2) _ tcp]]])
       (auto simp: p1 performs_tcp_open [OF tcp] srv_def)
qed

lemma sample_run:
  obtains p rest where "process_run {0, 1, 2} p" "pc p = Running" "up (gossip_thread p)"
    "clients p = [(5, Call_handler ''STATUS'' # rest)]"
proof -
  let ?F = "{0, 1, 2 :: int}" and ?line = "''STATUS'' @ [nl]"
  define srv where "srv = \<lparr>server_fd = 4, tcp_port_no = 8000\<rparr>"
  obtain p2 where p2: "process_run ?F p2" "pc p2 = Start_engine" "open_fds p2 = insert 4 (insert 3 ?F)"
    "clients p2 = []" "server p2 = srv"
    by (rule sample_start) (auto simp: srv_def)
  have p3: "process_run ?F ((engine_start_gossip p2)\<lparr>pc := Start_receiver\<rparr>)" (is "process_run ?F ?p3")
    by (rule main_run [OF p2(1) main_step.start_gossip [OF p2(2)]])
  have p4: "process_run ?F ((engine_start_receive ?p3)\<lparr>pc := Start_server\<rparr>)" (is "process_run ?F ?p4")
    by (rule main_run [OF p3 main_step.start_receive]) simp
  have p5: "process_run ?F ((server_start ?p4)\<lparr>pc := Running\<rparr>)" (is "process_run ?F ?p5")
    by (rule main_run [OF p4 main_step.start_accept]) simp
  have "worker_step ?p5 (?p5\<lparr>accept_thread := tested (server_running ?p5)\<rparr>)"
    by (rule worker_step.accept_test) simp
  then have p6: "process_run ?F (?p5\<lparr>accept_thread := Working\<rparr>)" (is "process_run ?F ?p6")
    by (intro worker_run [OF p5]) (simp add: tested_def)
  have acc: "accept_turn srv 5 = (fst (accept_turn srv 5), Some 5)" by (simp add: accept_turn_def)
  let ?p7 = "?p6\<lparr>accept_thread := Testing, open_fds := insert 5 (open_fds ?p6),
      waits := fold waiting_after (fst (accept_turn srv 5)) (waits ?p6),
      clients := clients ?p6 @ [(5, client_program 5 [?line] ''OK'')]\<rparr>"
  have p7: "process_run ?F ?p7"
    by (rule process_run.step [OF p6 process_step.client [OF client_step.connect [OF _ _ _ _]]])
       (use acc in \<open>simp_all add: p2 performs_def\<close>, simp_all add: accept_turn_def srv_def)
  have prog: "client_program 5 [?line] ''OK'' =
      Sys (Recv 5 4096 ?line) # Call_handler ''STATUS'' # [Sys (Send 5 (''OK'' @ [nl])), Sys (Close 5)]"
    by code_simp
  let ?p8 = "?p7\<lparr>clients := (clients ?p7)[0 := (5, Call_handler ''STATUS'' # [Sys (Send 5 (''OK'' @ [nl])), Sys (Close 5)])],
      open_fds := open_fds ?p7, waits := waiting_after (Recv 5 4096 ?line) (waits ?p7)\<rparr>"
  have p8: "process_run ?F ?p8"
    by (rule process_run.step [OF p7 process_step.client [OF client_step.client_call [where call = "Recv 5 4096 ?line"]]])
       (simp_all add: p2 prog [simplified] performs_def)
  then show thesis by (rule that) (simp_all add: p2)
qed

section \<open>What threads touch\<close>

text \<open>C12: the threads that are joined are safe: in every reachable state of the process, as long as
  the gossip or the receiving thread runs, the book, the engine and the transport are alive and
  its socket is open, and as long as the accepting thread runs, so is the server; whatever such a
  thread is about to send, receive or accept, its calls are on an open descriptor and leave the
  others alone.\<close>
theorem joined_threads_safe:
  assumes "process_run fds0 p"
  shows "(up (gossip_thread p) \<or> up (receive_thread p) \<longrightarrow>
      {Book, Udp, Engine} \<subseteq> alive p \<and> performs (concat (map (use_calls dns sendto (transport p)) us)) p (open_fds p)) \<and>
    (up (accept_thread p) \<longrightarrow>
      Server \<in> alive p \<and> (\<exists>fds. performs (fst (accept_turn (server p) r)) p fds \<and> open_fds p \<subseteq> fds))"
proof -
  note ph = process_run_ok(1) [OF assms] and fd = process_run_ok(2) [OF assms]
  have "performs (concat (map (use_calls dns sendto (transport p)) us)) p (open_fds p)" if "Udp \<in> alive p"
    using fds_ok_open(1) [OF fd that] performs_uses [of "transport p" p] by blast
  moreover have "\<exists>fds. performs (fst (accept_turn (server p) r)) p fds \<and> open_fds p \<subseteq> fds" if "Server \<in> alive p"
    using fds_ok_open(2) [OF fd that] performs_accept [of "server p" r "fst (accept_turn (server p) r)" "snd (accept_turn (server p) r)" p]
    by (auto split: option.split)
  ultimately show ?thesis using phase_sockets [OF ph] by blast
qed

theorem joined_threads_safe_witness:
  "\<exists>p. process_run {0, 1, 2} p \<and> pc p = Running \<and> Engine \<in> alive p \<and>
    performs (concat (map (use_calls (\<lambda>_. None) (\<lambda>_ _. 0) (transport p)) [Use_send ''b'' 7000 [1]])) p (open_fds p)"
proof -
  obtain p rest where p: "process_run {0, 1, 2} p" "pc p = Running" "up (gossip_thread p)" by (rule sample_run)
  then show ?thesis
    using joined_threads_safe [OF p(1), of "\<lambda>_. None" "\<lambda>_ _. 0" "[Use_send ''b'' 7000 [1]]" 0] by blast
qed

text \<open>A connection's descriptor is its own: it is open until the connection's thread has closed
  it, every call of that thread is on it, and no two threads have the same one or one of the
  sockets.\<close>
theorem connections_own_descriptor:
  assumes "process_run fds0 p" and "i < length (clients p)" and "clients p ! i = (c, act # rest)"
  shows "c \<in> open_fds p \<and> c \<notin> fds0 \<and> (Server \<in> alive p \<longrightarrow> c \<noteq> server_fd (server p)) \<and>
    (Udp \<in> alive p \<longrightarrow> c \<noteq> sockfd (transport p)) \<and>
    (\<forall>j < length (clients p). j \<noteq> i \<and> snd (clients p ! j) \<noteq> [] \<longrightarrow> fst (clients p ! j) \<noteq> c) \<and>
    (\<forall>call. act = Sys call \<longrightarrow> (\<exists>fds. performs [call] p fds \<and> open_fds p - {c} \<subseteq> fds))"
proof -
  note fd = process_run_ok(2) [OF assms(1)]
  have mem: "(c, act # rest) \<in> set (clients p)" using assms(2,3) by (metis nth_mem)
  then have op: "c \<in> open_fds p" using fds_ok_open(3) [OF fd] by blast
  have conn: "c \<in> set (open_conns p)" using mem by (force simp: open_conns_def)
  then have own: "c \<notin> fds0" "c \<notin> set (sockets p)" using fd by (auto simp: fds_ok_def)
  have "fst (clients p ! j) \<noteq> c" if j: "j < length (clients p)" "j \<noteq> i" "snd (clients p ! j) \<noteq> []" for j
  proof -
    obtain xs ys where xy: "open_conns p = xs @ c # ys"
      "open_conns (p\<lparr>clients := (clients p)[i := (c, [])]\<rparr>) = xs @ ys"
      using open_conns_update [OF assms(2,3) list.distinct(2), of "[]"] by auto
    have "clients p ! j \<in> set ((clients p)[i := (c, [])])"
      using j by (metis length_list_update nth_list_update_neq nth_mem)
    then have "fst (clients p ! j) \<in> set (open_conns (p\<lparr>clients := (clients p)[i := (c, [])]\<rparr>))"
      using j(3) by (force simp: open_conns_def)
    then have "fst (clients p ! j) \<in> set (xs @ ys)" by (simp only: xy(2))
    moreover have "c \<notin> set (xs @ ys)" using fd xy(1) by (auto simp: fds_ok_def)
    ultimately show ?thesis by metis
  qed
  moreover have "\<exists>fds. performs [call] p fds \<and> open_fds p - {c} \<subseteq> fds" if "act = Sys call" for call
    using program_ok_step(2) [of c call rest] client_ok [OF fd assms(2,3)] op that
    by (auto simp: performs_def)
  ultimately show ?thesis using op own by (auto simp: sockets_def)
qed

theorem connections_own_descriptor_witness:
  "\<exists>p. process_run {0, 1, 2} p \<and> 5 \<in> open_fds p \<and> server_fd (server p) \<noteq> 5 \<and> Server \<in> alive p"
proof -
  obtain p rest where p: "process_run {0, 1, 2} p" "pc p = Running"
    "clients p = [(5, Call_handler ''STATUS'' # rest)]" by (rule sample_run)
  have "Server \<in> alive p" using process_run_ok(1) [OF p(1)] p(2) by (simp add: phase_ok_def living_def)
  with connections_own_descriptor [OF p(1), of 0 5 "Call_handler ''STATUS''" rest] p show ?thesis by auto
qed

section \<open>Shutting down\<close>

text \<open>A state from which the main thread gets out by itself, with its connections as they were.\<close>

definition can_exit :: "process \<Rightarrow> bool" where
  "can_exit p \<longleftrightarrow> (\<exists>p'. quiet_step\<^sup>*\<^sup>* p p' \<and> pc p' = Exited \<and> clients p' = clients p)"

lemma can_exit_steps: "quiet_step\<^sup>*\<^sup>* p q \<Longrightarrow> clients q = clients p \<Longrightarrow> can_exit q \<Longrightarrow> can_exit p"
  by (auto simp: can_exit_def intro: rtranclp_trans)

lemmas can_exit_step = can_exit_steps [OF r_into_rtranclp]
lemmas by_main = can_exit_step [OF quiet_step.main]
lemmas by_worker = can_exit_step [OF quiet_step.worker]

lemma quiet_run: "process_run fds0 p \<Longrightarrow> quiet_step\<^sup>*\<^sup>* p q \<Longrightarrow> process_run fds0 q"
  by (rotate_tac, induction rule: rtranclp_induct) (auto intro: process_run.step process_step.quiet)

text \<open>Connections leave the mutexes they are inside of.\<close>

lemma mutexes_left:
  assumes "{Book, Engine, Server} \<subseteq> alive p"
  shows "quiet_step\<^sup>*\<^sup>* p (p\<lparr>owner := \<lambda>_. None\<rparr>)"
proof -
  have leave: "quiet_step\<^sup>*\<^sup>* q (q\<lparr>owner := (owner q)(m := None)\<rparr>)" if "{Book, Engine, Server} \<subseteq> alive q" for q m
  proof (cases "owner q m")
    case None
    then have "(owner q)(m := None) = owner q" by (simp add: fun_upd_idem)
    then show ?thesis by simp
  next
    case (Some i)
    then show ?thesis using that by (blast intro: quiet_step.leaving unlock_step.unlock)
  qed
  let ?q = "p\<lparr>owner := (owner p)(Crdt_mutex := None)\<rparr>"
  have "quiet_step\<^sup>*\<^sup>* p (?q\<lparr>owner := (owner ?q)(Peers_mutex := None)\<rparr>)"
    using leave [of p Crdt_mutex] leave [of ?q Peers_mutex] assms by simp
  moreover have "(owner ?q)(Peers_mutex := None) = (\<lambda>_. None)"
  proof
    fix m show "((owner ?q)(Peers_mutex := None)) m = None" by (cases m) simp_all
  qed
  ultimately show ?thesis by simp
qed

lemma exit_drops:
  assumes "process_run fds0 p"
  shows "pc p = Drop_book \<Longrightarrow> can_exit p" "pc p = Drop_udp \<Longrightarrow> can_exit p" "pc p = Drop_engine \<Longrightarrow> can_exit p"
    "pc p = Drop_server \<Longrightarrow> can_exit p"
proof -
  have b: "can_exit q" if "pc q = Drop_book" for q
    by (rule by_main [OF main_step.drop_book [OF that]]) (auto simp: can_exit_def)
  have u: "can_exit q" if "pc q = Drop_udp" "performs (udp_close (transport q)) q fds" for q fds
    by (rule by_main [OF main_step.drop_udp [OF that]]) (simp_all add: b)
  have e: "can_exit q" if "pc q = Drop_engine" "performs (udp_close (transport q)) q fds" for q fds
    by (rule by_main [OF main_step.drop_engine [OF that(1)]]) (use that(2) in \<open>simp_all add: u performs_def\<close>)
  note ph = process_run_ok(1) [OF assms] and fd = process_run_ok(2) [OF assms]
  have udp: "\<exists>fds. performs (udp_close (transport q)) q fds" if "process_run fds0 q" "Udp \<in> alive q" for q
    using fds_ok_open(1) [OF process_run_ok(2) [OF that(1)] that(2)] performs_udp_close [of "transport q" q] by blast
  show "pc p = Drop_book \<Longrightarrow> can_exit p" by (rule b)
  show "can_exit p" if "pc p = Drop_udp"
    using u [OF that] udp [OF assms] ph that by (auto simp: phase_ok_def living_def)
  show "can_exit p" if "pc p = Drop_engine"
    using e [OF that] udp [OF assms] ph that by (auto simp: phase_ok_def living_def)
  show "can_exit p" if c: "pc p = Drop_server"
  proof -
    have al: "Server \<in> alive p" "Udp \<in> alive p" using ph c by (auto simp: phase_ok_def living_def)
    obtain fds where f: "performs (tcp_close (server p)) p fds"
      using fds_ok_open(2) [OF fd al(1)] performs_tcp_close [of "server p" p] by blast
    let ?q = "p\<lparr>pc := Drop_engine, open_fds := fds,
      waits := fold waiting_after (tcp_close (server p)) (waits p), alive := alive p - {Server}\<rparr>"
    have s: "main_step p ?q" by (rule main_step.drop_server [OF c f])
    have "process_run fds0 ?q" by (rule main_run [OF assms s])
    with udp [OF this] al(2) e [of ?q] have "can_exit ?q" by auto
    then show ?thesis by (rule by_main [OF s, rotated]) simp
  qed
qed

text \<open>What joining a thread needs of it, once its flag is cleared and nothing comes from outside any
  more: it ends the turn it is in, sees the flag and ends, and then the join returns.\<close>

locale joined_thread =
  fixes joining :: main_pc and after :: main_pc and state :: "process \<Rightarrow> thread"
  assumes turn: "process_run fds0 p \<Longrightarrow> pc p = joining \<Longrightarrow> state p = Working \<or> state p = Handling \<Longrightarrow>
      \<exists>q. quiet_step\<^sup>*\<^sup>* p q \<and> pc q = joining \<and> state q = Testing \<and> clients q = clients p"
    and test: "process_run fds0 p \<Longrightarrow> pc p = joining \<Longrightarrow> state p = Testing \<Longrightarrow>
      \<exists>q. worker_step p q \<and> pc q = joining \<and> state q = Ended \<and> clients q = clients p"
    and join: "pc p = joining \<Longrightarrow> state p = Ended \<Longrightarrow> \<exists>q. main_step p q \<and> pc q = after \<and> clients q = clients p"
    and born: "process_run fds0 p \<Longrightarrow> pc p = joining \<Longrightarrow> state p \<noteq> Unborn"
begin

lemma exit_ended:
  assumes "process_run fds0 p" and "pc p = joining" and "state p = Ended"
    and "\<And>q. process_run fds0 q \<Longrightarrow> pc q = after \<Longrightarrow> can_exit q"
  shows "can_exit p"
proof -
  obtain q where q: "main_step p q" "pc q = after" "clients q = clients p" using join [OF assms(2,3)] by blast
  have "can_exit q" by (rule assms(4) [OF main_run [OF assms(1) q(1)] q(2)])
  then show ?thesis by (rule by_main [OF q(1,3)])
qed

lemma exit_testing:
  assumes "process_run fds0 p" and "pc p = joining" and "state p = Testing"
    and "\<And>q. process_run fds0 q \<Longrightarrow> pc q = after \<Longrightarrow> can_exit q"
  shows "can_exit p"
proof -
  obtain q where q: "worker_step p q" "pc q = joining" "state q = Ended" "clients q = clients p"
    using test [OF assms(1-3)] by blast
  have "can_exit q" by (rule exit_ended [OF worker_run [OF assms(1) q(1)] q(2,3) assms(4)])
  then show ?thesis by (rule by_worker [OF q(1,4)])
qed

lemma exit_join:
  assumes "process_run fds0 p" and "pc p = joining"
    and "\<And>q. process_run fds0 q \<Longrightarrow> pc q = after \<Longrightarrow> can_exit q"
  shows "can_exit p"
proof (cases "state p = Working \<or> state p = Handling")
  case True
  obtain q where q: "quiet_step\<^sup>*\<^sup>* p q" "pc q = joining" "state q = Testing" "clients q = clients p"
    using turn [OF assms(1,2) True] by blast
  have "can_exit q" by (rule exit_testing [OF quiet_run [OF assms(1) q(1)] q(2,3) assms(3)])
  then show ?thesis by (rule can_exit_steps [OF q(1,4)])
next
  case False
  then consider "state p = Testing" | "state p = Ended" using born [OF assms(1,2)] by (cases "state p") auto
  then show ?thesis using exit_ended [OF assms(1,2) _ assms(3)] exit_testing [OF assms(1,2) _ assms(3)] by cases
qed

end

lemma phase_flags:
  assumes "process_run fds0 p"
  shows "pc p = Join_gossip \<or> pc p = Join_receiver \<Longrightarrow> \<not> engine_running p" "pc p = Join_accept \<Longrightarrow> \<not> server_running p"
    "pc p = Join_gossip \<Longrightarrow> gossip_thread p \<noteq> Unborn" "pc p = Join_receiver \<Longrightarrow> receive_thread p \<noteq> Unborn"
    "pc p = Join_accept \<Longrightarrow> accept_thread p \<noteq> Unborn"
  using process_run_ok(1) [OF assms] by (elim disjE, simp_all add: phase_ok_def)

text \<open>The turns that no thread needs anything from outside for: with the timeouts they set themselves,
  receiving and accepting come back from an idle socket; the others need the mutexes.\<close>

lemma idle_turns:
  assumes "process_run fds0 p"
  shows "receive_thread p = Working \<Longrightarrow> \<exists>q. worker_step p q \<and> pc q = pc p \<and> receive_thread q = Testing \<and> clients q = clients p"
    "accept_thread p = Working \<Longrightarrow> \<exists>q. worker_step p q \<and> pc q = pc p \<and> accept_thread q = Testing \<and> clients q = clients p"
proof -
  note ph = process_run_ok(1) [OF assms] and fd = process_run_ok(2) [OF assms]
  show "\<exists>q. worker_step p q \<and> pc q = pc p \<and> receive_thread q = Testing \<and> clients q = clients p" if "receive_thread p = Working"
  proof -
    let ?calls = "fst (recv_from (transport p) [] 0 500 Timeout)"
    have "performs ?calls p (open_fds p)" using performs_turn(2) [OF ph fd] that by simp
    moreover have "calls_return ?calls (waits p)" by (simp add: recv_from_def Let_def)
    ultimately show ?thesis using worker_step.receive_none [OF that refl] by fastforce
  qed
  show "\<exists>q. worker_step p q \<and> pc q = pc p \<and> accept_thread q = Testing \<and> clients q = clients p" if "accept_thread p = Working"
  proof -
    have acc: "accept_turn (server p) (- 1) = (fst (accept_turn (server p) (- 1)), None)" by (simp add: accept_turn_def)
    have "server_fd (server p) \<in> open_fds p" using phase_sockets(2) [OF ph] fds_ok_open(2) [OF fd] that by blast
    then have "performs (fst (accept_turn (server p) (- 1))) p (open_fds p)" by (simp add: accept_turn_def performs_def)
    moreover have "calls_return (fst (accept_turn (server p) (- 1))) (waits p)" by (simp add: accept_turn_def)
    ultimately show ?thesis using worker_step.accept_none [OF that acc] by fastforce
  qed
qed

lemma silent_sends: "performs (concat (map (use_calls dns sendto t) (sends []))) p (open_fds p)"
  by (simp add: performs_def sends_def)

lemma free_turns:
  assumes "mutexes_free p"
  shows "gossip_thread p = Working \<Longrightarrow> \<exists>q. worker_step p q \<and> pc q = pc p \<and> gossip_thread q = Testing \<and> clients q = clients p"
    "receive_thread p = Handling \<Longrightarrow> \<exists>q. worker_step p q \<and> pc q = pc p \<and> receive_thread q = Testing \<and> clients q = clients p"
  using worker_step.gossip_turn [OF _ assms silent_sends] worker_step.receive_handle [OF _ assms silent_sends] by fastforce+

lemma tests:
  "gossip_thread p = Testing \<Longrightarrow> \<exists>q. worker_step p q \<and> pc q = pc p \<and> gossip_thread q = tested (engine_running p) \<and> clients q = clients p"
  "receive_thread p = Testing \<Longrightarrow> \<exists>q. worker_step p q \<and> pc q = pc p \<and> receive_thread q = tested (engine_running p) \<and> clients q = clients p"
  "accept_thread p = Testing \<Longrightarrow> \<exists>q. worker_step p q \<and> pc q = pc p \<and> accept_thread q = tested (server_running p) \<and> clients q = clients p"
  using worker_step.gossip_test worker_step.receive_test worker_step.accept_test by fastforce+

lemma mutexes_leave_joins:
  assumes "process_run fds0 p" and "pc p \<in> {Join_gossip, Join_receiver}"
  obtains q where "quiet_step\<^sup>*\<^sup>* p q" "mutexes_free q" "q = p\<lparr>owner := \<lambda>_. None\<rparr>"
proof -
  have "alive p = living (pc p) \<or> (\<exists>e. pc p = Terminated e)"
    using process_run_ok(1) [OF assms(1)] unfolding phase_ok_def by blast
  then have "{Book, Engine, Server} \<subseteq> alive p" using assms(2) by (elim insertE emptyE) (simp_all add: living_def)
  then show ?thesis by (intro that [OF mutexes_left _ refl]) (simp_all add: mutexes_free_def)
qed

lemma after_leaving:
  assumes "quiet_step\<^sup>*\<^sup>* p (p\<lparr>owner := \<lambda>_. None\<rparr>)" and "worker_step (p\<lparr>owner := \<lambda>_. None\<rparr>) q"
  shows "quiet_step\<^sup>*\<^sup>* p q"
  using assms by (meson quiet_step.worker rtranclp.rtrancl_into_rtrancl)

interpretation gossip_join: joined_thread Join_gossip Join_receiver gossip_thread
proof
  fix fds0 p
  show "\<exists>q. quiet_step\<^sup>*\<^sup>* p q \<and> pc q = Join_gossip \<and> gossip_thread q = Testing \<and> clients q = clients p"
    if p: "process_run fds0 p" "pc p = Join_gossip" "gossip_thread p = Working \<or> gossip_thread p = Handling"
  proof -
    have "gossip_thread p = Working" using process_run_ok(1) [OF p(1)] p(3) by (auto simp: phase_ok_def)
    moreover obtain r where "quiet_step\<^sup>*\<^sup>* p r" "mutexes_free r" "r = p\<lparr>owner := \<lambda>_. None\<rparr>"
      using mutexes_leave_joins [OF p(1)] p(2) by blast
    ultimately show ?thesis using free_turns(1) [of r] after_leaving [of p] p(2) by fastforce
  qed
  show "\<exists>q. worker_step p q \<and> pc q = Join_gossip \<and> gossip_thread q = Ended \<and> clients q = clients p"
    if "process_run fds0 p" "pc p = Join_gossip" "gossip_thread p = Testing"
    using tests(1) [OF that(3)] phase_flags(1) [OF that(1)] that(2) by (simp add: tested_def)
  show "\<exists>q. main_step p q \<and> pc q = Join_receiver \<and> clients q = clients p" if "pc p = Join_gossip" "gossip_thread p = Ended"
    using main_step.join_gossip [OF that] by fastforce
qed (use phase_flags in blast)

interpretation receive_join: joined_thread Join_receiver Stop_server receive_thread
proof
  fix fds0 p
  show "\<exists>q. quiet_step\<^sup>*\<^sup>* p q \<and> pc q = Join_receiver \<and> receive_thread q = Testing \<and> clients q = clients p"
    if p: "process_run fds0 p" "pc p = Join_receiver" "receive_thread p = Working \<or> receive_thread p = Handling"
  proof (cases "receive_thread p = Working")
    case True
    then show ?thesis using idle_turns(1) [OF p(1)] p(2) by (metis quiet_step.worker r_into_rtranclp)
  next
    case False
    obtain r where "quiet_step\<^sup>*\<^sup>* p r" "mutexes_free r" "r = p\<lparr>owner := \<lambda>_. None\<rparr>"
      using mutexes_leave_joins [OF p(1)] p(2) by blast
    then show ?thesis using free_turns(2) [of r] after_leaving [of p] p(2,3) False by fastforce
  qed
  show "\<exists>q. worker_step p q \<and> pc q = Join_receiver \<and> receive_thread q = Ended \<and> clients q = clients p"
    if "process_run fds0 p" "pc p = Join_receiver" "receive_thread p = Testing"
    using tests(2) [OF that(3)] phase_flags(1) [OF that(1)] that(2) by (simp add: tested_def)
  show "\<exists>q. main_step p q \<and> pc q = Stop_server \<and> clients q = clients p" if "pc p = Join_receiver" "receive_thread p = Ended"
    using main_step.join_receive [OF that] by fastforce
qed (use phase_flags in blast)

interpretation accept_join: joined_thread Join_accept Drop_server accept_thread
proof
  fix fds0 p
  show "\<exists>q. quiet_step\<^sup>*\<^sup>* p q \<and> pc q = Join_accept \<and> accept_thread q = Testing \<and> clients q = clients p"
    if p: "process_run fds0 p" "pc p = Join_accept" "accept_thread p = Working \<or> accept_thread p = Handling"
  proof -
    have "accept_thread p = Working" using process_run_ok(1) [OF p(1)] p(3) by (auto simp: phase_ok_def)
    then show ?thesis using idle_turns(2) [OF p(1)] p(2) by (metis quiet_step.worker r_into_rtranclp)
  qed
  show "\<exists>q. worker_step p q \<and> pc q = Join_accept \<and> accept_thread q = Ended \<and> clients q = clients p"
    if "process_run fds0 p" "pc p = Join_accept" "accept_thread p = Testing"
    using tests(3) [OF that(3)] phase_flags(2) [OF that(1)] that(2) by (simp add: tested_def)
  show "\<exists>q. main_step p q \<and> pc q = Drop_server \<and> clients q = clients p" if "pc p = Join_accept" "accept_thread p = Ended"
    using main_step.join_accept [OF that] by fastforce
qed (use phase_flags in blast)

lemma exit_join_accept: "process_run fds0 p \<Longrightarrow> pc p = Join_accept \<Longrightarrow> can_exit p"
  using accept_join.exit_join exit_drops(4) by blast

lemma exit_stop_server:
  assumes "process_run fds0 p" and "pc p = Stop_server" shows "can_exit p"
proof -
  have "Server \<in> alive p" using process_run_ok(1) [OF assms(1)] assms(2) by (simp add: phase_ok_def living_def)
  then have "performs (tcp_stop (server p)) p (open_fds p)"
    using fds_ok_open(2) [OF process_run_ok(2) [OF assms(1)]] performs_tcp_stop by blast
  then have s: "main_step p (p\<lparr>pc := Join_accept, server_running := False, open_fds := open_fds p,
      waits := fold waiting_after (tcp_stop (server p)) (waits p)\<rparr>)"
    by (rule main_step.stop_server [OF assms(2)])
  show ?thesis
    by (intro by_main [OF s] exit_join_accept [OF main_run [OF assms(1) s]]) simp_all
qed

lemma exit_join_receiver: "process_run fds0 p \<Longrightarrow> pc p = Join_receiver \<Longrightarrow> can_exit p"
  using receive_join.exit_join exit_stop_server by blast

lemma exit_join_gossip: "process_run fds0 p \<Longrightarrow> pc p = Join_gossip \<Longrightarrow> can_exit p"
  using gossip_join.exit_join exit_join_receiver by blast

lemma exit_from_start:
  assumes "process_run fds0 p"
  shows "pc p = Stop_engine \<Longrightarrow> can_exit p" "pc p = Running \<Longrightarrow> can_exit p" "pc p = Start_server \<Longrightarrow> can_exit p"
    "pc p = Start_receiver \<Longrightarrow> can_exit p" "pc p = Start_engine \<Longrightarrow> can_exit p"
proof -
  have next_pc: "can_exit q" if "process_run fds0 q" "main_step q q'" "clients q' = clients q"
      "process_run fds0 q' \<Longrightarrow> can_exit q'" for q q'
    using that by (blast intro: by_main main_run)
  have a: "can_exit q" if "process_run fds0 q" "pc q = Stop_engine" for q
    by (rule next_pc [OF that(1) main_step.stop_engine [OF that(2)]]) (auto intro: exit_join_gossip)
  have b: "can_exit q" if "process_run fds0 q" "pc q = Running" for q
  proof -
    let ?q = "signal_handler q"
    have r: "process_run fds0 ?q" by (intro process_run.step [OF that(1)] process_step.quiet quiet_step.signal)
    have "can_exit ?q"
      by (rule next_pc [OF r main_step.leave]) (simp_all add: that(2) a)
    then show ?thesis by (rule can_exit_step [OF quiet_step.signal, rotated]) simp
  qed
  have c: "can_exit q" if "process_run fds0 q" "pc q = Start_server" for q
    by (rule next_pc [OF that(1) main_step.start_accept [OF that(2)]]) (auto intro: b)
  have d: "can_exit q" if "process_run fds0 q" "pc q = Start_receiver" for q
    by (rule next_pc [OF that(1) main_step.start_receive [OF that(2)]]) (auto intro: c)
  have e: "can_exit q" if "process_run fds0 q" "pc q = Start_engine" for q
    by (rule next_pc [OF that(1) main_step.start_gossip [OF that(2)]]) (auto intro: d)
  show "pc p = Stop_engine \<Longrightarrow> can_exit p" "pc p = Running \<Longrightarrow> can_exit p" "pc p = Start_server \<Longrightarrow> can_exit p"
    "pc p = Start_receiver \<Longrightarrow> can_exit p" "pc p = Start_engine \<Longrightarrow> can_exit p"
    using a b c d e assms by blast+
qed

lemma exit_reachable:
  assumes "process_run fds0 p" and "pc p \<noteq> Boot" and "pc p \<noteq> Boot_server" and "\<forall>e. pc p \<noteq> Terminated e"
  shows "can_exit p"
proof (cases "pc p")
  case Exited
  then show ?thesis by (auto simp: can_exit_def)
qed (use assms(2-4) exit_from_start [OF assms(1)] exit_join_gossip [OF assms(1)] exit_join_receiver [OF assms(1)]
    exit_stop_server [OF assms(1)] exit_join_accept [OF assms(1)] exit_drops [OF assms(1)] in simp_all)

lemma can_exit_dead:
  assumes "process_run fds0 p" and "can_exit p"
  obtains p' where "quiet_step\<^sup>*\<^sup>* p p'" "pc p' = Exited" "clients p' = clients p" "alive p' = {}" "process_run fds0 p'"
proof -
  obtain p' where p': "quiet_step\<^sup>*\<^sup>* p p'" "pc p' = Exited" "clients p' = clients p"
    using assms(2) by (auto simp: can_exit_def)
  have r: "process_run fds0 p'" by (rule quiet_run [OF assms(1) p'(1)])
  then have "alive p' = {}" using process_run_ok(1) [OF r] p'(2) by (simp add: phase_ok_def living_def)
  with p' r show ?thesis by (intro that)
qed

lemma tested_up: "tested b \<noteq> Testing"
  by (simp add: tested_def)

lemma never_waits:
  assumes "process_run fds0 p"
  shows "up (accept_thread p) \<Longrightarrow> \<exists>q. worker_step p q \<and> accept_thread q \<noteq> accept_thread p"
    "up (receive_thread p) \<Longrightarrow> receive_thread p \<noteq> Handling \<or> mutexes_free p \<Longrightarrow> \<exists>q. worker_step p q \<and> receive_thread q \<noteq> receive_thread p"
    "up (gossip_thread p) \<Longrightarrow> mutexes_free p \<Longrightarrow> \<exists>q. worker_step p q \<and> gossip_thread q \<noteq> gossip_thread p"
proof -
  have no: "gossip_thread p \<noteq> Handling" "accept_thread p \<noteq> Handling"
    using process_run_ok(1) [OF assms] by (simp_all add: phase_ok_def)
  show "up (accept_thread p) \<Longrightarrow> \<exists>q. worker_step p q \<and> accept_thread q \<noteq> accept_thread p"
    using idle_turns(2) [OF assms] tests(3) [of p] tested_up no by (metis thread.distinct(5))
  show "up (receive_thread p) \<Longrightarrow> receive_thread p \<noteq> Handling \<or> mutexes_free p \<Longrightarrow> \<exists>q. worker_step p q \<and> receive_thread q \<noteq> receive_thread p"
    using idle_turns(1) [OF assms] free_turns(2) [of p] tests(2) [of p] tested_up by metis
  show "up (gossip_thread p) \<Longrightarrow> mutexes_free p \<Longrightarrow> \<exists>q. worker_step p q \<and> gossip_thread q \<noteq> gossip_thread p"
    using free_turns(1) [of p] tests(1) [of p] tested_up no by metis
qed

text \<open>C15: nothing leaks: when the process has left \<^verbatim>\<open>main\<close> and its connections have ended,
  the open descriptors are those it started with and every object is destroyed.\<close>
theorem no_descriptor_leak:
  assumes "process_run fds0 p" and "pc p = Exited" and "\<forall>(c, prog) \<in> set (clients p). prog = []"
  shows "open_fds p = fds0 \<and> alive p = {}"
proof -
  have "alive p = {}" using process_run_ok(1) [OF assms(1)] assms(2) by (simp add: phase_ok_def living_def)
  moreover have "open_conns p = []" using assms(3) by (auto simp: open_conns_def filter_empty_conv)
  ultimately show ?thesis using process_run_ok(2) [OF assms(1)] by (simp add: fds_ok_def sockets_def)
qed

theorem no_descriptor_leak_witness:
  "\<exists>p. process_run {0, 1, 2} p \<and> pc p = Exited \<and> open_fds p = {0, 1, 2}"
proof -
  obtain p where p: "process_run {0, 1, 2} p" "pc p = Start_engine" "clients p = []" by (rule sample_start)
  obtain p' where p': "process_run {0, 1, 2} p'" "pc p' = Exited" "clients p' = []"
    using can_exit_dead [OF p(1) exit_from_start(5) [OF p(1,2)]] p(3) by metis
  with no_descriptor_leak [OF p'(1,2)] show ?thesis by auto
qed

text \<open>C14: the process can always be shut down, and needs nobody for it: from every state it reaches
  after its constructors, whatever its threads and connections are doing, steps of its own threads
  after the signal end \<^verbatim>\<open>main\<close> with every object destroyed, without any datagram or connection
  coming in and with its connections doing no more than leave a mutex they are inside of. No thread
  that \<^verbatim>\<open>main\<close> joins waits for ever: the accepting thread can always go on, the receiving one
  unless it has a datagram to handle and a mutex is taken, the gossip thread when the mutexes are free.\<close>
theorem shutdown_always_possible:
  assumes "process_run fds0 p" and "pc p \<noteq> Boot" and "pc p \<noteq> Boot_server" and "\<forall>e. pc p \<noteq> Terminated e"
  shows "(\<exists>p'. quiet_step\<^sup>*\<^sup>* p p' \<and> pc p' = Exited \<and> alive p' = {} \<and> clients p' = clients p) \<and>
    (up (accept_thread p) \<longrightarrow> (\<exists>q. worker_step p q \<and> accept_thread q \<noteq> accept_thread p)) \<and>
    (up (receive_thread p) \<and> (receive_thread p \<noteq> Handling \<or> mutexes_free p) \<longrightarrow>
      (\<exists>q. worker_step p q \<and> receive_thread q \<noteq> receive_thread p)) \<and>
    (up (gossip_thread p) \<and> mutexes_free p \<longrightarrow> (\<exists>q. worker_step p q \<and> gossip_thread q \<noteq> gossip_thread p))"
proof -
  obtain p' where "quiet_step\<^sup>*\<^sup>* p p'" "pc p' = Exited" "clients p' = clients p" "alive p' = {}"
    by (rule can_exit_dead [OF assms(1) exit_reachable [OF assms]])
  then show ?thesis using never_waits [OF assms(1)] by blast
qed

theorem shutdown_always_possible_witness:
  "\<exists>p'. process_run {0, 1, 2} p' \<and> pc p' = Exited \<and> alive p' = {} \<and> clients p' \<noteq> []"
proof -
  obtain p rest where p: "process_run {0, 1, 2} p" "pc p = Running"
    "clients p = [(5, Call_handler ''STATUS'' # rest)]" by (rule sample_run)
  then obtain p' where p': "quiet_step\<^sup>*\<^sup>* p p'" "pc p' = Exited" "alive p' = {}" "clients p' = clients p"
    using shutdown_always_possible [OF p(1)] by auto
  then show ?thesis using quiet_run [OF p(1) p'(1)] p(3) by auto
qed

text \<open>C13: the detached thread of a connection can outlive everything it uses: whenever a connection is
  about to call the handler, the process can destroy the server that owns the handler, the engine
  and the book before the call is made; the call then works on destroyed objects.\<close>
theorem connection_outlives_book:
  assumes "process_run fds0 p" and "pc p = Running" and "i < length (clients p)"
    and "clients p ! i = (c, Call_handler request # rest)"
  shows "\<exists>p'. process_run fds0 p' \<and> process_step\<^sup>*\<^sup>* p p' \<and> i < length (clients p') \<and>
    clients p' ! i = (c, Call_handler request # rest) \<and> {Book, Engine, Server} \<inter> alive p' = {}"
proof -
  have "can_exit p" using exit_from_start(2) [OF assms(1,2)] .
  then obtain p' where p': "quiet_step\<^sup>*\<^sup>* p p'" "clients p' = clients p" "alive p' = {}" "process_run fds0 p'"
    by (rule can_exit_dead [OF assms(1)])
  have "process_step\<^sup>*\<^sup>* p p'" using p'(1) by (rule rtranclp_mono [THEN predicate2D, rotated]) (blast intro: process_step.quiet)
  with p' assms(3,4) show ?thesis by (intro exI [of _ p']) simp
qed

theorem connection_outlives_book_witness:
  "\<exists>p rest. process_run {0, 1, 2} p \<and> clients p ! 0 = (5, Call_handler ''STATUS'' # rest) \<and> Book \<notin> alive p"
proof -
  obtain p rest where p: "process_run {0, 1, 2} p" "pc p = Running"
    "clients p = [(5, Call_handler ''STATUS'' # rest)]" by (rule sample_run)
  from connection_outlives_book [OF p(1,2), of 0 5 "''STATUS''" rest] p(3) show ?thesis by auto
qed

end
