(* ===== verification/Unit_Tests.thy ===== *)
theory Unit_Tests
  imports CRDT_Props Message_Props Wythoff_Props Text_Format
begin

text \<open>
  The repository's unit tests (\<^verbatim>\<open>tests/*.cpp\<close>) on the model: one definition per test, the
  calls it makes in their order and the conjunction of what it asserts. That they all hold says that
  the definitions of the development compute what the tests expect of the code. Where a test
  leaves something open (generated ids, fields it never assigns), that is an argument. Left out is
  \<^verbatim>\<open>pair_coverage_uniformity\<close>, which counts the pairs of 10000 rounds; the rounds are counted by
  \<open>coverage_counts\<close> of \<open>Wythoff_Props\<close>.
\<close>

section \<open>The order book\<close>

definition test_order :: "string \<Rightarrow> side \<Rightarrow> double \<Rightarrow> int \<Rightarrow> u64 \<Rightarrow> order" where
  "test_order i sd p q ts =
     \<lparr>order_id = i, node_id = ''n1'', side = sd, price = p, quantity = q, remaining = q, timestamp = ts, is_cancelled = False\<rparr>"

definition add_orders :: "order list \<Rightarrow> order_book" where
  "add_orders os = fold (\<lambda>ord b. fst (add_order b ord)) os empty_book"

definition test_add_and_best_bid :: bool where
  "test_add_and_best_bid =
     (case get_best_bid (add_orders [test_order ''o1'' BUY 100 50 1]) of
        None \<Rightarrow> False | Some best \<Rightarrow> level_price best = 100 \<and> total_quantity best = 50)"

definition test_add_and_best_ask :: bool where
  "test_add_and_best_ask =
     (case get_best_ask (add_orders [test_order ''o1'' SELL 150 30 1]) of
        None \<Rightarrow> False | Some best \<Rightarrow> level_price best = 150 \<and> total_quantity best = 30)"

definition test_multiple_bids_sorted :: bool where
  "test_multiple_bids_sorted =
     (case get_best_bid (add_orders [test_order ''o1'' BUY 100 10 1, test_order ''o2'' BUY 105 20 2]) of
        None \<Rightarrow> False | Some best \<Rightarrow> level_price best = 105)"

definition test_cancel_order :: bool where
  "test_cancel_order =
     (let b = add_orders [test_order ''o1'' BUY 100 10 1];
          (b1, first) = cancel_order b ''o1'';
          (b2, again) = cancel_order b1 ''o1'';
          (b3, unknown) = cancel_order b2 ''nonexistent''
      in first \<and> get_best_bid b1 = None \<and> \<not> again \<and> \<not> unknown)"

definition test_match_market_buy :: bool where
  "test_match_market_buy =
     (let (b, fills) = match_market_order (add_orders [test_order ''a1'' SELL 100 50 1, test_order ''a2'' SELL 101 50 2]) BUY 70
      in map (\<lambda>f. (fill_price f, fill_quantity f)) fills = [(100, 50), (101, 20)] \<and>
         (case get_best_ask b of None \<Rightarrow> False | Some best \<Rightarrow> level_price best = 101 \<and> total_quantity best = 30))"

definition test_match_market_sell :: bool where
  "test_match_market_sell =
     (let (b, fills) = match_market_order (add_orders [test_order ''b1'' BUY 100 30 1, test_order ''b2'' BUY 99 30 2]) SELL 40
      in map (\<lambda>f. (fill_price f, fill_quantity f)) fills = [(100, 30), (99, 10)])"

definition test_snapshot :: bool where
  "test_snapshot =
     (let snap = get_snapshot (add_orders [test_order ''b1'' BUY 100 10 1, test_order ''a1'' SELL 101 20 2]) 5
      in map level_price (snap_bids snap) = [100] \<and> map level_price (snap_asks snap) = [101])"

definition test_has_order :: bool where
  "test_has_order =
     (let b = add_orders [test_order ''o1'' BUY 100 10 1] in has_order b ''o1'' \<and> \<not> has_order b ''o2'')"

definition test_replicated_insert :: bool where
  "test_replicated_insert =
     (let ord = test_order ''o1'' SELL 100 10 1;
          b = insert_replicated_order empty_book ord
      in has_order b ''o1'' \<and>
         (case get_best_ask (insert_replicated_order b ord) of None \<Rightarrow> False | Some best \<Rightarrow> total_quantity best = 10))"

definition test_replicated_cancel :: bool where
  "test_replicated_cancel =
     (get_best_bid (apply_replicated_cancel
        (insert_replicated_order empty_book (test_order ''o1'' BUY 100 10 1)) ''o1'') = None)"

definition test_get_all_orders :: bool where
  "test_get_all_orders =
     (length (get_all_orders (add_orders [test_order ''o1'' BUY 100 10 1, test_order ''o2'' SELL 101 20 2])) = 2)"

definition test_fifo_priority :: bool where
  "test_fifo_priority =
     (let (b, fills) = match_market_order (add_orders [test_order ''o1'' SELL 100 10 1, test_order ''o2'' SELL 100 10 2]) BUY 10
      in map fill_order_id fills = [''o1''])"

lemma orderbook_tests:
  "test_add_and_best_bid" "test_add_and_best_ask" "test_multiple_bids_sorted" "test_cancel_order"
  "test_match_market_buy" "test_match_market_sell" "test_snapshot" "test_has_order" "test_replicated_insert"
  "test_replicated_cancel" "test_get_all_orders" "test_fifo_priority"
  by code_simp+

section \<open>Vector clocks\<close>

definition ticks :: "nat \<Rightarrow> string \<Rightarrow> vector_clock" where
  "ticks n nid = ((\<lambda>vc. fst (tick vc)) ^^ n) (new_clock nid)"

definition test_tick :: bool where
  "test_tick =
     (let vc = new_clock ''node-a''; (vc1, t1) = tick vc; (vc2, t2) = tick vc1
      in get_local_time vc = 0 \<and> t1 = 1 \<and> t2 = 2)"

definition test_merge :: bool where
  "test_merge =
     (let a = merge (ticks 2 ''node-a'') (ticks 1 ''node-b'')
      in map_of (vc_clock a) ''node-a'' = Some 2 \<and> map_of (vc_clock a) ''node-b'' = Some 1)"

definition test_happens_before :: bool where
  "test_happens_before =
     (let a = ticks 1 ''node-a''; b = ticks 2 ''node-a'' in happens_before a b \<and> \<not> happens_before b a)"

definition test_concurrent :: bool where
  "test_concurrent =
     (let a = ticks 1 ''node-a''; b = ticks 1 ''node-b'' in is_concurrent a b \<and> is_concurrent b a)"

definition test_not_concurrent_after_merge :: bool where
  "test_not_concurrent_after_merge =
     (let a = ticks 1 ''node-a''; b = fst (tick (merge (ticks 1 ''node-b'') a))
      in happens_before a b \<and> \<not> is_concurrent a b)"

definition test_clock_roundtrip :: bool where
  "test_clock_roundtrip =
     (case vc_deserialize (vc_serialize (merge (ticks 3 ''node-a'') (ticks 1 ''node-b''))) of
        Inl _ \<Rightarrow> False
      | Inr (vc2, _) \<Rightarrow> vc_node vc2 = ''node-a'' \<and> map_of (vc_clock vc2) ''node-a'' = Some 3 \<and>
          map_of (vc_clock vc2) ''node-b'' = Some 1)"

definition test_equal_not_happens_before :: bool where
  "test_equal_not_happens_before =
     (let a = ticks 1 ''node-a''; b = ticks 1 ''node-a'' in \<not> happens_before a b \<and> \<not> happens_before b a)"

lemma vector_clock_tests:
  "test_tick" "test_merge" "test_happens_before" "test_concurrent" "test_not_concurrent_after_merge"
  "test_clock_roundtrip" "test_equal_not_happens_before"
  by code_simp+

section \<open>The replicated book\<close>

text \<open>The generated ids are \<open>uuid 0\<close>, \<open>uuid 1\<close> and so on, in the order of the calls.\<close>

definition add_at :: "(nat \<Rightarrow> string) \<Rightarrow> nat \<Rightarrow> side \<Rightarrow> double \<Rightarrow> int \<Rightarrow> crdt_book \<Rightarrow> crdt_book" where
  "add_at uuid k sd p q st = fst (local_add_order st sd p q (uuid k) (uuid (Suc k)))"

definition test_local_add :: "(nat \<Rightarrow> string) \<Rightarrow> bool" where
  "test_local_add uuid =
     (let (st, oid) = local_add_order (new_crdt ''node-a'') BUY 100 50 (uuid 0) (uuid 1)
      in oid \<noteq> [] \<and> map total_quantity (snap_bids (crdt_snapshot st 5)) = [50])"

definition test_local_cancel :: "(nat \<Rightarrow> string) \<Rightarrow> order \<Rightarrow> bool" where
  "test_local_cancel uuid junk =
     (let (st, oid) = local_add_order (new_crdt ''node-a'') SELL 100 30 (uuid 0) (uuid 1);
          (st1, first) = local_cancel_order junk st oid (uuid 2);
          (st2, again) = local_cancel_order junk st1 oid (uuid 3)
      in first \<and> \<not> again \<and> snap_asks (crdt_snapshot st2 5) = [])"

definition test_local_market_order :: "(nat \<Rightarrow> string) \<Rightarrow> order \<Rightarrow> bool" where
  "test_local_market_order uuid junk =
     (let st = add_at uuid 2 SELL 101 30 (add_at uuid 0 SELL 100 50 (new_crdt ''node-a''));
          (st1, fills) = local_market_order junk (\<lambda>n. uuid (4 + n)) st BUY 60
      in map fill_quantity fills = [50, 10])"

definition test_remote_operation_add :: "(nat \<Rightarrow> string) \<Rightarrow> bool" where
  "test_remote_operation_add uuid =
     (case get_operation_log (add_at uuid 0 BUY 100 50 (new_crdt ''node-a'')) of
        [op] \<Rightarrow> (let (b, applied) = apply_remote_operation (new_crdt ''node-b'') op
                 in applied \<and> length (snap_bids (crdt_snapshot b 5)) = 1)
      | _ \<Rightarrow> False)"

definition test_deduplication :: "(nat \<Rightarrow> string) \<Rightarrow> bool" where
  "test_deduplication uuid =
     (let op = hd (get_operation_log (add_at uuid 0 BUY 100 50 (new_crdt ''node-a'')));
          (b, first) = apply_remote_operation (new_crdt ''node-b'') op;
          (b', again) = apply_remote_operation b op
      in first \<and> \<not> again)"

definition test_two_node_convergence :: "(nat \<Rightarrow> string) \<Rightarrow> bool" where
  "test_two_node_convergence uuid =
     (let a = add_at uuid 0 BUY 100 50 (new_crdt ''node-a'');
          b = add_at uuid 2 SELL 101 30 (new_crdt ''node-b'');
          b' = apply_operations b (get_operation_log a);
          a' = apply_operations a (get_operation_log b);
          snap_a = crdt_snapshot a' 5; snap_b = crdt_snapshot b' 5
      in length (snap_bids snap_a) = length (snap_bids snap_b) \<and> length (snap_asks snap_a) = length (snap_asks snap_b) \<and>
         snap_bids snap_a \<noteq> [] \<and> snap_asks snap_a \<noteq> [] \<and>
         total_quantity (hd (snap_bids snap_a)) = total_quantity (hd (snap_bids snap_b)) \<and>
         total_quantity (hd (snap_asks snap_a)) = total_quantity (hd (snap_asks snap_b)))"

definition test_op_log_grows :: "(nat \<Rightarrow> string) \<Rightarrow> bool" where
  "test_op_log_grows uuid =
     (get_op_log_size (add_at uuid 2 SELL 101 20 (add_at uuid 0 BUY 100 10 (new_crdt ''node-a''))) = 2)"

definition test_clock_advances :: "(nat \<Rightarrow> string) \<Rightarrow> bool" where
  "test_clock_advances uuid =
     (let st = add_at uuid 0 BUY 100 10 (new_crdt ''node-a'');
          c1 = get_local_time (get_clock st);
          c2 = get_local_time (get_clock (add_at uuid 2 SELL 101 20 st))
      in c2 > c1)"

text \<open>Whatever the generated ids are, as long as they differ and the first is not empty.\<close>

lemmas crdt_eval = add_at_def local_add_order_def local_cancel_order_def local_market_order_def apply_remote_operation_def
  add_order_def place_order_def insert_replicated_order_def cancel_order_def log_op_def new_crdt_def empty_book_def
  tick_def new_clock_def entry_def enqueue_def has_order_def crdt_snapshot_def get_snapshot_def get_operation_log_def
  get_op_log_size_def get_clock_def get_local_time_def cancel_operation_def default_order_def merge_def
  default_level_def wrap64_id fits64_def remove_order_from_level_def remove_from_side_def remove_from_deque_def deref_def
  match_market_order_def get_all_orders_def Let_def

lemma crdt_tests:
  assumes "inj uuid" and "uuid 0 \<noteq> []"
  shows "test_local_add uuid" "test_local_cancel uuid junk" "test_local_market_order uuid junk"
    "test_remote_operation_add uuid" "test_deduplication uuid" "test_two_node_convergence uuid"
    "test_op_log_grows uuid" "test_clock_advances uuid"
proof -
  have d: "uuid i = uuid j \<longleftrightarrow> i = j" for i j using assms(1) by (simp add: inj_eq)
  show "test_local_add uuid" by (simp add: test_local_add_def crdt_eval assms(2))
  show "test_local_cancel uuid junk" by (simp add: test_local_cancel_def crdt_eval d)
  show "test_local_market_order uuid junk" by (simp add: test_local_market_order_def crdt_eval d)
  show "test_remote_operation_add uuid" by (simp add: test_remote_operation_add_def crdt_eval)
  show "test_deduplication uuid" by (simp add: test_deduplication_def crdt_eval)
  show "test_two_node_convergence uuid" by (simp add: test_two_node_convergence_def crdt_eval d)
  show "test_op_log_grows uuid" by (simp add: test_op_log_grows_def crdt_eval)
  show "test_clock_advances uuid" by (simp add: test_clock_advances_def crdt_eval)
qed

section \<open>Messages\<close>

definition read_back :: "message \<Rightarrow> message option" where
  "read_back msg = (case msg_deserialize (msg_serialize msg) of Inl _ \<Rightarrow> None | Inr msg2 \<Rightarrow> Some msg2)"

lemma read_back: "message_wire_ok msg \<Longrightarrow> read_back msg = Some (received_message msg)"
  using msg_round_trip [of msg "[]"] by (simp add: read_back_def)

definition test_heartbeat :: bool where
  "test_heartbeat =
     (let msg = \<lparr>msg_type = HEARTBEAT, sender_id = ''node-a'', sender_clock = ticks 1 ''node-a'', operations = []\<rparr>
      in msg_serialize msg \<noteq> [] \<and>
         (case read_back msg of None \<Rightarrow> False
          | Some msg2 \<Rightarrow> msg_type msg2 = HEARTBEAT \<and> sender_id msg2 = ''node-a'' \<and> operations msg2 = []))"

definition add_message :: message where
  "add_message =
     \<lparr>msg_type = GOSSIP_PUSH, sender_id = ''node-b'', sender_clock = ticks 2 ''node-b'',
      operations =
        [\<lparr>op_type = ADD_ORDER,
          op_order = \<lparr>order_id = ''order-123'', node_id = ''node-b'', side = BUY, price = 601 / 4, quantity = 100,
            remaining = 100, timestamp = 2, is_cancelled = False\<rparr>,
          cancel_order_id = [], origin_node = ''node-b'', op_clock = ticks 2 ''node-b'', op_id = ''op-456''\<rparr>]\<rparr>"

definition test_with_operations :: bool where
  "test_with_operations =
     (case read_back add_message of None \<Rightarrow> False
      | Some msg2 \<Rightarrow> msg_type msg2 = GOSSIP_PUSH \<and> sender_id msg2 = ''node-b'' \<and>
          (case operations msg2 of
             [op2] \<Rightarrow> op_type op2 = ADD_ORDER \<and> order_id (op_order op2) = ''order-123'' \<and> side (op_order op2) = BUY \<and>
               rnd (15024 / 100) < price (op_order op2) \<and> price (op_order op2) < rnd (15026 / 100) \<and> quantity (op_order op2) = 100 \<and>
               remaining (op_order op2) = 100 \<and> timestamp (op_order op2) = 2 \<and> \<not> is_cancelled (op_order op2) \<and>
               op_id op2 = ''op-456''
           | _ \<Rightarrow> False))"

definition cancel_message :: "order \<Rightarrow> message" where
  "cancel_message junk =
     \<lparr>msg_type = GOSSIP_PUSH, sender_id = ''node-c'', sender_clock = new_clock ''node-c'',
      operations =
        [\<lparr>op_type = CANCEL_ORDER, op_order = default_order junk, cancel_order_id = ''order-789'', origin_node = ''node-c'',
          op_clock = new_clock ''node-c'', op_id = ''op-cancel-1''\<rparr>]\<rparr>"

definition test_cancel_operation :: "order \<Rightarrow> bool" where
  "test_cancel_operation junk =
     (case read_back (cancel_message junk) of None \<Rightarrow> False
      | Some msg2 \<Rightarrow> map op_type (operations msg2) = [CANCEL_ORDER] \<and> map cancel_order_id (operations msg2) = [''order-789''])"

definition numbered_operation :: "nat \<Rightarrow> operation" where
  "numbered_operation i =
     \<lparr>op_type = ADD_ORDER,
      op_order = \<lparr>order_id = ''order-'' @ show_nat i, node_id = ''node-a'', side = (if i mod 2 = 0 then BUY else SELL),
        price = 100 + of_nat i, quantity = 10 * (int i + 1), remaining = 10 * (int i + 1), timestamp = of_nat (i + 1),
        is_cancelled = False\<rparr>,
      cancel_order_id = [], origin_node = ''node-a'', op_clock = new_clock ''node-a'', op_id = ''op-'' @ show_nat i\<rparr>"

definition numbered_message :: message where
  "numbered_message =
     \<lparr>msg_type = ANTI_ENTROPY_RES, sender_id = ''node-a'', sender_clock = new_clock ''node-a'',
      operations = map numbered_operation [0..<5]\<rparr>"

definition test_multiple_operations :: bool where
  "test_multiple_operations =
     (case read_back numbered_message of None \<Rightarrow> False
      | Some msg2 \<Rightarrow> length (operations msg2) = 5 \<and>
          list_all (\<lambda>i. order_id (op_order (operations msg2 ! i)) = ''order-'' @ show_nat i) [0..<5])"

lemma wire_names:
  "byte_type (type_byte HEARTBEAT) = HEARTBEAT" "byte_type (type_byte GOSSIP_PUSH) = GOSSIP_PUSH"
  "byte_type (type_byte ANTI_ENTROPY_RES) = ANTI_ENTROPY_RES" "byte_optype (optype_byte ADD_ORDER) = ADD_ORDER"
  "byte_optype (optype_byte CANCEL_ORDER) = CANCEL_ORDER" "byte_side (side_byte BUY) = BUY" "byte_side (side_byte SELL) = SELL"
  by code_simp+

lemma wire_clocks:
  "clock_wire_ok (ticks 1 ''node-a'')" "clock_wire_ok (ticks 2 ''node-b'')" "clock_wire_ok (new_clock ''node-a'')"
  "clock_wire_ok (new_clock ''node-c'')"
proof -
  have "ticks 1 ''node-a'' = \<lparr>vc_node = ''node-a'', vc_clock = [(''node-a'', 1)]\<rparr>"
    "ticks 2 ''node-b'' = \<lparr>vc_node = ''node-b'', vc_clock = [(''node-b'', 2)]\<rparr>"
    "new_clock ''node-a'' = \<lparr>vc_node = ''node-a'', vc_clock = [(''node-a'', 0)]\<rparr>"
    "new_clock ''node-c'' = \<lparr>vc_node = ''node-c'', vc_clock = [(''node-c'', 0)]\<rparr>" by code_simp+
  moreover have "length (vc_serialize \<lparr>vc_node = i, vc_clock = [(i, v)]\<rparr>) = 16 + 2 * length i" for i v
    by (simp add: vc_serialize_def write_entry_def write_string_def)
  ultimately show "clock_wire_ok (ticks 1 ''node-a'')" "clock_wire_ok (ticks 2 ''node-b'')" "clock_wire_ok (new_clock ''node-a'')"
    "clock_wire_ok (new_clock ''node-c'')"
    by (simp_all add: clock_wire_ok_def short_string_def)
qed

lemmas wire_eval = wire_names wire_clocks wire_clocks [simplified] short_string_def fits64_def

lemma message_tests:
  "test_heartbeat" "test_with_operations" "order_wire_ok (default_order junk) \<Longrightarrow> test_cancel_operation junk"
  "test_multiple_operations"
proof -
  let ?hb = "\<lparr>msg_type = HEARTBEAT, sender_id = ''node-a'', sender_clock = ticks 1 ''node-a'', operations = []\<rparr>"
  have "message_wire_ok ?hb" by (simp add: message_wire_ok_def wire_eval)
  then show "test_heartbeat" by (simp add: test_heartbeat_def read_back received_message_def msg_serialize_eq write_u8_def)
  have "representable (601 / 4)"
    unfolding representable_def by (rule exI [of _ 601], rule exI [of _ "- 2"]) (simp add: pow2_def)
  then have "wire_price (601 / 4) = 601 / 4" by (rule wire_price_exact [of _ 1502500]) simp_all
  moreover have "message_wire_ok add_message"
    by (simp add: message_wire_ok_def add_message_def operation_wire_ok_def order_wire_ok_def wire_eval)
  moreover have "\<bar>rnd (15024 / 100) - 15024 / 100\<bar> \<le> 1 / 1000" "\<bar>rnd (15026 / 100) - 15026 / 100\<bar> \<le> 1 / 1000"
    using rnd_error_bound [of "15024 / 100" 8] rnd_error_bound [of "15026 / 100" 8] by (simp_all add: pow2_def)
  then have "rnd (15024 / 100) < 601 / 4" "601 / 4 < rnd (15026 / 100)" unfolding abs_le_iff by linarith+
  ultimately show "test_with_operations"
    by (simp add: test_with_operations_def read_back) (simp add: add_message_def received_message_def received_operation_def
        received_order_def)
  show "test_cancel_operation junk" if "order_wire_ok (default_order junk)"
  proof -
    have "message_wire_ok (cancel_message junk)"
      using that by (simp add: message_wire_ok_def cancel_message_def operation_wire_ok_def wire_eval)
    then show ?thesis
      by (simp add: test_cancel_operation_def read_back) (simp add: cancel_message_def received_message_def received_operation_def)
  qed
  have five: "[0..<5] = [0, 1, 2, 3, 4 :: nat]" by (simp add: upt_rec)
  have "operation_wire_ok (numbered_operation i)" if "i \<in> set [0..<5]" for i
    using that show_base_length [of 10 i 1]
    by (auto simp: numbered_operation_def operation_wire_ok_def order_wire_ok_def wire_eval)
  then have "message_wire_ok numbered_message"
    by (simp add: message_wire_ok_def numbered_message_def wire_eval list_all_iff)
  then show "test_multiple_operations"
    by (simp add: test_multiple_operations_def read_back)
      (simp add: numbered_message_def received_message_def received_operation_def received_order_def five numbered_operation_def)
qed

section \<open>The schedule\<close>

definition five_nodes :: wythoff_scheduler where
  "five_nodes = \<lparr>num_nodes = 5\<rparr>"

definition rounds_with :: "sync_mode \<Rightarrow> nat \<Rightarrow> nat" where
  "rounds_with mode n = length (filter (\<lambda>r. get_sync_mode (of_nat r) = Some mode) [1..<Suc n])"

definition test_beatty_sequence_partition :: bool where
  "test_beatty_sequence_partition =
     (let push_count = rounds_with PUSH 1000; pull_count = rounds_with PULL 1000
      in push_count + pull_count = 1000 \<and> 377 \<le> push_count \<and> push_count \<le> 387 \<and>
         613 \<le> pull_count \<and> pull_count \<le> 623 \<and> pull_count > push_count)"

definition test_pair_determinism :: bool where
  "test_pair_determinism =
     (let s1 = five_nodes; s2 = five_nodes
      in get_pair s1 42 \<noteq> None \<and> get_pair s1 42 = get_pair s2 42 \<and> get_sync_mode 42 \<noteq> None)"

definition test_no_self_gossip :: bool where
  "test_no_self_gossip =
     list_all (\<lambda>r. case get_pair five_nodes (of_nat r) of None \<Rightarrow> False | Some pair \<Rightarrow> sender pair \<noteq> receiver pair)
       [1..<10001]"

definition test_phase_offset_spread :: bool where
  "test_phase_offset_spread =
     (let offsets = sort (map (\<lambda>i. get_phase_offset i 1000) [0, 1, 2, 3, 4]);
          gaps = map2 (\<lambda>x y. y - x) offsets (tl offsets @ [hd offsets + 1000])
      in list_all (\<lambda>gap. gap > 100) gaps \<and> list_all (\<lambda>x. 0 \<le> x \<and> x < 1000) offsets)"

definition test_quasi_periodicity :: bool where
  "test_quasi_periodicity =
     (case precompute_schedule five_nodes 1 100 of None \<Rightarrow> False
      | Some schedule \<Rightarrow>
          list_all (\<lambda>period. list_ex (\<lambda>i. schedule ! i \<noteq> schedule ! (i + period)) [0..<100 - period]) [1..<51])"

text \<open>Over the rounds whose arithmetic is exact the multiples of the golden ratio are counted in integers.\<close>

definition golden :: "nat \<Rightarrow> nat" where
  "golden k = 7286977268806824 * k div 2 ^ 52"

lemma golden_mono: "k < k' \<Longrightarrow> golden k < golden k'"
proof -
  assume "k < k'"
  then have "7286977268806824 * k + 2 ^ 52 \<le> 7286977268806824 * k'" by simp
  then have "(7286977268806824 * k + 2 ^ 52) div 2 ^ 52 \<le> golden k'" unfolding golden_def by (rule div_le_mono)
  then show ?thesis by (simp add: golden_def)
qed

lemma floor_phi_golden:
  assumes "0 < k" and "k \<le> 2 ^ 24"
  shows "\<lfloor>real_of_int (int k) * phi\<rfloor> = int (golden k)"
proof -
  have k: "0 < int k" "int k \<le> 2 ^ 24" "0 \<le> real k" "real k \<le> 2 ^ 24" using assms by simp_all
  let ?x = "real_of_int (int (7286977268806824 * k)) / real_of_int (2 ^ 52)"
  have P: "real_of_rat PHI = 7286977268806824 / 2 ^ 52" by (simp add: PHI_val of_rat_divide)
  have "?x - real_of_int (int k) * phi = real k * (real_of_rat PHI - phi)" by (simp add: P algebra_simps)
  then have "\<bar>?x - real_of_int (int k) * phi\<bar> = real k * \<bar>real_of_rat PHI - phi\<bar>" using k by (simp add: abs_mult)
  also have "\<dots> \<le> 2 ^ 24 * (1 / 2 ^ 53)" by (rule mult_mono) (use k PHI_close in simp_all)
  also have "\<dots> \<le> 1 / 2 ^ 26" by simp
  finally have "\<lfloor>?x\<rfloor> = \<lfloor>real_of_int (int k) * phi\<rfloor>" by (rule floor_close(1) [OF phi_gap [OF k(1,2)]])
  moreover have "\<lfloor>?x\<rfloor> = int (golden k)" by (simp only: floor_divide_of_int_eq golden_def) (simp add: zdiv_int)
  ultimately show ?thesis by simp
qed

lemma round_word: "r \<le> 2 ^ 24 \<Longrightarrow> unat (of_nat r :: u64) = r" "r \<le> 2 ^ 24 \<Longrightarrow> uint (of_nat r :: u64) = int r"
  by (simp_all add: unat_of_nat unsigned_of_nat take_bit_nat_eq_self flip: int_eq_iff_numeral)

lemma sync_mode_golden:
  assumes "0 < r" and "r \<le> 1000"
  shows "get_sync_mode (of_nat r) = Some (if r \<in> golden ` {1..618} then PULL else PUSH)"
proof -
  let ?n = "of_nat r :: u64"
  have n: "uint ?n = int r" using assms round_word(2) [of r] by simp
  have "0 < ?n" "?n \<le> 2 ^ 24" using n assms by (simp_all add: word_less_def word_le_def)
  note B = is_in_beatty_phi_eq(2) [OF this]
  have "(\<exists>k > 0. \<lfloor>real_of_int k * phi\<rfloor> = int r) \<longleftrightarrow> r \<in> golden ` {1..618}"
  proof
    assume "\<exists>k > 0. \<lfloor>real_of_int k * phi\<rfloor> = int r"
    then obtain k where k: "0 < k" "\<lfloor>real_of_int k * phi\<rfloor> = int r" by blast
    have "\<not> 619 \<le> k"
    proof
      assume "619 \<le> k"
      then have "real_of_int 619 * phi \<le> real_of_int k * phi" using phi_bounds by (intro mult_right_mono) simp_all
      then have "\<lfloor>real_of_int (int 619) * phi\<rfloor> \<le> int r" unfolding k(2) [symmetric] by (intro floor_mono) simp
      moreover have "\<lfloor>real_of_int (int 619) * phi\<rfloor> = 1001" using floor_phi_golden [of 619] by (simp add: golden_def)
      ultimately show False using assms(2) by linarith
    qed
    moreover obtain j where "k = int j" using k(1) by (metis zero_less_imp_eq_int)
    ultimately show "r \<in> golden ` {1..618}"
      using k floor_phi_golden [of j] by (intro image_eqI [of _ _ j]) simp_all
  next
    assume "r \<in> golden ` {1..618}"
    then obtain j where "r = golden j" "1 \<le> j" "j \<le> 618" by auto
    then show "\<exists>k > 0. \<lfloor>real_of_int k * phi\<rfloor> = int r"
      using floor_phi_golden [of j] by (intro exI [of _ "int j"]) simp
  qed
  then show ?thesis using B by (simp add: get_sync_mode_def n)
qed

lemma test_beatty_sequence_partition: "test_beatty_sequence_partition"
proof -
  let ?G = "golden ` {1..618}"
  have count: "rounds_with mode 1000 = card {r \<in> {1..1000}. (if r \<in> ?G then PULL else PUSH) = mode}" for mode
  proof -
    have "rounds_with mode 1000 = card {r \<in> {1..<Suc 1000}. get_sync_mode (of_nat r) = Some mode}"
      unfolding rounds_with_def by (subst distinct_card [symmetric]) (simp_all only: distinct_filter distinct_upt set_filter set_upt)
    also have "{r \<in> {1..<Suc 1000}. get_sync_mode (of_nat r) = Some mode} =
        {r \<in> {1..1000}. (if r \<in> ?G then PULL else PUSH) = mode}"
      using sync_mode_golden by auto
    finally show ?thesis .
  qed
  have inj: "inj_on golden {1..618}" by (rule linorder_inj_onI') (use golden_mono in force)
  have "golden j \<in> {1..1000}" if "j \<in> {1..618}" for j
  proof -
    have "golden 0 < golden j" "golden j \<le> golden 618" using that golden_mono [of 0 j] golden_mono [of j 618] by (auto simp: le_less)
    then show ?thesis by (simp add: golden_def)
  qed
  then have sub: "?G \<subseteq> {1..1000}" by blast
  have "{r \<in> {1..1000}. (if r \<in> ?G then PULL else PUSH) = PULL} = ?G" using sub by auto
  then have pull: "rounds_with PULL 1000 = 618" using card_image [OF inj] by (simp add: count)
  have "{r \<in> {1..1000}. (if r \<in> ?G then PULL else PUSH) = PUSH} = {1..1000} - ?G" by auto
  then have "rounds_with PUSH 1000 = 382" using sub card_image [OF inj] by (simp add: count card_Diff_subset)
  with pull show ?thesis by (simp add: test_beatty_sequence_partition_def)
qed

lemma test_no_self_gossip: "test_no_self_gossip"
proof -
  have "\<exists>p. get_pair five_nodes (of_nat r) = Some p \<and> sender p \<noteq> receiver p" if "r < 10001" for r
    using get_pair_total [of five_nodes "of_nat r"] round_word(2) [of r] that
    by (fastforce simp: five_nodes_def word_less_def)
  then show ?thesis by (force simp: test_no_self_gossip_def list_all_iff)
qed

lemma test_pair_determinism: "test_pair_determinism"
  using get_pair_total [of five_nodes 42] sync_mode_golden [of 42] by (auto simp: test_pair_determinism_def five_nodes_def)

lemma pair_golden:
  assumes "0 < r" and "r \<le> 1000"
  shows "get_pair five_nodes (of_nat r) = Some (decode_pair 5 (of_nat (golden r mod 20)))"
proof -
  note R = round_word(2) [of r]
  have "get_pair five_nodes (of_nat r) = Some (decode_pair (num_nodes five_nodes)
      (word_of_nat (nat \<lfloor>real_of_int (uint (of_nat r :: u64)) * phi\<rfloor> mod (5 * (5 - 1)))))"
    by (rule get_pair_phi) (use assms R in \<open>simp_all add: five_nodes_def word_less_def word_le_def\<close>)
  then show ?thesis using floor_phi_golden [OF assms(1)] assms(2) R by (simp add: five_nodes_def)
qed

lemma decode_five:
  assumes "decode_pair 5 (of_nat a) = decode_pair 5 (of_nat b)" and "a < 20" and "b < 20"
  shows "a = b"
proof -
  have u: "unat (of_nat a :: u32) = a" "unat (of_nat b :: u32) = b" using assms(2,3) by (simp_all add: unat_of_nat)
  then have "unat (of_nat a :: u32) < unat (5 :: u32) * (unat (5 :: u32) - 1)" "unat (of_nat b :: u32) < unat (5 :: u32) * (unat (5 :: u32) - 1)"
    using assms(2,3) by simp_all
  note ab = this
  have "2 \<le> (5 :: u32)" by simp
  note a = decode_pair_iff [OF this ab(1) decode_pair_valid [OF this ab(1)], THEN iffD1, OF refl]
    and b = decode_pair_iff [OF this ab(2) decode_pair_valid [OF this ab(2)], THEN iffD1, OF refl]
  have "unat (of_nat a :: u32) = unat (of_nat b :: u32)" 
    by (rule trans [OF a [unfolded assms(1)] b [symmetric]])
  then show ?thesis unfolding u .
qed

lemma periods: "[1..<51] =
    [1, 2, 3, 4, 5, 6, 7, 8, 9, 10, 11, 12, 13, 14, 15, 16, 17, 18, 19, 20, 21, 22, 23, 24, 25, 26, 27, 28, 29, 30,
     31, 32, 33, 34, 35, 36, 37, 38, 39, 40, 41, 42, 43, 44, 45, 46, 47, 48, 49, 50]"
  by (simp add: upt_conv_Cons)

lemma golden_differs:
  "list_all (\<lambda>d. golden (d + 1) mod 20 \<noteq> 1 \<or> golden (d + 2) mod 20 \<noteq> 3 \<or> golden (d + 5) mod 20 \<noteq> 8) [1..<51]"
  unfolding periods by (simp add: golden_def)

lemma test_quasi_periodicity: "test_quasi_periodicity"
proof -
  have "schedule_from five_nodes 1 100 \<noteq> None" by (rule schedule_from_defined) (simp_all add: five_nodes_def)
  then obtain ps where ps: "schedule_from five_nodes 1 100 = Some ps" by blast
  then have pre: "precompute_schedule five_nodes 1 100 = Some ps" by (simp add: precompute_schedule_def word_less_nat_alt)
  have nth: "ps ! i = decode_pair 5 (of_nat (golden (i + 1) mod 20))" if "i < 100" for i
  proof -
    have "get_pair five_nodes (1 + of_nat i) = Some (ps ! i)" using schedule_from_pairs [OF ps] that by blast
    moreover have "get_pair five_nodes (of_nat (i + 1)) = Some (decode_pair 5 (of_nat (golden (i + 1) mod 20)))"
      by (rule pair_golden) (use that in simp_all)
    ultimately show ?thesis by (simp add: of_nat_add add.commute)
  qed
  have "list_ex (\<lambda>i. ps ! i \<noteq> ps ! (i + d)) [0..<100 - d]" if "d \<in> set [1..<51]" for d
  proof -
    have "\<exists>i \<in> set [0, 1, 4]. golden (i + 1) mod 20 \<noteq> golden (i + d + 1) mod 20"
    proof -
      have "golden (d + 1) mod 20 \<noteq> 1 \<or> golden (d + 2) mod 20 \<noteq> 3 \<or> golden (d + 5) mod 20 \<noteq> 8"
        using golden_differs [unfolded list_all_iff] that by (rule bspec)
      moreover have "golden (0 + 1) mod 20 = 1" "golden (1 + 1) mod 20 = 3" "golden (4 + 1) mod 20 = 8"
        by (simp_all add: golden_def)
      moreover have "d + 1 = 0 + d + 1" "d + 2 = 1 + d + 1" "d + 5 = 4 + d + 1" by simp_all
      ultimately show ?thesis by (metis list.set_intros)
    qed
    then obtain i where i: "i \<in> set [0, 1, 4]" "golden (i + 1) mod 20 \<noteq> golden (i + d + 1) mod 20" by blast
    have "i + d < 100" using that i(1) unfolding set_upt by auto
    then have "i < 100" "i \<in> set [0..<100 - d]" by simp_all
    moreover have "ps ! i \<noteq> ps ! (i + d)"
      using decode_five [of "golden (i + 1) mod 20" "golden (i + d + 1) mod 20"] i(2) \<open>i + d < 100\<close>
      by (auto simp: nth)
    ultimately show ?thesis unfolding list_ex_iff by blast
  qed
  then show ?thesis by (simp only: test_quasi_periodicity_def pre option.case list_all_iff) blast
qed

lemma offset_close:
  assumes "n \<le> 4" and "of_nat c * 1000 + 1 \<le> of_nat n * 1000 / PHI" and "of_nat n * 1000 / PHI \<le> of_nat c * 1000 + 998"
  shows "\<bar>get_phase_offset (of_nat n) 1000 - (of_nat n * 1000 / PHI - of_nat c * 1000)\<bar> \<le> 1"
proof -
  let ?y = "of_nat n * 1000 / PHI" and ?x = "rnd (of_nat n * 1000 / PHI)"
  have "uint (of_nat n :: u32) = int n" using assms(1) by (simp add: unsigned_of_nat take_bit_nat_eq_self)
  moreover have "rnd (of_int (int n * 1000)) = of_int (int n * 1000)"
    using assms(1) by (intro rnd_representable representable_of_int) simp
  ultimately have x: "ddiv (dmul (double_of_int (uint (of_nat n :: u32))) 1000) PHI = ?x"
    using assms(1) by (simp add: ddiv_def dmul_def small_double)
  have "?y \<le> 4000" using assms(1) by (simp add: PHI_val field_simps)
  then have "\<bar>?x - ?y\<bar> \<le> pow2 (int 25 - 54)"
    by (intro rnd_error_bound) (use PHI_range in \<open>simp_all add: pow2_def\<close>)
  also have "\<dots> \<le> 1" by (simp add: pow2_def)
  finally have e: "\<bar>?x - ?y\<bar> \<le> 1" .
  then have "of_nat c \<le> ?x / 1000" "?x / 1000 < of_nat c + 1" using assms(2,3) by (simp_all add: field_simps)
  then have "dtrunc (?x / 1000) = int c" by (simp add: dtrunc_def floor_eq_iff)
  with e show ?thesis by (simp add: get_phase_offset_def dfmod_def x)
qed

lemma test_phase_offset_spread: "test_phase_offset_spread"
proof -
  have "\<bar>get_phase_offset 0 1000 - 0\<bar> \<le> 0" by (simp add: get_phase_offset_def dfmod_def ddiv_def dmul_def double_of_int_def dtrunc_def)
  moreover have "\<bar>get_phase_offset 1 1000 - 618\<bar> \<le> 2" "\<bar>get_phase_offset 2 1000 - 236\<bar> \<le> 2"
    "\<bar>get_phase_offset 3 1000 - 854\<bar> \<le> 2" "\<bar>get_phase_offset 4 1000 - 472\<bar> \<le> 2"
    using offset_close [of 1 0] offset_close [of 2 1] offset_close [of 3 1] offset_close [of 4 2]
    by (simp_all add: PHI_val)
  ultimately show ?thesis by (auto simp: test_phase_offset_spread_def abs_le_iff)
qed

end
