(* ===== verification/Spec2Isabelle.thy ===== *)
theory Spec2Isabelle
  imports OrderBook_Props CRDT_Props Message_Props Wythoff_Props Gossip_Props Gossip_System Client_Props
    TcpServer Config_Props Uuid Logger Node Deployment_Props Gossip_Transport Gossip_Threads_Props Convergence Lifecycle_Props
    Unit_Tests
begin

text \<open>
  Convergence is a limit order book replicated by gossip. Every node keeps a whole book, takes
  orders from clients over TCP and exchanges the operations on the book with its peers in UDP
  datagrams. This development models the C++ program under \<^verbatim>\<open>src/src\<close> and proves what
  its parts and their composition do, the faults included.

  \<^bold>\<open>Parts of the program and theories.\<close> Records are the source's structs and classes, one
  definition stands for one function, and constructors and fields keep the source's names as far as
  they are free.

  \<^item> \<open>Prelude\<close>: machine integers (\<open>u8\<close> to \<open>u64\<close> are words; an \<^verbatim>\<open>int64_t\<close> is an
    \<^typ>\<open>int\<close> with \<open>wrap64\<close> written out), results that may be errors, hash maps as association
    lists. \<open>Std_Map\<close>: \<^verbatim>\<open>std::map\<close> as a sorted list, over a locale of the comparison, used
    for bids (descending) and asks (ascending). \<open>Binary64\<close>: finite doubles as the rationals they
    denote, every operation rounded to 53 bits to nearest even.
  \<^item> \<open>Order_Types\<close>, \<open>OrderBook\<close> (\<^verbatim>\<open>orderbook/*\<close>): the state is the map of all orders and
    the two sides; a queued \<^verbatim>\<open>Order*\<close> is the key of the order it points to. \<open>OrderBook_Inv\<close>
    has the representation invariant, \<open>OrderBook_Spec\<close> the abstract book (two queues in
    price-time order) and \<open>OrderBook_Match\<close> the matching loops; \<open>OrderBook_Props\<close> shows that
    every operation implements its abstract counterpart.
  \<^item> \<open>VectorClock\<close>, \<open>CRDT\<close> (\<^verbatim>\<open>crdt/*\<close>): clocks, and the book with its operation log and
    set of seen operations. \<open>CRDT_Cluster\<close> is the step relation of a cluster whose operations are
    delivered in any order or not at all, with its invariants; \<open>CRDT_Props\<close> says when replicas
    agree and exhibits the runs in which they do not.
  \<^item> \<open>Bytes\<close>, \<open>Message\<close>, \<open>Message_Props\<close> (\<^verbatim>\<open>gossip/message.cpp\<close>): the wire format.
    A locale states what a pair of writer and reader owes (reading back, refusing every proper
    prefix); strings, integers, clocks, orders, operations and messages are its instances.
  \<^item> \<open>Wythoff\<close>, \<open>Wythoff_Props\<close> (\<^verbatim>\<open>gossip/wythoff_scheduler.cpp\<close>): the schedule, with
    the double arithmetic compared to the exact golden ratio.
  \<^item> \<open>Gossip\<close>, \<open>Gossip_Props\<close>, \<open>Gossip_System\<close> (\<^verbatim>\<open>gossip/gossip_engine.cpp\<close>):
    choosing a peer, one iteration of the gossip thread, the handling of one datagram; a full sync
    through its datagrams, and the agreement of the nodes' schedulers.
  \<^item> \<open>Text_Format\<close>, \<open>Text_Fields\<close>: what is used of the library's formatted input and output,
    with a locale for the contract of an extraction (strings, integers and prices are instances).
    \<open>ClientHandler\<close>, \<open>Client_Props\<close> (\<^verbatim>\<open>api/client_handler.cpp\<close>): the text protocol.
    \<open>Config\<close>, \<open>Config_Props\<close>, \<open>Uuid\<close>, \<open>Logger\<close> (\<^verbatim>\<open>util/*\<close>).
  \<^item> \<open>Sockets\<close>: the socket calls, addresses and their text, and when a list of calls is legal (every
    descriptor open when it is used). \<open>UdpTransport\<close> (\<^verbatim>\<open>network/udp_transport.cpp\<close>) and
    \<open>TcpServer\<close> (\<^verbatim>\<open>network/tcp_server.cpp\<close>): every operation with the calls it makes.
    \<open>Gossip_Transport\<close>: the engine's two loops on the transport.
  \<^item> \<open>Node\<close> (\<^verbatim>\<open>main.cpp\<close>): a node set up from its configuration, and its request handler.
    \<open>Deployment\<close>, \<open>Deployment_Props\<close>: all nodes and all datagrams; steps are connections of
    clients, iterations of gossip threads and arrivals of any datagram anywhere.
  \<^item> \<open>Gossip_Threads\<close>, \<open>Gossip_Threads_Props\<close> (\<^verbatim>\<open>gossip/gossip_engine.cpp\<close> again): the two
    threads of an engine cut into the steps that its locks make atomic, with what a thread has in
    local variables between them, interleaved with each other and the clients. \<open>Refinement\<close>: the
    simulation that takes every run of them to a run of \<open>CRDT_Cluster\<close>. \<open>Convergence\<close>: what
    follows for the deployment as a whole, and the runs that bring two nodes together.
  \<^item> \<open>Lifecycle\<close>, \<open>Lifecycle_Props\<close> (\<^verbatim>\<open>main.cpp\<close>, and \<^verbatim>\<open>start\<close> and
    \<^verbatim>\<open>stop\<close> of engine and server): a process from its constructors to its destructors, as steps
    of the main thread, the three threads it joins, detached connections and the signal handler,
    over the objects that are alive, the descriptors that are open and those on which a call does not wait
    for ever, and the mutexes that connections hold. A locale says what joining a thread needs of it;
    its three threads are the instances.
  \<^item> \<open>Unit_Tests\<close> (\<^verbatim>\<open>tests/*.cpp\<close>): all unit tests of the repository but one, run on the model,
    which passes them.

  \<^bold>\<open>What is shown.\<close> The book keeps its invariant as long as ids are not added twice;
  adding, cancelling and matching implement the price-time queue; a market order fills what is wanted or
  on offer. Replicas that applied the same operations agree when there are no market orders and no
  cancel overtakes its order, and without these conditions they can part for good. Messages survive the
  wire but for the last digit of prices; cut messages are refused or read out of bounds. The schedule is
  the exact golden-ratio sequence for \<open>2 ^ 24\<close> rounds, with one sender per round. Client
  lines are steps of the abstract cluster, a connection gets at most one answer whatever it sends, error
  replies change nothing, and configurations are read back. In every reachable state of a deployment all
  datagrams ever sent can be read, all books keep their invariant, no gossip thread gets stuck, and a
  recent operation that a node pushes is applied wherever its datagram arrives. The lock-by-lock model
  of a thread agrees with the one-step model when nothing interrupts it, and under every interleaving
  datagrams stay readable and what is read without a lock stays true. The whole deployment, threads,
  bytes and all, implements the abstract cluster as long as ids are new and prices exact, so two of its
  nodes that have seen the same operations answer a client's \<^verbatim>\<open>BOOK\<close> with the
  same bytes, and two pushes bring two nodes to that as long as their logs fit into one and neither
  market orders nor overtaking cancels happen. A full sync works between two sockets as long as the
  asking clock is honest and the answer fits into a datagram, which 516 operations do not. The threads
  that are joined never use an object or a descriptor after its end, nothing leaks, shutdown needs
  nothing from outside because no thread waits for ever on an idle socket, and a detached connection can
  be left with a destroyed book.

  \<^bold>\<open>Bounds and fuel.\<close> \<open>match_deque\<close> ends by the length of the deque and the quantity left.
  \<open>rr_loop\<close> has one unit of fuel per peer, which \<open>round_robin_next_alive\<close> shows to be enough.
  The schedule is compared with the exact ratio up to round \<open>2 ^ 24\<close>, 19 days at the default
  interval, where the rounding error of the products is far below the distance to an integer;
  pairs are defined up to round \<open>2 ^ 63\<close>. Prices are read back from text exactly in
  ten-thousandths below \<open>2 ^ 30\<close>. A deployment has at most 1024 nodes, names below 64 KiB and
  logs below \<open>2 ^ 32\<close> operations, the width of the wire's counts. \<open>gossip_alone\<close> takes at most
  seven steps and \<open>receive_alone\<close> three more than the message has operations, which
  \<open>gossip_alone_is_iteration\<close> and \<open>receive_alone_is_datagram\<close> show to be enough.

  \<^bold>\<open>Arguments of the model.\<close> Random draws, generated ids, clock readings, the content of
  variables and fields the source never assigns, the order in which the network delivers, what the
  operating system answers to a socket call, and the resolver for names that are not addresses.
  That a new descriptor is not one that is open, and that the system refuses UDP payloads above 65507
  bytes, are hypotheses where they are used.
  Undefined behaviour (a read outside a buffer, a conversion or division that is not defined) is
  the result \<open>OutOfBounds\<close> or \<open>None\<close>.

  \<^bold>\<open>Not modelled.\<close> The inside of the system's calls, how long they block short of
  for ever, and failures to create a thread; interleavings inside one hold of a lock; where log lines
  go; NaN and infinities, which neither the client's text nor the wire can produce (a gossip interval of
  0 would, as the phase offset under the Wythoff strategy); one unit test and the test framework, the
  frontend, the scripts and the monitoring configuration.
\<close>

end
